(* ===== verification/Prelude.thy ===== *)
theory Prelude
  imports Main "HOL-Library.Word"
begin

text \<open>
  Shared vocabulary of the development: the fixed-width integer types of the Rust sources,
  the propagation of \<open>Result\<close> values by the \<open>?\<close> operator, \<open>collect\<close> into a \<open>Result\<close>,
  little-endian byte codecs (\<open>to_le_bytes\<close> / \<open>from_le_bytes\<close>) and the checked and
  saturating \<open>i64\<close> operations of the standard library, with the lemmas the component
  theories use.  A Rust \<open>Result<T, E>\<close> is the sum \<open>'e + 't\<close>, \<open>Inl\<close> being \<open>Err\<close>; an
  \<open>iN\<close> or \<open>uN\<close> value is an \<open>N word\<close> where wrap-around matters and an \<open>int\<close> with its
  range written out where only order and bounds matter; \<open>usize\<close> is \<open>nat\<close>.
\<close>

unbundle bit_operations_syntax

type_synonym u8 = "8 word"
type_synonym u16 = "16 word"
type_synonym u32 = "32 word"
type_synonym u64 = "64 word"
type_synonym i16 = "16 word"
type_synonym i32 = "32 word"
type_synonym i64 = "64 word"

named_theorems res_simps \<open>evaluation of Result-valued programs\<close>
named_theorems le_simps \<open>little-endian byte codecs\<close>


section \<open>Results\<close>

text \<open>The \<open>?\<close> operator: an error leaves the function, a value goes on.\<close>

fun bind_res :: "'e + 'a \<Rightarrow> ('a \<Rightarrow> 'e + 'b) \<Rightarrow> 'e + 'b" where
  "bind_res (Inl e) f = Inl e"
| "bind_res (Inr x) f = f x"

text \<open>\<open>Option::ok_or\<close>.\<close>

definition ok_or :: "'a option \<Rightarrow> 'e \<Rightarrow> 'e + 'a" where
  "ok_or v e = (case v of None \<Rightarrow> Inl e | Some x \<Rightarrow> Inr x)"

text \<open>\<open>iter().map(f).collect::<Result<Vec<_>, _>>()\<close>: stops at the first error.\<close>

fun traverse :: "('a \<Rightarrow> 'e + 'b) \<Rightarrow> 'a list \<Rightarrow> 'e + 'b list" where
  "traverse f [] = Inr []"
| "traverse f (x # xs) = bind_res (f x) (\<lambda>y. bind_res (traverse f xs) (\<lambda>ys. Inr (y # ys)))"

fun is_ok :: "'e + 'a \<Rightarrow> bool" where
  "is_ok (Inl e) = False"
| "is_ok (Inr x) = True"

lemma bind_res_eq_Inr [simp]:
  "bind_res r f = Inr y \<longleftrightarrow> (\<exists>x. r = Inr x \<and> f x = Inr y)"
  by (cases r) auto

lemma bind_res_eq_Inl:
  "bind_res r f = Inl e \<longleftrightarrow> r = Inl e \<or> (\<exists>x. r = Inr x \<and> f x = Inl e)"
  by (cases r) auto

lemma Inr_eq_bind_res [simp]:
  "Inr y = bind_res r f \<longleftrightarrow> (\<exists>x. r = Inr x \<and> f x = Inr y)"
  by (cases r) auto

lemma bind_res_cong [fundef_cong]:
  "r = r' \<Longrightarrow> (\<And>x. r' = Inr x \<Longrightarrow> f x = g x) \<Longrightarrow> bind_res r f = bind_res r' g"
  by (cases r') auto

lemma ok_or_simps [simp, res_simps]:
  "ok_or None e = Inl e" "ok_or (Some x) e = Inr x"
  by (simp_all add: ok_or_def)

lemma ok_or_eq_Inr [simp]: "ok_or v e = Inr x \<longleftrightarrow> v = Some x"
  by (cases v) auto

lemma ok_or_eq_Inl: "ok_or v e = Inl e' \<longleftrightarrow> v = None \<and> e' = e"
  by (cases v) auto

lemma is_ok_bind_Inr [simp]: "is_ok (bind_res r (\<lambda>x. Inr (f x))) = is_ok r"
  by (cases r) simp_all

lemma is_ok_bind: "is_ok (bind_res r f) \<longleftrightarrow> (\<exists>x. r = Inr x \<and> is_ok (f x))"
  by (cases r) simp_all

lemma is_ok_iff: "is_ok r \<longleftrightarrow> (\<exists>x. r = Inr x)"
  by (cases r) simp_all

lemma traverse_length: "traverse f xs = Inr ys \<Longrightarrow> length ys = length xs"
  by (induction xs arbitrary: ys) auto

lemma traverse_nth: "traverse f xs = Inr ys \<Longrightarrow> i < length xs \<Longrightarrow> f (xs ! i) = Inr (ys ! i)"
proof (induction xs arbitrary: ys i)
  case Nil
  then show ?case by simp
next
  case (Cons x xs)
  then show ?case by (cases i) auto
qed

lemma traverse_all2: "traverse f xs = Inr ys \<longleftrightarrow> list_all2 (\<lambda>x y. f x = Inr y) xs ys"
  by (induction xs arbitrary: ys) (auto simp: list_all2_Cons1)

lemma traverse_Inl:
  "traverse f xs = Inl e \<longleftrightarrow>
     (\<exists>i < length xs. f (xs ! i) = Inl e \<and> (\<forall>j < i. is_ok (f (xs ! j))))"
proof (induction xs)
  case Nil
  then show ?case by simp
next
  case (Cons x xs)
  show ?case
  proof (cases "f x")
    case (Inl e')
    then have "(\<exists>i < length (x # xs). f ((x # xs) ! i) = Inl e
        \<and> (\<forall>j < i. is_ok (f ((x # xs) ! j)))) \<longleftrightarrow> e' = e"
      by (metis Inl_inject is_ok.simps(1) length_greater_0_conv list.distinct(1)
          neq0_conv not_less_zero nth_Cons_0)
    with Inl show ?thesis by simp
  next
    case (Inr y)
    then have "(\<exists>i < Suc (length xs). f ((x # xs) ! i) = Inl e
        \<and> (\<forall>j < i. is_ok (f ((x # xs) ! j))))
      \<longleftrightarrow> (\<exists>i < length xs. f (xs ! i) = Inl e \<and> (\<forall>j < i. is_ok (f (xs ! j))))"
      by (simp add: Ex_less_Suc2 All_less_Suc2)
    with Inr Cons.IH show ?thesis by (simp add: bind_res_eq_Inl)
  qed
qed

lemma traverse_cong [fundef_cong]:
  "xs = ys \<Longrightarrow> (\<And>x. x \<in> set ys \<Longrightarrow> f x = g x) \<Longrightarrow> traverse f xs = traverse g ys"
  by (induction ys arbitrary: xs) auto


section \<open>Little-endian bytes\<close>

fun to_le :: "nat \<Rightarrow> 'a::len word \<Rightarrow> u8 list" where
  "to_le 0 w = []"
| "to_le (Suc n) w = ucast w # to_le n (drop_bit 8 w)"

fun from_le :: "u8 list \<Rightarrow> 'a::len word" where
  "from_le [] = 0"
| "from_le (b # bs) = ucast b OR push_bit 8 (from_le bs)"

lemma to_le_numeral [le_simps]:
  "to_le (numeral k) w = ucast w # to_le (pred_numeral k) (drop_bit 8 w)"
  by (simp add: numeral_eq_Suc)

lemma length_to_le [simp, le_simps]: "length (to_le n w) = n"
  by (induction n arbitrary: w) auto

lemma to_le_eq_Nil [simp]: "to_le n w = [] \<longleftrightarrow> n = 0"
  by (cases n) auto

lemma bit_from_le:
  "bit (from_le bs :: 'a::len word) i \<longleftrightarrow>
     i < LENGTH('a) \<and> i div 8 < length bs \<and> bit (bs ! (i div 8)) (i mod 8)"
proof (induction bs arbitrary: i)
  case Nil
  then show ?case by simp
next
  case (Cons b bs)
  show ?case
  proof (cases "i < 8")
    case True
    then show ?thesis by (simp add: bit_simps)
  next
    case False
    then have "i div 8 = Suc ((i - 8) div 8)" "(i - 8) mod 8 = i mod 8"
      by (simp_all add: le_div_geq le_mod_geq)
    moreover have "\<not> bit b i"
      using False by (auto simp: bit_word.rep_eq bit_take_bit_iff dest: bit_imp_le_length)
    ultimately show ?thesis
      using False Cons.IH [of "i - 8"] by (auto simp: bit_simps)
  qed
qed

lemma nth_to_le: "i < n \<Longrightarrow> to_le n w ! i = ucast (drop_bit (8 * i) w)"
proof (induction n arbitrary: i w)
  case 0
  then show ?case by simp
next
  case (Suc n)
  then show ?case
    by (cases i) (auto simp: ac_simps)
qed

lemma from_le_to_le: "from_le (to_le n w) = take_bit (8 * n) (w :: 'a::len word)"
proof (rule bit_eqI)
  fix i
  assume "possible_bit TYPE('a word) i"
  then have "i < LENGTH('a)" by simp
  moreover have "i div 8 < n \<longleftrightarrow> i < 8 * n"
    by (metis less_mult_imp_div_less mult.commute div_less_iff_less_mult zero_less_numeral)
  ultimately show "bit (from_le (to_le n w) :: 'a word) i \<longleftrightarrow> bit (take_bit (8 * n) w) i"
    by (auto simp: bit_from_le nth_to_le bit_simps)
qed

lemma from_le_to_le_full [simp, le_simps]:
  "LENGTH('a) \<le> 8 * n \<Longrightarrow> from_le (to_le n w) = (w :: 'a::len word)"
  by (simp add: from_le_to_le take_bit_word_eq_self)

lemma to_le_from_le [simp]:
  assumes "8 * length bs \<le> LENGTH('a)"
  shows "to_le (length bs) (from_le bs :: 'a::len word) = bs"
proof (rule nth_equalityI)
  show "length (to_le (length bs) (from_le bs :: 'a word)) = length bs" by simp
  fix i
  assume i: "i < length (to_le (length bs) (from_le bs :: 'a word))"
  show "to_le (length bs) (from_le bs :: 'a word) ! i = bs ! i"
  proof (rule bit_eqI)
    fix n
    assume "possible_bit TYPE(8 word) n"
    then have n: "n < 8" by simp
    from i have "8 * i + 8 \<le> 8 * length bs" by simp
    with n assms have "8 * i + n < LENGTH('a)" by linarith
    moreover from n have "(8 * i + n) div 8 = i" "(8 * i + n) mod 8 = n" by simp_all
    ultimately show "bit (to_le (length bs) (from_le bs :: 'a word) ! i) n \<longleftrightarrow> bit (bs ! i) n"
      using i n by (simp add: nth_to_le bit_simps bit_from_le)
  qed
qed


section \<open>Signed 64-bit arithmetic on integers\<close>

definition i64_min :: int where "i64_min = - (2 ^ 63)"
definition i64_max :: int where "i64_max = 2 ^ 63 - 1"

definition in_i64 :: "int \<Rightarrow> bool" where
  "in_i64 x \<longleftrightarrow> i64_min \<le> x \<and> x \<le> i64_max"

definition checked_i64 :: "int \<Rightarrow> int option" where
  "checked_i64 x = (if in_i64 x then Some x else None)"

definition saturate_i64 :: "int \<Rightarrow> int" where
  "saturate_i64 x = (if x < i64_min then i64_min else if i64_max < x then i64_max else x)"

lemmas i64_bounds = i64_min_def i64_max_def in_i64_def

lemma checked_i64_Some [simp]: "checked_i64 x = Some y \<longleftrightarrow> in_i64 x \<and> y = x"
  by (auto simp: checked_i64_def)

lemma checked_i64_None [simp]: "checked_i64 x = None \<longleftrightarrow> \<not> in_i64 x"
  by (auto simp: checked_i64_def)

lemma sint_in_i64 [simp]: "in_i64 (sint (w :: i64))"
  using sint_ge [of w] sint_lt [of w] by (simp add: i64_bounds)

lemma sint_word_of_int_i64: "in_i64 x \<Longrightarrow> sint (word_of_int x :: i64) = x"
  by (simp add: i64_bounds signed_of_int signed_take_bit_int_eq_self)

lemma sint_add_i64:
  fixes a b :: i64
  assumes "in_i64 (sint a + sint b)"
  shows "sint (a + b) = sint a + sint b"
  using assms by (simp add: i64_bounds sint_word_ariths signed_take_bit_int_eq_self)


section \<open>Tables filled by index\<close>

text \<open>
  A loop \<open>for (i, &s) in keys.iter().enumerate() { table[s] = f(i) }\<close>, as both slot tables of
  the repository are built.
\<close>

definition fill_table :: "(nat \<Rightarrow> 'a) \<Rightarrow> nat list \<Rightarrow> 'a list \<Rightarrow> 'a list" where
  "fill_table f keys table = fold (\<lambda>(i, s) m. m[s := f i]) (enumerate 0 keys) table"

abbreviation fill_from :: "(nat \<Rightarrow> 'a) \<Rightarrow> nat \<Rightarrow> nat list \<Rightarrow> 'a list \<Rightarrow> 'a list" where
  "fill_from f k keys m \<equiv> fold (\<lambda>(i, s) m. m[s := f i]) (enumerate k keys) m"

lemma fill_from_length: "length (fill_from f k keys m) = length m"
  by (induction keys arbitrary: k m) simp_all

lemma fill_from_other: "s \<notin> set keys \<Longrightarrow> fill_from f k keys m ! s = m ! s"
  by (induction keys arbitrary: k m) simp_all

lemma fill_from_key:
  "distinct keys \<Longrightarrow> \<forall>s \<in> set keys. s < length m \<Longrightarrow> i < length keys \<Longrightarrow>
     fill_from f k keys m ! (keys ! i) = f (k + i)"
proof (induction keys arbitrary: k m i)
  case Nil
  then show ?case by simp
next
  case (Cons x keys)
  show ?case
  proof (cases i)
    case 0
    with Cons.prems show ?thesis by (simp add: fill_from_other)
  next
    case (Suc j)
    with Cons.prems Cons.IH [of "m[x := f k]" j "Suc k"] show ?thesis by simp
  qed
qed

lemma fill_table_length [simp]: "length (fill_table f keys m) = length m"
  by (simp add: fill_table_def fill_from_length)

lemma fill_table_other: "s \<notin> set keys \<Longrightarrow> fill_table f keys m ! s = m ! s"
  by (simp add: fill_table_def fill_from_other)

lemma fill_table_key:
  "distinct keys \<Longrightarrow> \<forall>s \<in> set keys. s < length m \<Longrightarrow> i < length keys \<Longrightarrow>
     fill_table f keys m ! (keys ! i) = f i"
  by (simp add: fill_table_def fill_from_key)

end
