(* ===== verification/Isa.thy ===== *)
theory Isa
  imports Prelude
begin

text \<open>
  The instruction set of \<open>crates/ebpf-isa\<close>: the raw 8-byte word (\<open>insn.rs\<close>, \<open>RawInsn\<close>), the
  decoded instruction type \<open>Insn\<close> with its operand, width, size and operation enums, the
  opcode constants (\<open>opcode.rs\<close>) and the arithmetic of \<open>AluOp::apply\<close>.  A register value is
  an \<open>i64\<close>, a 64-bit word read as signed with \<open>sint\<close> and as unsigned with \<open>uint\<close>; the
  unreachable arm of \<open>BPF_END\<close> is \<open>None\<close>.
\<close>


section \<open>Raw instruction words\<close>

record raw_insn =
  r_opcode :: u8
  r_regs :: u8
  r_offset :: i16
  r_imm :: i32

definition raw_dst :: "raw_insn \<Rightarrow> u8" where
  "raw_dst raw = r_regs raw AND 0x0f"

definition raw_src :: "raw_insn \<Rightarrow> u8" where
  "raw_src raw = drop_bit 4 (r_regs raw) AND 0x0f"

text \<open>\<open>RawInsn::from_bytes\<close>, on a chunk of exactly eight bytes.\<close>

definition from_bytes :: "u8 list \<Rightarrow> raw_insn" where
  "from_bytes b = \<lparr>r_opcode = b ! 0, r_regs = b ! 1,
     r_offset = from_le [b ! 2, b ! 3], r_imm = from_le [b ! 4, b ! 5, b ! 6, b ! 7]\<rparr>"

definition to_bytes :: "raw_insn \<Rightarrow> u8 list" where
  "to_bytes raw =
     (let off = to_le 2 (r_offset raw); im = to_le 4 (r_imm raw)
      in [r_opcode raw, r_regs raw, off ! 0, off ! 1, im ! 0, im ! 1, im ! 2, im ! 3])"


section \<open>Registers and operands\<close>

datatype reg = Reg (reg_num: u8)

definition frame_ptr :: reg where
  "frame_ptr = Reg 10"

definition reg_index :: "reg \<Rightarrow> nat" where
  "reg_index r = unat (reg_num r)"

definition is_frame_ptr :: "reg \<Rightarrow> bool" where
  "is_frame_ptr r \<longleftrightarrow> reg_num r = reg_num frame_ptr"

datatype operand = RegOp reg | ImmOp i32

datatype width = B32 | B64

definition is_64 :: "width \<Rightarrow> bool" where
  "is_64 w = (case w of B64 \<Rightarrow> True | B32 \<Rightarrow> False)"

datatype endian = LE | BE

datatype alu_op = Add | Sub | Mul | Div | Or | And | Lsh | Rsh | Neg | Mod | Xor | Mov | Arsh
  | End endian

definition is_end :: "alu_op \<Rightarrow> bool" where
  "is_end op = (case op of End e \<Rightarrow> True | _ \<Rightarrow> False)"

datatype jump_op = Always | JEq | Gt | Ge | JSet | Ne | Sgt | Sge | Lt | Le | Slt | Sle
  | JCall | JExit

datatype mem_size = SzB | SzH | SzW | SzDw

datatype insn =
    Alu width alu_op reg operand
  | Load mem_size reg reg i16
  | Store mem_size reg i16 operand
  | LoadImm64 reg i64
  | Jump width jump_op reg operand i16
  | Call u32
  | Exit
  | Unknown raw_insn

datatype decode_error =
    Truncated nat
  | TruncatedWide
  | UnknownAluOp u8
  | UnknownJumpOp u8
  | UnknownMemSize u8
  | BadReg u8
  | UnknownClass u8 u8

text \<open>\<open>Reg::new\<close>; its \<open>InvalidReg\<close> becomes \<open>DecodeError::BadReg\<close> at every caller.\<close>

definition reg_new :: "u8 \<Rightarrow> decode_error + reg" where
  "reg_new n = (if n \<le> 10 then Inr (Reg n) else Inl (BadReg n))"

definition mem_bytes :: "mem_size \<Rightarrow> nat" where
  "mem_bytes s = (case s of SzB \<Rightarrow> 1 | SzH \<Rightarrow> 2 | SzW \<Rightarrow> 4 | SzDw \<Rightarrow> 8)"


section \<open>Opcodes\<close>

definition class_LD :: u8 where "class_LD = 0x00"
definition class_LDX :: u8 where "class_LDX = 0x01"
definition class_ST :: u8 where "class_ST = 0x02"
definition class_STX :: u8 where "class_STX = 0x03"
definition class_ALU :: u8 where "class_ALU = 0x04"
definition class_JMP :: u8 where "class_JMP = 0x05"
definition class_JMP32 :: u8 where "class_JMP32 = 0x06"
definition class_ALU64 :: u8 where "class_ALU64 = 0x07"

definition LD_IMM_DW :: u8 where "LD_IMM_DW = 0x18"
definition JMP_CALL :: u8 where "JMP_CALL = 0x85"
definition JMP_EXIT :: u8 where "JMP_EXIT = 0x95"

lemmas opcode_defs =
  class_LD_def class_LDX_def class_ST_def class_STX_def class_ALU_def class_JMP_def
  class_JMP32_def class_ALU64_def LD_IMM_DW_def JMP_CALL_def JMP_EXIT_def

definition is_imm_source :: "u8 \<Rightarrow> bool" where
  "is_imm_source op \<longleftrightarrow> op AND 0x08 = 0"

definition klass :: "u8 \<Rightarrow> u8" where
  "klass op = op AND 0x07"

definition op_nibble :: "u8 \<Rightarrow> u8" where
  "op_nibble op = drop_bit 4 op AND 0x0f"

definition alu_from_opcode :: "u8 \<Rightarrow> decode_error + alu_op" where
  "alu_from_opcode op =
     (let v = op_nibble op in
      if v = 0x0 then Inr Add else if v = 0x1 then Inr Sub
      else if v = 0x2 then Inr Mul else if v = 0x3 then Inr Div
      else if v = 0x4 then Inr Or else if v = 0x5 then Inr And
      else if v = 0x6 then Inr Lsh else if v = 0x7 then Inr Rsh
      else if v = 0x8 then Inr Neg else if v = 0x9 then Inr Mod
      else if v = 0xa then Inr Xor else if v = 0xb then Inr Mov
      else if v = 0xc then Inr Arsh
      else if v = 0xd then Inr (End (if op AND 0x08 \<noteq> 0 then BE else LE))
      else Inl (UnknownAluOp v))"

definition jump_from_opcode :: "u8 \<Rightarrow> decode_error + jump_op" where
  "jump_from_opcode op =
     (let v = op_nibble op in
      if v = 0x0 then Inr Always else if v = 0x1 then Inr JEq
      else if v = 0x2 then Inr Gt else if v = 0x3 then Inr Ge
      else if v = 0x4 then Inr JSet else if v = 0x5 then Inr Ne
      else if v = 0x6 then Inr Sgt else if v = 0x7 then Inr Sge
      else if v = 0x8 then Inr JCall else if v = 0x9 then Inr JExit
      else if v = 0xa then Inr Lt else if v = 0xb then Inr Le
      else if v = 0xc then Inr Slt else if v = 0xd then Inr Sle
      else Inl (UnknownJumpOp v))"

definition size_from_opcode :: "u8 \<Rightarrow> decode_error + mem_size" where
  "size_from_opcode op =
     (let v = drop_bit 3 op AND 0x03 in
      if v = 0x0 then Inr SzW else if v = 0x1 then Inr SzH
      else if v = 0x2 then Inr SzB else if v = 0x3 then Inr SzDw
      else Inl (UnknownMemSize op))"


section \<open>Well-formed instructions\<close>

text \<open>A register number \<open>0..=10\<close>, the promise \<open>Reg::new\<close> makes to every later stage.\<close>

definition wf_reg :: "reg \<Rightarrow> bool" where
  "wf_reg r \<longleftrightarrow> reg_num r \<le> 10"

fun wf_operand :: "operand \<Rightarrow> bool" where
  "wf_operand (RegOp r) = wf_reg r"
| "wf_operand (ImmOp k) = True"

fun wf_insn :: "insn \<Rightarrow> bool" where
  "wf_insn (Alu w op dst src) = (wf_reg dst \<and> wf_operand src)"
| "wf_insn (Load s dst base off) = (wf_reg dst \<and> wf_reg base)"
| "wf_insn (Store s base off src) = (wf_reg base \<and> wf_operand src)"
| "wf_insn (LoadImm64 dst k) = wf_reg dst"
| "wf_insn (Jump w op dst src off) = (wf_reg dst \<and> wf_operand src)"
| "wf_insn (Call f) = True"
| "wf_insn Exit = True"
| "wf_insn (Unknown raw) = True"

lemma reg_new_Inr [simp]: "reg_new n = Inr r \<longleftrightarrow> r = Reg n \<and> wf_reg r"
  by (auto simp: reg_new_def wf_reg_def)

lemma reg_new_wf [simp]: "wf_reg r \<Longrightarrow> reg_new (reg_num r) = Inr r"
  by (simp add: wf_reg_def reg_new_def)

lemma wf_reg_index: "wf_reg r \<Longrightarrow> reg_index r < 11"
  by (simp add: wf_reg_def reg_index_def word_le_nat_alt)

lemma reg_index_inj: "reg_index r = reg_index r' \<longleftrightarrow> r = r'"
  by (cases r; cases r') (auto simp: reg_index_def intro: unsigned_word_eqI)

lemma is_frame_ptr_iff [simp]: "is_frame_ptr r \<longleftrightarrow> r = frame_ptr"
  by (cases r) (simp add: is_frame_ptr_def frame_ptr_def)

lemma mem_bytes_cases: "mem_bytes s \<in> {1, 2, 4, 8}"
  by (cases s) (simp_all add: mem_bytes_def)

lemma mem_bytes_simps [simp]:
  "mem_bytes SzB = 1" "mem_bytes SzH = 2" "mem_bytes SzW = 4" "mem_bytes SzDw = 8"
  by (simp_all add: mem_bytes_def)

lemma mem_bytes_bounds: "0 < mem_bytes s" "mem_bytes s \<le> 8"
  by (cases s; simp)+

lemma nth2_to_le: "[to_le 2 w ! 0, to_le 2 w ! Suc 0] = to_le 2 w"
  by (simp add: le_simps)

lemma nth4_to_le: "[to_le 4 w ! 0, to_le 4 w ! Suc 0, to_le 4 w ! 2, to_le 4 w ! 3] = to_le 4 w"
  by (simp add: le_simps)

lemma from_bytes_to_bytes [simp]: "from_bytes (to_bytes raw) = raw"
  by (simp add: from_bytes_def to_bytes_def Let_def nth2_to_le nth4_to_le)

lemma length_to_bytes [simp]: "length (to_bytes raw) = 8"
  by (simp add: to_bytes_def Let_def)

text \<open>Any eight bytes survive the structured view.\<close>

lemma eight_bytes: "length b = 8 \<longleftrightarrow> (\<exists>b0 b1 b2 b3 b4 b5 b6 b7. b = [b0, b1, b2, b3, b4, b5, b6, b7])"
  by (auto simp: numeral_eq_Suc length_Suc_conv)

lemma to_bytes_from_bytes [simp]:
  assumes "length b = 8"
  shows "to_bytes (from_bytes b) = b"
proof -
  from assms obtain b0 b1 b2 b3 b4 b5 b6 b7 where b: "b = [b0, b1, b2, b3, b4, b5, b6, b7]"
    by (auto simp: eight_bytes)
  have "to_le 2 (from_le [b2, b3] :: 16 word) = [b2, b3]"
    using to_le_from_le [of "[b2, b3]", where 'a = 16]
    by (simp add: eval_nat_numeral del: to_le.simps from_le.simps)
  moreover have "to_le 4 (from_le [b4, b5, b6, b7] :: 32 word) = [b4, b5, b6, b7]"
    using to_le_from_le [of "[b4, b5, b6, b7]", where 'a = 32]
    by (simp add: eval_nat_numeral del: to_le.simps from_le.simps)
  ultimately show ?thesis
    by (simp add: b from_bytes_def to_bytes_def del: to_le.simps from_le.simps)
qed


section \<open>Arithmetic\<close>

text \<open>\<open>swap_bytes\<close> on an \<open>8 * n\<close>-bit word.\<close>

definition swap_bytes :: "nat \<Rightarrow> 'a::len word \<Rightarrow> 'a word" where
  "swap_bytes n w = from_le (rev (to_le n w))"

text \<open>
  \<open>endian_swap\<close>: mask to the width, then swap within it for big-endian output.  The
  \<open>unreachable!\<close> arm of a width other than 16, 32 and 64 is \<open>None\<close>.
\<close>

definition endian_swap :: "i64 \<Rightarrow> i64 \<Rightarrow> endian \<Rightarrow> i64 option" where
  "endian_swap v width_imm e =
     (case (if width_imm = 16 then Some (v AND 0xFFFF)
            else if width_imm = 32 then Some (v AND 0xFFFFFFFF)
            else if width_imm = 64 then Some v else None) of
        None \<Rightarrow> None
      | Some masked \<Rightarrow>
          if e = LE then Some masked
          else Some (if width_imm = 16 then ucast (swap_bytes 2 (ucast masked :: u16))
                     else if width_imm = 32 then ucast (swap_bytes 4 (ucast masked :: u32))
                     else swap_bytes 8 masked))"

definition endian_swap_32 :: "u32 \<Rightarrow> i64 \<Rightarrow> endian \<Rightarrow> u32 option" where
  "endian_swap_32 v width_imm e =
     (case (if width_imm = 16 then Some (v AND 0xFFFF)
            else if width_imm = 32 \<or> width_imm = 64 then Some v else None) of
        None \<Rightarrow> None
      | Some masked \<Rightarrow>
          if e = LE then Some masked
          else Some (if width_imm = 16 then ucast (swap_bytes 2 (ucast masked :: u16))
                     else swap_bytes 4 masked))"

fun alu64 :: "alu_op \<Rightarrow> i64 \<Rightarrow> i64 \<Rightarrow> i64 option" where
  "alu64 Add l r = Some (l + r)"
| "alu64 Sub l r = Some (l - r)"
| "alu64 Mul l r = Some (l * r)"
| "alu64 Div l r = Some (if r = 0 then 0 else l div r)"
| "alu64 Mod l r = Some (if r = 0 then 0 else l mod r)"
| "alu64 Or l r = Some (l OR r)"
| "alu64 And l r = Some (l AND r)"
| "alu64 Xor l r = Some (l XOR r)"
| "alu64 Mov l r = Some r"
| "alu64 Neg l r = Some (- l)"
| "alu64 Lsh l r = Some (push_bit (unat (ucast r AND 63 :: u32)) l)"
| "alu64 Rsh l r = Some (drop_bit (unat (ucast r AND 63 :: u32)) l)"
| "alu64 Arsh l r = Some (signed_drop_bit (unat (ucast r AND 63 :: u32)) l)"
| "alu64 (End e) l r = endian_swap l r e"

fun alu32_word :: "alu_op \<Rightarrow> u32 \<Rightarrow> u32 \<Rightarrow> i64 \<Rightarrow> u32 option" where
  "alu32_word Add l r rhs = Some (l + r)"
| "alu32_word Sub l r rhs = Some (l - r)"
| "alu32_word Mul l r rhs = Some (l * r)"
| "alu32_word Div l r rhs = Some (if r = 0 then 0 else l div r)"
| "alu32_word Mod l r rhs = Some (if r = 0 then 0 else l mod r)"
| "alu32_word Or l r rhs = Some (l OR r)"
| "alu32_word And l r rhs = Some (l AND r)"
| "alu32_word Xor l r rhs = Some (l XOR r)"
| "alu32_word Mov l r rhs = Some r"
| "alu32_word Neg l r rhs = Some (- l)"
| "alu32_word Lsh l r rhs = Some (push_bit (unat (r AND 31)) l)"
| "alu32_word Rsh l r rhs = Some (drop_bit (unat (r AND 31)) l)"
| "alu32_word Arsh l r rhs = Some (signed_drop_bit (unat (r AND 31)) l)"
| "alu32_word (End e) l r rhs = endian_swap_32 l rhs e"

definition alu32 :: "alu_op \<Rightarrow> i64 \<Rightarrow> i64 \<Rightarrow> i64 option" where
  "alu32 op lhs rhs = map_option ucast (alu32_word op (ucast lhs) (ucast rhs) rhs)"

definition alu_apply :: "alu_op \<Rightarrow> i64 \<Rightarrow> i64 \<Rightarrow> width \<Rightarrow> i64 option" where
  "alu_apply op lhs rhs w = (case w of B64 \<Rightarrow> alu64 op lhs rhs | B32 \<Rightarrow> alu32 op lhs rhs)"

definition valid_end_width :: "i64 \<Rightarrow> bool" where
  "valid_end_width w \<longleftrightarrow> w \<in> {16, 32, 64}"

lemma endian_swap_None [simp]: "endian_swap v w e = None \<longleftrightarrow> \<not> valid_end_width w"
  by (simp add: endian_swap_def valid_end_width_def)

lemma endian_swap_32_None [simp]: "endian_swap_32 v w e = None \<longleftrightarrow> \<not> valid_end_width w"
  by (simp add: endian_swap_32_def valid_end_width_def)

lemma alu64_None [simp]: "alu64 op l r = None \<longleftrightarrow> (\<exists>e. op = End e \<and> \<not> valid_end_width r)"
  by (cases op) auto

lemma alu32_None [simp]: "alu32 op l r = None \<longleftrightarrow> (\<exists>e. op = End e \<and> \<not> valid_end_width r)"
  by (cases op) (auto simp: alu32_def)

lemma alu_apply_None: "alu_apply op l r w = None \<longleftrightarrow> (\<exists>e. op = End e \<and> \<not> valid_end_width r)"
  by (cases w) (simp_all add: alu_apply_def)

lemma swap_bytes_involutive: "LENGTH('a::len) = 8 * n \<Longrightarrow> swap_bytes n (swap_bytes n (w :: 'a word)) = w"
proof -
  assume n: "LENGTH('a) = 8 * n"
  let ?bs = "rev (to_le n w)"
  have "to_le (length ?bs) (from_le ?bs :: 'a word) = ?bs"
    by (rule to_le_from_le) (simp add: n)
  then have "to_le n (from_le ?bs :: 'a word) = ?bs" by simp
  then show ?thesis using n by (simp add: swap_bytes_def)
qed

lemma ucast_mask32: "(ucast (ucast (w :: 64 word) :: 32 word) :: 64 word) = w AND 0xFFFFFFFF"
proof -
  have "(0xFFFFFFFF :: 64 word) = mask 32" by (simp add: mask_eq_exp_minus_1)
  then have "w AND 0xFFFFFFFF = take_bit 32 w" by (simp only: take_bit_eq_mask)
  then show ?thesis by (auto simp: bit_simps intro!: bit_eqI)
qed

lemma ucast_twice32: "(ucast (ucast (w :: 32 word) :: 64 word) :: 32 word) = w"
  by (rule bit_eqI) (auto simp: bit_simps)

lemma ucast_and_mask32: "(ucast ((w :: 64 word) AND 0xFFFFFFFF) :: 32 word) = ucast w"
proof -
  have "(0xFFFFFFFF :: 64 word) = mask 32" by (simp add: mask_eq_exp_minus_1)
  then have "w AND 0xFFFFFFFF = take_bit 32 w" by (simp only: take_bit_eq_mask)
  then show ?thesis by (auto simp: bit_simps intro!: bit_eqI)
qed


section \<open>Properties\<close>

text \<open>
  \<open>AluOp::apply\<close> reaches its \<open>unreachable!\<close> arm exactly for a byte swap whose width
  immediate is not 16, 32 or 64, at either operand width.
\<close>

theorem alu_apply_unreachable_iff:
  "alu_apply op lhs rhs w = None \<longleftrightarrow> is_end op \<and> \<not> valid_end_width rhs"
  by (cases op) (auto simp: alu_apply_None is_end_def)

text \<open>
  a 32-bit operation reads only the low words of its operands (the width immediate of a
  byte swap apart) and zero-extends its result.
\<close>

theorem alu32_low_words:
  "alu_apply op lhs rhs B32 = Some v \<Longrightarrow>
     v AND 0xFFFFFFFF = v
   \<and> alu_apply op (lhs AND 0xFFFFFFFF) rhs B32 = Some v
   \<and> (\<not> is_end op \<longrightarrow> alu_apply op lhs (rhs AND 0xFFFFFFFF) B32 = Some v)"
proof -
  assume v: "alu_apply op lhs rhs B32 = Some v"
  then obtain u where "v = ucast (u :: 32 word)"
    by (auto simp: alu_apply_def alu32_def)
  then have "v AND 0xFFFFFFFF = v"
    by (simp add: ucast_mask32 [symmetric] ucast_twice32)
  moreover have "alu_apply op (lhs AND 0xFFFFFFFF) rhs B32 = Some v"
    using v by (simp add: alu_apply_def alu32_def ucast_and_mask32)
  moreover have "\<not> is_end op \<Longrightarrow> alu_apply op lhs (rhs AND 0xFFFFFFFF) B32 = Some v"
    using v by (cases op) (simp_all add: alu_apply_def alu32_def ucast_and_mask32 is_end_def)
  ultimately show ?thesis by blast
qed

theorem alu32_low_words_witness:
  "alu_apply Add 0xFFFFFFFFFFFFFFFF 2 B32 = Some 1
   \<and> alu_apply Add (0xFFFFFFFFFFFFFFFF AND 0xFFFFFFFF) 2 B32 = Some 1"
proof -
  have "alu_apply Add 0xFFFFFFFFFFFFFFFF 2 B32 = Some 1" by (simp add: alu_apply_def alu32_def)
  from this alu32_low_words [OF this] show ?thesis by blast
qed

end
