(* ===== verification/Codec.thy ===== *)
theory Codec
  imports Isa
begin

text \<open>
  The wire codec: \<open>decode.rs\<close> (\<open>decode_program\<close>, \<open>decode_one\<close>, \<open>decode_operand\<close>) and \<open>encode.rs\<close>
  (\<open>encode_program\<close>, \<open>encode_one\<close> and its nibble tables).  The \<open>while\<close> loop of
  \<open>decode_program\<close> is a recursion on the bytes that remain; errors keep the source's order of
  checks.  The lemmas relate the two directions: every encoder output decodes to the canonical
  form of its input, and the decoder only produces well-formed instructions.
\<close>


section \<open>Decoding\<close>

definition decode_operand :: "raw_insn \<Rightarrow> decode_error + operand" where
  "decode_operand raw =
     (if is_imm_source (r_opcode raw) then Inr (ImmOp (r_imm raw))
      else bind_res (reg_new (raw_src raw)) (\<lambda>r. Inr (RegOp r)))"

text \<open>\<open>decode_one\<close> returns the instruction and the bytes it consumed.\<close>

definition decode_one :: "raw_insn \<Rightarrow> u8 list \<Rightarrow> decode_error + (insn \<times> nat)" where
  "decode_one raw rest =
    (if r_opcode raw = JMP_EXIT then Inr (Exit, 8)
     else if r_opcode raw = JMP_CALL then Inr (Call (r_imm raw), 8)
     else if r_opcode raw = LD_IMM_DW then
       (if length rest < 16 then Inl TruncatedWide
        else let next = from_bytes (take 8 (drop 8 rest));
                 k = ucast (r_imm raw) OR push_bit 32 (ucast (r_imm next))
             in bind_res (reg_new (raw_dst raw)) (\<lambda>dst. Inr (LoadImm64 dst k, 16)))
     else
       let kl = klass (r_opcode raw) in
       if kl = class_ALU64 \<or> kl = class_ALU then
         let width = (if kl = class_ALU64 then B64 else B32) in
         bind_res (alu_from_opcode (r_opcode raw)) (\<lambda>op.
         bind_res (if is_end op then Inr (ImmOp (r_imm raw)) else decode_operand raw) (\<lambda>src.
         bind_res (reg_new (raw_dst raw)) (\<lambda>dst. Inr (Alu width op dst src, 8))))
       else if kl = class_JMP \<or> kl = class_JMP32 then
         let width = (if kl = class_JMP then B64 else B32) in
         bind_res (jump_from_opcode (r_opcode raw)) (\<lambda>op.
         bind_res (decode_operand raw) (\<lambda>src.
         bind_res (reg_new (raw_dst raw)) (\<lambda>dst. Inr (Jump width op dst src (r_offset raw), 8))))
       else if kl = class_LDX then
         bind_res (size_from_opcode (r_opcode raw)) (\<lambda>size.
         bind_res (reg_new (raw_dst raw)) (\<lambda>dst.
         bind_res (reg_new (raw_src raw)) (\<lambda>base. Inr (Load size dst base (r_offset raw), 8))))
       else if kl = class_ST \<or> kl = class_STX then
         bind_res (size_from_opcode (r_opcode raw)) (\<lambda>size.
         bind_res (if kl = class_ST then Inr (ImmOp (r_imm raw))
                   else bind_res (reg_new (raw_src raw)) (\<lambda>r. Inr (RegOp r))) (\<lambda>src.
         bind_res (reg_new (raw_dst raw)) (\<lambda>base. Inr (Store size base (r_offset raw) src, 8))))
       else Inr (Unknown raw, 8))"

lemma decode_one_consumed:
  "decode_one raw rest = Inr (insn, n) \<Longrightarrow> n = (case insn of LoadImm64 _ _ \<Rightarrow> 16 | _ \<Rightarrow> 8)"
  by (auto simp: decode_one_def Let_def split: if_splits)

lemma decode_one_progress: "decode_one raw rest = Inr (insn, n) \<Longrightarrow> n = 8 \<or> n = 16"
  by (drule decode_one_consumed) (auto split: insn.splits)

function decode_from :: "u8 list \<Rightarrow> decode_error + insn list" where
  "decode_from rest =
    (if rest = [] then Inr []
     else if length rest < 8 then Inl (Truncated (length rest))
     else bind_res (decode_one (from_bytes (take 8 rest)) rest) (\<lambda>(insn, consumed).
          bind_res (decode_from (drop consumed rest)) (\<lambda>insns. Inr (insn # insns))))"
  by pat_completeness auto
termination
  by (relation "measure length") (auto dest!: decode_one_progress)

declare decode_from.simps [simp del]

definition decode_program :: "u8 list \<Rightarrow> decode_error + insn list" where
  "decode_program bytes = decode_from bytes"


section \<open>Encoding\<close>

datatype encode_error = UnknownInstruction nat | InvalidJump nat | InvalidEnd nat

fun alu_nibble :: "alu_op \<Rightarrow> u8" where
  "alu_nibble Add = 0x0" | "alu_nibble Sub = 0x1" | "alu_nibble Mul = 0x2"
| "alu_nibble Div = 0x3" | "alu_nibble Or = 0x4" | "alu_nibble And = 0x5"
| "alu_nibble Lsh = 0x6" | "alu_nibble Rsh = 0x7" | "alu_nibble Neg = 0x8"
| "alu_nibble Mod = 0x9" | "alu_nibble Xor = 0xa" | "alu_nibble Mov = 0xb"
| "alu_nibble Arsh = 0xc" | "alu_nibble (End e) = 0xd"

fun jump_nibble :: "jump_op \<Rightarrow> u8" where
  "jump_nibble Always = 0x0" | "jump_nibble JEq = 0x1" | "jump_nibble Gt = 0x2"
| "jump_nibble Ge = 0x3" | "jump_nibble JSet = 0x4" | "jump_nibble Ne = 0x5"
| "jump_nibble Sgt = 0x6" | "jump_nibble Sge = 0x7" | "jump_nibble Lt = 0xa"
| "jump_nibble Le = 0xb" | "jump_nibble Slt = 0xc" | "jump_nibble Sle = 0xd"
| "jump_nibble JCall = 0x8" | "jump_nibble JExit = 0x9"

fun size_bits :: "mem_size \<Rightarrow> u8" where
  "size_bits SzW = 0x0" | "size_bits SzH = 0x1" | "size_bits SzB = 0x2" | "size_bits SzDw = 0x3"

definition regs_byte :: "reg \<Rightarrow> reg \<Rightarrow> u8" where
  "regs_byte dst src = push_bit 4 (reg_num src) OR reg_num dst"

fun encode_one :: "insn \<Rightarrow> nat \<Rightarrow> encode_error + raw_insn list" where
  "encode_one (Alu width op dst src) pc =
     (let cl = (if is_64 width then 0x07 else 0x04) in
      case op of
        End e \<Rightarrow>
          (case src of
             RegOp r \<Rightarrow> Inl (InvalidEnd pc)
           | ImmOp k \<Rightarrow>
               let be = (if e = BE then 0x08 else 0x00)
               in Inr [\<lparr>r_opcode = cl OR 0xd0 OR be, r_regs = regs_byte dst (Reg 0),
                        r_offset = 0, r_imm = k\<rparr>])
      | _ \<Rightarrow>
          let (src_bit, rg, k) = (case src of
                RegOp r \<Rightarrow> (0x08, regs_byte dst r, 0)
              | ImmOp k \<Rightarrow> (0x00, regs_byte dst (Reg 0), k))
          in Inr [\<lparr>r_opcode = cl OR push_bit 4 (alu_nibble op) OR src_bit, r_regs = rg,
                   r_offset = 0, r_imm = k\<rparr>])"
| "encode_one (Load sz dst base off) pc =
     Inr [\<lparr>r_opcode = 0x60 OR push_bit 3 (size_bits sz) OR 0x01, r_regs = regs_byte dst base,
           r_offset = off, r_imm = 0\<rparr>]"
| "encode_one (Store sz base off src) pc =
     (let (cl, rg, k) = (case src of
            RegOp r \<Rightarrow> (0x03, regs_byte base r, 0)
          | ImmOp k \<Rightarrow> (0x02, regs_byte base (Reg 0), k))
      in Inr [\<lparr>r_opcode = 0x60 OR push_bit 3 (size_bits sz) OR cl, r_regs = rg,
               r_offset = off, r_imm = k\<rparr>])"
| "encode_one (LoadImm64 dst k) pc =
     Inr [\<lparr>r_opcode = LD_IMM_DW, r_regs = regs_byte dst (Reg 0), r_offset = 0, r_imm = ucast k\<rparr>,
          \<lparr>r_opcode = 0x00, r_regs = 0x00, r_offset = 0, r_imm = ucast (drop_bit 32 k)\<rparr>]"
| "encode_one (Jump width op dst src off) pc =
     (if op = Always then Inr [\<lparr>r_opcode = 0x05, r_regs = 0x00, r_offset = off, r_imm = 0\<rparr>]
      else
        let cl = (if is_64 width then 0x05 else 0x06);
            (src_bit, rg, k) = (case src of
                RegOp r \<Rightarrow> (0x08 :: u8, regs_byte dst r, 0)
              | ImmOp k \<Rightarrow> (0x00, regs_byte dst (Reg 0), k))
        in if (op = JCall \<or> op = JExit) \<and> src_bit = 0x00 then Inl (InvalidJump pc)
           else Inr [\<lparr>r_opcode = cl OR push_bit 4 (jump_nibble op) OR src_bit, r_regs = rg,
                      r_offset = off, r_imm = k\<rparr>])"
| "encode_one (Call func) pc = Inr [\<lparr>r_opcode = JMP_CALL, r_regs = 0x00, r_offset = 0, r_imm = func\<rparr>]"
| "encode_one Exit pc = Inr [\<lparr>r_opcode = JMP_EXIT, r_regs = 0, r_offset = 0, r_imm = 0\<rparr>]"
| "encode_one (Unknown raw) pc = Inl (UnknownInstruction pc)"

fun encode_from :: "nat \<Rightarrow> insn list \<Rightarrow> encode_error + raw_insn list" where
  "encode_from pc [] = Inr []"
| "encode_from pc (insn # insns) =
     bind_res (encode_one insn pc) (\<lambda>raws.
     bind_res (encode_from (Suc pc) insns) (\<lambda>rest. Inr (raws @ rest)))"

definition encode_program :: "insn list \<Rightarrow> encode_error + u8 list" where
  "encode_program insns =
     bind_res (encode_from 0 insns) (\<lambda>raws. Inr (concat (map to_bytes raws)))"


section \<open>Canonical form\<close>

text \<open>
  What the encoder keeps of an instruction: the operands of an unconditional jump, which no
  later stage reads, are dropped.
\<close>

fun canon :: "insn \<Rightarrow> insn" where
  "canon (Jump width op dst src off) =
     (if op = Always then Jump B64 Always (Reg 0) (ImmOp 0) off else Jump width op dst src off)"
| "canon insn = insn"

text \<open>The instructions the encoder accepts.\<close>

fun is_imm_operand :: "operand \<Rightarrow> bool" where
  "is_imm_operand (ImmOp k) = True"
| "is_imm_operand (RegOp r) = False"

fun encodable :: "insn \<Rightarrow> bool" where
  "encodable (Alu width op dst src) = (case op of End _ \<Rightarrow> is_imm_operand src | _ \<Rightarrow> True)"
| "encodable (Jump width op dst src off) =
     (op \<noteq> JCall \<and> op \<noteq> JExit \<or> \<not> is_imm_operand src)"
| "encodable (Unknown raw) = False"
| "encodable insn = True"

definition slot_count :: "insn \<Rightarrow> nat" where
  "slot_count insn = (case insn of LoadImm64 _ _ \<Rightarrow> 2 | _ \<Rightarrow> 1)"


section \<open>Round trips\<close>

lemma nibble_cases: "(d :: u8) \<le> 10 \<Longrightarrow> d \<in> {0, 1, 2, 3, 4, 5, 6, 7, 8, 9, 10}"
proof -
  assume "d \<le> 10"
  then have "unat d \<le> 10" by (simp add: word_le_nat_alt)
  then have "unat d \<in> {0, 1, 2, 3, 4, 5, 6, 7, 8, 9, 10}"
    by (simp only: insert_iff empty_iff) arith
  then have "word_of_nat (unat d) \<in> (word_of_nat ` {0, 1, 2, 3, 4, 5, 6, 7, 8, 9, 10} :: u8 set)"
    by (rule imageI)
  then show ?thesis by simp
qed

lemma nibble_mask: "(d :: u8) \<le> 10 \<Longrightarrow> d AND 0x0f = d"
  by (drule nibble_cases) auto

lemma nibble_drop: "(d :: u8) \<le> 10 \<Longrightarrow> drop_bit 4 d = 0"
  by (drule nibble_cases) auto

lemma push_mask: "push_bit 4 (s :: u8) AND 0x0f = 0"
proof -
  have "(0x0f :: u8) = mask 4" by (simp add: mask_eq_exp_minus_1)
  then have "push_bit 4 s AND 0x0f = take_bit 4 (push_bit 4 s)" by (simp only: take_bit_eq_mask)
  also have "\<dots> = 0" by (simp only: take_bit_push_bit) simp
  finally show ?thesis .
qed

lemma regs_byte_dst [simp]: "wf_reg dst \<Longrightarrow> regs_byte dst src AND 0x0f = reg_num dst"
  by (simp add: regs_byte_def wf_reg_def bit.conj_disj_distrib2 push_mask nibble_mask)

lemma drop_push_nibble: "(s :: u8) \<le> 10 \<Longrightarrow> drop_bit 4 (push_bit 4 s) = s"
  by (drule nibble_cases) auto

lemma regs_byte_src [simp]:
  "wf_reg dst \<Longrightarrow> wf_reg src \<Longrightarrow> drop_bit 4 (regs_byte dst src) AND 0x0f = reg_num src"
  by (simp add: regs_byte_def wf_reg_def drop_bit_or drop_push_nibble nibble_drop nibble_mask)

lemmas decode_defs = decode_one_def decode_operand_def raw_dst_def raw_src_def klass_def
  is_imm_source_def op_nibble_def opcode_defs

lemma wf_reg_0 [simp]: "wf_reg (Reg 0)"
  by (simp add: wf_reg_def)

lemma decode_encode_end:
  assumes "wf_reg dst" "encode_one (Alu w (End e) dst src) pc = Inr raws"
  shows "length raws = 1 \<and> decode_one (hd raws) rest = Inr (Alu w (End e) dst src, 8)"
  using assms
  by (cases src; cases e; cases w)
    (clarsimp simp: decode_defs is_64_def alu_from_opcode_def is_end_def Let_def)+

definition plain_opcode :: "u8 \<Rightarrow> bool" where
  "plain_opcode oc \<longleftrightarrow> oc \<noteq> JMP_EXIT \<and> oc \<noteq> JMP_CALL \<and> oc \<noteq> LD_IMM_DW"

definition alu_opcode :: "width \<Rightarrow> alu_op \<Rightarrow> u8 \<Rightarrow> u8" where
  "alu_opcode w op src_bit =
     (if is_64 w then 0x07 else 0x04) OR push_bit 4 (alu_nibble op) OR src_bit"

definition jump_opcode :: "width \<Rightarrow> jump_op \<Rightarrow> u8 \<Rightarrow> u8" where
  "jump_opcode w op src_bit =
     (if is_64 w then 0x05 else 0x06) OR push_bit 4 (jump_nibble op) OR src_bit"

lemma alu_opcode_klass:
  "klass (alu_opcode w op 0) = (if is_64 w then class_ALU64 else class_ALU)"
  "klass (alu_opcode w op 8) = (if is_64 w then class_ALU64 else class_ALU)"
  by (cases op; simp add: klass_def alu_opcode_def opcode_defs)+

lemma alu_opcode_op:
  "\<not> is_end op \<Longrightarrow> alu_from_opcode (alu_opcode w op 0) = Inr op"
  "\<not> is_end op \<Longrightarrow> alu_from_opcode (alu_opcode w op 8) = Inr op"
  by (cases op; simp add: is_end_def alu_from_opcode_def op_nibble_def alu_opcode_def)+

lemma alu_opcode_src:
  "is_imm_source (alu_opcode w op 0)" "\<not> is_imm_source (alu_opcode w op 8)"
  by (cases op; simp add: is_imm_source_def alu_opcode_def)+

lemma alu_opcode_plain:
  "plain_opcode (alu_opcode w op 0)" "plain_opcode (alu_opcode w op 8)"
  by (cases op; simp add: plain_opcode_def alu_opcode_def opcode_defs)+

lemma jump_opcode_klass:
  "klass (jump_opcode w op 0) = (if is_64 w then class_JMP else class_JMP32)"
  "klass (jump_opcode w op 8) = (if is_64 w then class_JMP else class_JMP32)"
  by (cases op; simp add: klass_def jump_opcode_def opcode_defs)+

lemma jump_opcode_op:
  "jump_from_opcode (jump_opcode w op 0) = Inr op"
  "jump_from_opcode (jump_opcode w op 8) = Inr op"
  by (cases op; simp add: jump_from_opcode_def op_nibble_def jump_opcode_def)+

lemma jump_opcode_src:
  "is_imm_source (jump_opcode w op 0)" "\<not> is_imm_source (jump_opcode w op 8)"
  by (cases op; simp add: is_imm_source_def jump_opcode_def)+

lemma jump_opcode_plain:
  "op \<noteq> JCall \<Longrightarrow> op \<noteq> JExit \<Longrightarrow> plain_opcode (jump_opcode w op 0)"
  "plain_opcode (jump_opcode w op 8)"
  by (cases op; simp add: plain_opcode_def jump_opcode_def opcode_defs)+

lemma decode_one_alu:
  assumes "plain_opcode (r_opcode raw)" "klass (r_opcode raw) = (if is_64 w then class_ALU64 else class_ALU)"
    and "alu_from_opcode (r_opcode raw) = Inr op" "\<not> is_end op"
    and "decode_operand raw = Inr src" "reg_new (raw_dst raw) = Inr dst"
  shows "decode_one raw rest = Inr (Alu w op dst src, 8)"
  using assms
  by (cases w) (auto simp: decode_one_def plain_opcode_def is_64_def class_ALU64_def class_ALU_def)

lemma decode_one_jump:
  assumes "plain_opcode (r_opcode raw)" "klass (r_opcode raw) = (if is_64 w then class_JMP else class_JMP32)"
    and "jump_from_opcode (r_opcode raw) = Inr op"
    and "decode_operand raw = Inr src" "reg_new (raw_dst raw) = Inr dst"
  shows "decode_one raw rest = Inr (Jump w op dst src (r_offset raw), 8)"
  using assms
  by (cases w) (auto simp: decode_one_def plain_opcode_def is_64_def opcode_defs)

lemma encode_alu:
  assumes "\<not> is_end op"
  shows "encode_one (Alu w op dst src) pc = Inr [case src of
      RegOp r \<Rightarrow> \<lparr>r_opcode = alu_opcode w op 8, r_regs = regs_byte dst r, r_offset = 0, r_imm = 0\<rparr>
    | ImmOp k \<Rightarrow> \<lparr>r_opcode = alu_opcode w op 0, r_regs = regs_byte dst (Reg 0), r_offset = 0, r_imm = k\<rparr>]"
  using assms by (cases op; cases src) (simp_all add: is_end_def alu_opcode_def)

lemma encode_jump:
  assumes "op \<noteq> Always" "\<not> ((op = JCall \<or> op = JExit) \<and> is_imm_operand src)"
  shows "encode_one (Jump w op dst src off) pc = Inr [case src of
      RegOp r \<Rightarrow> \<lparr>r_opcode = jump_opcode w op 8, r_regs = regs_byte dst r, r_offset = off, r_imm = 0\<rparr>
    | ImmOp k \<Rightarrow> \<lparr>r_opcode = jump_opcode w op 0, r_regs = regs_byte dst (Reg 0), r_offset = off, r_imm = k\<rparr>]"
  using assms by (cases src) (auto simp: jump_opcode_def Let_def)

lemma encode_jump_refused:
  "(op = JCall \<or> op = JExit) \<and> is_imm_operand src \<Longrightarrow>
     encode_one (Jump w op dst src off) pc = Inl (InvalidJump pc)"
  by (cases src) (auto simp: Let_def)

declare encode_one.simps [simp del]

lemma decode_encode_alu:
  assumes "wf_reg dst" "wf_operand src" "encode_one (Alu w op dst src) pc = Inr raws"
    and "\<not> is_end op"
  shows "length raws = 1 \<and> decode_one (hd raws) rest = Inr (Alu w op dst src, 8)"
proof -
  note opc = alu_opcode_klass alu_opcode_op alu_opcode_src alu_opcode_plain
  show ?thesis
  proof (cases src)
    case (RegOp r)
    with assms have "raws = [\<lparr>r_opcode = alu_opcode w op 8, r_regs = regs_byte dst r,
        r_offset = 0, r_imm = 0\<rparr>]"
      by (simp add: encode_alu)
    moreover have "decode_one (hd raws) rest = Inr (Alu w op dst src, 8)"
      by (rule decode_one_alu)
        (use calculation assms RegOp opc in \<open>simp_all add: decode_operand_def raw_src_def raw_dst_def\<close>)
    ultimately show ?thesis by simp
  next
    case (ImmOp k)
    with assms have "raws = [\<lparr>r_opcode = alu_opcode w op 0, r_regs = regs_byte dst (Reg 0),
        r_offset = 0, r_imm = k\<rparr>]"
      by (simp add: encode_alu)
    moreover have "decode_one (hd raws) rest = Inr (Alu w op dst src, 8)"
      by (rule decode_one_alu)
        (use calculation assms ImmOp opc in \<open>simp_all add: decode_operand_def raw_dst_def\<close>)
    ultimately show ?thesis by simp
  qed
qed

lemma decode_encode_jump:
  assumes "wf_reg dst" "wf_operand src" "encode_one (Jump w op dst src off) pc = Inr raws"
  shows "length raws = 1 \<and> decode_one (hd raws) rest = Inr (canon (Jump w op dst src off), 8)"
proof (cases "op = Always")
  case True
  then show ?thesis using assms(3)
    by (auto simp: encode_one.simps decode_defs jump_from_opcode_def Let_def)
next
  case False
  then have ok: "\<not> ((op = JCall \<or> op = JExit) \<and> is_imm_operand src)"
    using assms(3) encode_jump_refused by fastforce
  note opc = jump_opcode_klass jump_opcode_op jump_opcode_src jump_opcode_plain
  show ?thesis
  proof (cases src)
    case (RegOp r)
    with assms have "raws = [\<lparr>r_opcode = jump_opcode w op 8, r_regs = regs_byte dst r,
        r_offset = off, r_imm = 0\<rparr>]"
      using ok by (auto simp: encode_jump [OF False])
    moreover have "decode_one (hd raws) rest
        = Inr (Jump w op dst src (r_offset (hd raws)), 8)"
      by (rule decode_one_jump)
        (use calculation assms RegOp opc in \<open>simp_all add: decode_operand_def raw_src_def raw_dst_def\<close>)
    ultimately show ?thesis using False by simp
  next
    case (ImmOp k)
    with assms have "raws = [\<lparr>r_opcode = jump_opcode w op 0, r_regs = regs_byte dst (Reg 0),
        r_offset = off, r_imm = k\<rparr>]"
      using ok by (auto simp: encode_jump [OF False])
    moreover have "decode_one (hd raws) rest
        = Inr (Jump w op dst src (r_offset (hd raws)), 8)"
      by (rule decode_one_jump)
        (use calculation assms ImmOp ok opc in \<open>simp_all add: decode_operand_def raw_dst_def\<close>)
    ultimately show ?thesis using False by simp
  qed
qed

lemma decode_encode_load:
  assumes "wf_reg dst" "wf_reg base" "encode_one (Load sz dst base off) pc = Inr raws"
  shows "length raws = 1 \<and> decode_one (hd raws) rest = Inr (Load sz dst base off, 8)"
  using assms
  by (cases sz) (clarsimp simp: encode_one.simps decode_defs size_from_opcode_def Let_def)+

lemma decode_encode_store:
  assumes "wf_reg base" "wf_operand src" "encode_one (Store sz base off src) pc = Inr raws"
  shows "length raws = 1 \<and> decode_one (hd raws) rest = Inr (Store sz base off src, 8)"
  using assms
  by (cases src; cases sz) (clarsimp simp: encode_one.simps decode_defs size_from_opcode_def Let_def)+

lemma decode_encode_misc:
  "encode_one (Call f) pc = Inr raws \<Longrightarrow>
     length raws = 1 \<and> decode_one (hd raws) rest = Inr (Call f, 8)"
  "encode_one Exit pc = Inr raws \<Longrightarrow>
     length raws = 1 \<and> decode_one (hd raws) rest = Inr (Exit, 8)"
  by (clarsimp simp: encode_one.simps decode_defs)+

lemma decode_encode_single:
  assumes "wf_insn insn" "encode_one insn pc = Inr raws" "\<nexists>dst k. insn = LoadImm64 dst k"
  shows "length raws = 1 \<and> decode_one (hd raws) rest = Inr (canon insn, 8)"
proof (cases insn)
  case (Alu w op dst src)
  with assms show ?thesis
    by (cases "is_end op")
      (auto simp: is_end_def decode_encode_end decode_encode_alu split: alu_op.splits)
next
  case (Unknown raw)
  with assms show ?thesis by (simp add: encode_one.simps)
qed (use assms decode_encode_jump decode_encode_load decode_encode_store decode_encode_misc in auto)

lemma take8_to_bytes: "take 8 (to_bytes raw @ bs) = to_bytes raw"
  by simp

lemma decode_from_single:
  assumes "\<And>rest. decode_one raw rest = Inr (insn, 8)"
  shows "decode_from (to_bytes raw @ bs)
    = bind_res (decode_from bs) (\<lambda>insns. Inr (insn # insns))"
proof -
  have "to_bytes raw @ bs \<noteq> []" by (metis append_is_Nil_conv length_0_conv length_to_bytes zero_neq_numeral)
  then show ?thesis
    by (simp add: decode_from.simps [of "to_bytes raw @ bs"] assms)
qed

lemma split_imm64: "(ucast (ucast k :: u32) :: i64) OR push_bit 32 (ucast (ucast (drop_bit 32 k) :: u32)) = k"
  by (rule bit_eqI) (auto simp: bit_simps)

lemma decode_from_wide:
  assumes "wf_reg dst" "encode_one (LoadImm64 dst k) pc = Inr raws"
  shows "decode_from (concat (map to_bytes raws) @ bs)
    = bind_res (decode_from bs) (\<lambda>insns. Inr (LoadImm64 dst k # insns))"
proof -
  let ?lo = "\<lparr>r_opcode = LD_IMM_DW, r_regs = regs_byte dst (Reg 0), r_offset = 0, r_imm = ucast k\<rparr>"
  let ?hi = "\<lparr>r_opcode = 0x00, r_regs = 0x00, r_offset = 0, r_imm = ucast (drop_bit 32 k)\<rparr>"
  let ?b = "to_bytes ?lo @ to_bytes ?hi @ bs"
  have z: "wf_reg (Reg 0)" by (simp add: wf_reg_def)
  have ne: "?b \<noteq> []" by (metis append_is_Nil_conv length_0_conv length_to_bytes zero_neq_numeral)
  have one: "decode_one ?lo ?b = Inr (LoadImm64 dst k, 16)"
    using assms(1) z by (simp add: decode_defs split_imm64)
  have drop: "drop 16 ?b = bs"
    by (metis (no_types, lifting) append.assoc append_eq_conv_conj length_append
        length_to_bytes numeral_Bit0)
  from assms(2) have b: "concat (map to_bytes raws) @ bs = ?b" by (auto simp: encode_one.simps)
  show ?thesis
    unfolding b using ne one drop by (simp add: decode_from.simps [of ?b] del: append_assoc)
qed

lemma decode_encode_from:
  assumes "list_all wf_insn insns" "encode_from pc insns = Inr raws"
  shows "decode_from (concat (map to_bytes raws)) = Inr (map canon insns)"
  using assms
proof (induction insns arbitrary: pc raws)
  case Nil
  then show ?case by (simp add: decode_from.simps)
next
  case (Cons insn insns)
  from Cons.prems obtain r rest where r: "encode_one insn pc = Inr r"
    and rest: "encode_from (Suc pc) insns = Inr rest" and raws: "raws = r @ rest"
    by auto
  have IH: "decode_from (concat (map to_bytes rest)) = Inr (map canon insns)"
    using Cons.IH Cons.prems(1) rest by simp
  have "decode_from (concat (map to_bytes r) @ concat (map to_bytes rest))
      = bind_res (decode_from (concat (map to_bytes rest))) (\<lambda>is. Inr (canon insn # is))"
  proof (cases "\<exists>dst k. insn = LoadImm64 dst k")
    case True
    then obtain dst k where insn: "insn = LoadImm64 dst k" by blast
    with decode_from_wide [OF _ r [unfolded insn]] Cons.prems(1) show ?thesis by simp
  next
    case False
    then have "length r = 1 \<and> decode_one (hd r) bs = Inr (canon insn, 8)" for bs
      using decode_encode_single [OF _ r] Cons.prems(1) by auto
    then obtain raw where "r = [raw]" "\<And>bs. decode_one raw bs = Inr (canon insn, 8)"
      by (metis One_nat_def length_0_conv length_Suc_conv list.sel(1))
    then show ?thesis by (simp add: decode_from_single)
  qed
  with IH raws show ?case by simp
qed

lemma encode_one_total: "encodable insn \<Longrightarrow> \<exists>raws. encode_one insn pc = Inr raws"
proof (cases insn)
  case (Alu w op dst src)
  then show "encodable insn \<Longrightarrow> ?thesis"
    by (cases op; cases src) (auto simp: Let_def encode_one.simps)
next
  case (Store s b off src)
  then show "encodable insn \<Longrightarrow> ?thesis" by (cases src) (auto simp: encode_one.simps)
next
  case (Jump w op dst src off)
  then show "encodable insn \<Longrightarrow> ?thesis"
    by (cases src; cases op) (auto simp: Let_def encode_one.simps)
qed (auto simp: encode_one.simps)

lemma encode_from_total: "list_all encodable insns \<Longrightarrow> \<exists>raws. encode_from pc insns = Inr raws"
proof (induction insns arbitrary: pc)
  case Nil
  then show ?case by simp
next
  case (Cons insn insns)
  then show ?case using encode_one_total [of insn pc] by fastforce
qed

lemma decode_operand_wf: "decode_operand raw = Inr src \<Longrightarrow> wf_operand src"
  by (auto simp: decode_operand_def split: if_splits)

lemma decode_one_wf: "decode_one raw rest = Inr (insn, n) \<Longrightarrow> wf_insn insn"
  by (auto simp: decode_one_def Let_def dest: decode_operand_wf split: if_splits)

lemma decode_one_length:
  "decode_one raw rest = Inr (insn, n) \<Longrightarrow> 8 \<le> length rest \<Longrightarrow>
     n = 8 * slot_count insn \<and> n \<le> length rest"
  by (auto simp: decode_one_def Let_def slot_count_def split: if_splits)

lemma decode_from_image:
  "decode_from rest = Inr insns \<Longrightarrow>
     list_all wf_insn insns \<and> length rest = 8 * sum_list (map slot_count insns)"
proof (induction rest arbitrary: insns rule: decode_from.induct)
  case (1 rest)
  show ?case
  proof (cases "rest = []")
    case True
    with "1.prems" show ?thesis by (simp add: decode_from.simps)
  next
    case False
    with "1.prems" obtain insn n tail where
        long: "\<not> length rest < 8"
      and one: "decode_one (from_bytes (take 8 rest)) rest = Inr (insn, n)"
      and tail: "decode_from (drop n rest) = Inr tail" and insns: "insns = insn # tail"
      by (auto simp: decode_from.simps [of rest] split: if_splits)
    from "1.IH" [OF False long one refl tail]
    have "list_all wf_insn tail" "length (drop n rest) = 8 * sum_list (map slot_count tail)"
      by simp_all
    moreover have "n = 8 * slot_count insn" "n \<le> length rest"
      using decode_one_length [OF one] long by simp_all
    ultimately show ?thesis using decode_one_wf [OF one] insns by simp
  qed
qed

lemma decode_operand_not_truncated: "decode_operand raw \<noteq> Inl (Truncated m)"
  by (simp add: decode_operand_def bind_res_eq_Inl reg_new_def)

lemma alu_from_opcode_not_truncated: "alu_from_opcode oc \<noteq> Inl (Truncated m)"
  by (simp add: alu_from_opcode_def Let_def)

lemma jump_from_opcode_not_truncated: "jump_from_opcode oc \<noteq> Inl (Truncated m)"
  by (simp add: jump_from_opcode_def Let_def)

lemma size_from_opcode_not_truncated: "size_from_opcode oc \<noteq> Inl (Truncated m)"
  by (simp add: size_from_opcode_def Let_def)

lemma reg_new_not_truncated: "reg_new n \<noteq> Inl (Truncated m)"
  by (simp add: reg_new_def)

lemmas not_truncated = decode_operand_not_truncated alu_from_opcode_not_truncated
  jump_from_opcode_not_truncated size_from_opcode_not_truncated reg_new_not_truncated

lemma decode_one_not_truncated: "decode_one raw rest \<noteq> Inl (Truncated m)"
  by (simp add: decode_one_def Let_def bind_res_eq_Inl not_truncated)

lemma minus_mod_16: "16 \<le> n \<Longrightarrow> (n - 16) mod 8 = n mod (8 :: nat)"
  using le_mod_geq [of 8 n] le_mod_geq [of 8 "n - 8"] by simp

lemma decode_from_truncated:
  "decode_from rest = Inl (Truncated n) \<Longrightarrow> n = length rest mod 8 \<and> 0 < n"
proof (induction rest rule: decode_from.induct)
  case (1 rest)
  show ?case
  proof (cases "rest = [] \<or> length rest < 8")
    case True
    with "1.prems" show ?thesis by (auto simp: decode_from.simps [of rest] split: if_splits)
  next
    case False
    from False "1.prems" obtain insn k where
        one: "decode_one (from_bytes (take 8 rest)) rest = Inr (insn, k)"
      and tail: "decode_from (drop k rest) = Inl (Truncated n)"
      by (auto simp: decode_from.simps [of rest] bind_res_eq_Inl
          decode_one_not_truncated split: if_splits)
    have k: "k = 8 \<or> k = 16" "k \<le> length rest"
      using decode_one_progress [OF one] decode_one_length [OF one] False by auto
    then have "length (drop k rest) mod 8 = length rest mod 8"
      using le_mod_geq [of 8 "length rest"] minus_mod_16 [of "length rest"] by auto
    with "1.IH" [OF _ _ one refl tail] False show ?thesis by auto
  qed
qed

lemma encode_one_error:
  "encode_one insn pc = Inl e \<Longrightarrow>
     \<not> encodable insn \<and> e \<in> {UnknownInstruction pc, InvalidJump pc, InvalidEnd pc}"
proof (cases insn)
  case (Alu w op dst src)
  then show "encode_one insn pc = Inl e \<Longrightarrow> ?thesis"
    by (cases op; cases src) (auto simp: encode_one.simps)
next
  case (Jump w op dst src off)
  then show "encode_one insn pc = Inl e \<Longrightarrow> ?thesis"
    by (cases src; cases "op = Always"; cases "op = JCall"; cases "op = JExit")
      (auto simp: encode_one.simps Let_def)
qed (auto simp: encode_one.simps split: operand.splits)

lemma encode_one_ok: "encode_one insn pc = Inr raws \<Longrightarrow> encodable insn"
proof (cases insn)
  case (Alu w op dst src)
  then show "encode_one insn pc = Inr raws \<Longrightarrow> ?thesis"
    by (cases op; cases src) (auto simp: encode_one.simps)
next
  case (Jump w op dst src off)
  then show "encode_one insn pc = Inr raws \<Longrightarrow> ?thesis"
    by (cases src; cases "op = Always"; cases "op = JCall"; cases "op = JExit")
      (auto simp: encode_one.simps Let_def)
qed (auto simp: encode_one.simps)

lemma encode_from_error:
  "encode_from pc insns = Inl e \<Longrightarrow>
     \<exists>i < length insns. \<not> encodable (insns ! i) \<and> list_all encodable (take i insns)
       \<and> e \<in> {UnknownInstruction (pc + i), InvalidJump (pc + i), InvalidEnd (pc + i)}"
proof (induction insns arbitrary: pc)
  case Nil
  then show ?case by simp
next
  case (Cons insn insns)
  show ?case
  proof (cases "encode_one insn pc")
    case (Inl e')
    with Cons.prems encode_one_error [OF Inl] show ?thesis
      by (intro exI [of _ 0]) auto
  next
    case (Inr raws)
    with Cons.prems have "encode_from (Suc pc) insns = Inl e"
      by (auto simp: bind_res_eq_Inl)
    from Cons.IH [OF this] obtain i where "i < length insns" "\<not> encodable (insns ! i)"
      "list_all encodable (take i insns)"
      "e \<in> {UnknownInstruction (pc + Suc i), InvalidJump (pc + Suc i), InvalidEnd (pc + Suc i)}"
      by auto
    with encode_one_ok [OF Inr] show ?thesis by (intro exI [of _ "Suc i"]) auto
  qed
qed

lemma encode_from_ok: "encode_from pc insns = Inr raws \<Longrightarrow> list_all encodable insns"
  by (induction insns arbitrary: pc raws) (auto dest: encode_one_ok)


section \<open>Properties\<close>

text \<open>
  C13: every well-formed program of encodable instructions encodes, and decoding the bytes
  gives the program back up to the operands of unconditional jumps, which the encoder drops.
\<close>

theorem encode_decode_roundtrip:
  assumes "list_all wf_insn insns" "list_all encodable insns"
  shows "\<exists>bytes. encode_program insns = Inr bytes
    \<and> decode_program bytes = Inr (map canon insns)"
  using encode_from_total [OF assms(2), of 0] decode_encode_from [OF assms(1)]
  by (fastforce simp: encode_program_def decode_program_def)

definition sample_program :: "insn list" where
  "sample_program = [LoadImm64 (Reg 2) 0x5566778811223344, Alu B64 Add (Reg 0) (RegOp (Reg 2)),
     Jump B32 Sgt (Reg 0) (ImmOp 7) 1, Store SzW (Reg 10) (- 8) (ImmOp 1), Call 5, Exit]"

theorem encode_decode_roundtrip_witness:
  "\<exists>bytes. encode_program sample_program = Inr bytes
    \<and> decode_program bytes = Inr (map canon sample_program)"
  by (rule encode_decode_roundtrip) (simp_all add: sample_program_def wf_reg_def)

text \<open>
  C35: the decoder only produces instructions with registers \<open>r0\<close> to \<open>r10\<close>, and it accepts
  only whole slots, two for a wide load and one for every other instruction.
\<close>

theorem decode_program_image:
  "decode_program bytes = Inr insns \<Longrightarrow>
     list_all wf_insn insns \<and> length bytes = 8 * sum_list (map slot_count insns)"
  unfolding decode_program_def by (rule decode_from_image)

theorem decode_program_image_witness:
  "decode_program [0xb7, 0x00, 0, 0, 1, 0, 0, 0, 0x95, 0, 0, 0, 0, 0, 0, 0]
     = Inr [Alu B64 Mov (Reg 0) (ImmOp 1), Exit]
   \<and> list_all wf_insn [Alu B64 Mov (Reg 0) (ImmOp 1), Exit]"
proof -
  have d: "decode_program [0xb7, 0x00, 0, 0, 1, 0, 0, 0, 0x95, 0, 0, 0, 0, 0, 0, 0]
     = Inr [Alu B64 Mov (Reg 0) (ImmOp 1), Exit]"
    by (simp add: decode_program_def decode_from.simps from_bytes_def decode_defs
        alu_from_opcode_def is_end_def reg_new_def Let_def)
  from d decode_program_image [OF d] show ?thesis by blast
qed

text \<open>
  a truncation error names exactly the bytes left over after the last whole slot, so it
  is only reported for an input that is not a whole number of slots.
\<close>

theorem decode_program_truncated:
  "decode_program bytes = Inl (Truncated n) \<Longrightarrow> n = length bytes mod 8 \<and> 0 < n"
  unfolding decode_program_def by (rule decode_from_truncated)

theorem decode_program_truncated_witness:
  "decode_program [0x95, 0, 0, 0, 0, 0, 0, 0, 0xb7, 0, 0] = Inl (Truncated 3)
   \<and> (3 :: nat) = length [0x95, 0, 0, 0, 0, 0, 0, 0, 0xb7, 0, 0 :: u8] mod 8"
proof -
  have d: "decode_program [0x95, 0, 0, 0, 0, 0, 0, 0, 0xb7, 0, 0] = Inl (Truncated 3)"
    by (simp add: decode_program_def decode_from.simps from_bytes_def decode_defs)
  from d decode_program_truncated [OF d] show ?thesis by blast
qed

text \<open>
  C34: the encoder refuses a program exactly when some instruction is outside its image, and
  the error carries the index of the first such instruction.
\<close>

theorem encode_program_refusal:
  "case encode_program insns of
     Inr bytes \<Rightarrow> list_all encodable insns
   | Inl e \<Rightarrow> (\<exists>pc < length insns. \<not> encodable (insns ! pc) \<and> list_all encodable (take pc insns)
        \<and> e \<in> {UnknownInstruction pc, InvalidJump pc, InvalidEnd pc})"
  using encode_from_error [of 0 insns] encode_from_ok [of 0 insns]
  by (cases "encode_from 0 insns") (simp_all add: encode_program_def)

end
