(* ===== verification/Cfg.thy ===== *)
theory Cfg
  imports Isa
begin

text \<open>
  The control-flow graph of \<open>crates/ebpf-cfg/src/lib.rs\<close>: slot numbering of wide loads
  (\<open>slot_maps\<close>), jump resolution (\<open>resolve_target\<close>, \<open>jump_targets\<close>), leader discovery
  (\<open>collect_leaders\<close>, \<open>find_leaders\<close>) and \<open>build_cfg\<close>.  A petgraph graph is the list of its
  nodes in \<open>add_node\<close> order and the list of its edges in \<open>add_edge\<close> order; the depth-first
  post-order of petgraph is an argument of \<open>build_cfg\<close>.  Decoded indices (\<open>Pc\<close>) and slot
  numbers (\<open>Slot\<close>, \<open>u32\<close>) are naturals: a program has fewer than \<open>2 ^ 32\<close> slots.  The
  \<open>unreachable!\<close> arm of the edge wiring is \<open>None\<close>.
\<close>


section \<open>Data\<close>

record basic_block =
  bb_start :: nat
  bb_end :: nat

datatype edge_kind = Fallthrough | BranchTrue | BranchFalse | Unconditional

type_synonym edge = "nat \<times> nat \<times> edge_kind"

record graph =
  g_nodes :: "basic_block list"
  g_edges :: "edge list"

record cfg =
  c_graph :: graph
  c_entry :: nat
  c_block_of_pc :: "nat list"
  c_slot_of :: "nat list"
  c_rpo :: "nat list"

datatype cfg_error =
    EmptyProgram
  | JumpOutOfBounds nat int
  | JumpIntoWide nat nat

definition block_len :: "basic_block \<Rightarrow> nat" where
  "block_len b = bb_end b - bb_start b"

definition block_is_empty :: "basic_block \<Rightarrow> bool" where
  "block_is_empty b \<longleftrightarrow> bb_end b \<le> bb_start b"

definition block_at :: "cfg \<Rightarrow> nat \<Rightarrow> nat" where
  "block_at cfg pc = c_block_of_pc cfg ! pc"

definition slot_at :: "cfg \<Rightarrow> nat \<Rightarrow> nat" where
  "slot_at cfg pc = c_slot_of cfg ! pc"


section \<open>Slots\<close>

definition slot_width :: "insn \<Rightarrow> nat" where
  "slot_width insn = (case insn of LoadImm64 _ _ \<Rightarrow> 2 | _ \<Rightarrow> 1)"

text \<open>The loop of \<open>slot_maps\<close>: the slots pushed so far and the running slot.\<close>

fun slot_scan :: "nat \<Rightarrow> insn list \<Rightarrow> nat list \<times> nat" where
  "slot_scan slot [] = ([], slot)"
| "slot_scan slot (insn # insns) =
     (let (slots, total) = slot_scan (slot + slot_width insn) insns in (slot # slots, total))"

definition slot_maps :: "insn list \<Rightarrow> nat list \<times> nat list" where
  "slot_maps insns =
     (let (slot_of, total) = slot_scan 0 insns
      in (slot_of, fill_table (\<lambda>i. i + 1) slot_of (replicate total 0)))"

definition resolve_target :: "nat list \<Rightarrow> nat list \<Rightarrow> nat \<Rightarrow> i16 \<Rightarrow> cfg_error + nat" where
  "resolve_target slot_of decoded_of_slot i offset =
     (let pc = slot_of ! i;
          target = int pc + 1 + sint offset
      in if target < 0 then Inl (JumpOutOfBounds pc target)
         else
           let t = nat target in
           bind_res (ok_or (if t < length decoded_of_slot then Some (decoded_of_slot ! t) else None)
                       (JumpOutOfBounds pc target)) (\<lambda>decoded.
             if decoded = 0
             then (if t < 2 ^ 32 then Inl (JumpIntoWide pc t) else Inl (JumpOutOfBounds pc target))
             else Inr (decoded - 1)))"

definition jump_targets ::
    "insn list \<Rightarrow> nat list \<Rightarrow> nat list \<Rightarrow> cfg_error + nat option list" where
  "jump_targets insns slot_of decoded_of_slot =
     traverse (\<lambda>(i, insn). case insn of
         Jump _ _ _ _ offset \<Rightarrow>
           bind_res (resolve_target slot_of decoded_of_slot i offset) (\<lambda>t. Inr (Some t))
       | _ \<Rightarrow> Inr None)
       (enumerate 0 insns)"


section \<open>Leaders\<close>

definition ends_block :: "insn \<Rightarrow> bool" where
  "ends_block insn = (case insn of Jump _ _ _ _ _ \<Rightarrow> True | Exit \<Rightarrow> True | _ \<Rightarrow> False)"

definition leaders_at :: "nat \<Rightarrow> nat \<times> insn \<times> nat option \<Rightarrow> nat list" where
  "leaders_at n = (\<lambda>(i, insn, target).
     (case target of Some t \<Rightarrow> [t] | None \<Rightarrow> []) @
     (if ends_block insn \<and> i + 1 < n then [i + 1] else []))"

definition collect_leaders :: "insn list \<Rightarrow> nat option list \<Rightarrow> nat list" where
  "collect_leaders insns targets =
     remdups_adj (sort (0 # concat (map (leaders_at (length insns)) (enumerate 0 (zip insns targets)))))"

definition find_leaders :: "insn list \<Rightarrow> cfg_error + nat list" where
  "find_leaders insns =
     (if insns = [] then Inl EmptyProgram
      else let (slot_of, decoded_of_slot) = slot_maps insns in
           bind_res (jump_targets insns slot_of decoded_of_slot) (\<lambda>targets.
           Inr (collect_leaders insns targets)))"


section \<open>Graph construction\<close>

definition block_ranges :: "nat list \<Rightarrow> nat \<Rightarrow> (nat \<times> nat) list" where
  "block_ranges leaders n = zip leaders (tl leaders @ [n])"

text \<open>\<open>xs[start..end].fill(v)\<close>.\<close>

definition slice_fill :: "nat \<Rightarrow> nat \<Rightarrow> 'a \<Rightarrow> 'a list \<Rightarrow> 'a list" where
  "slice_fill s e v xs = take s xs @ replicate (e - s) v @ drop e xs"

definition fill_blocks :: "(nat \<times> nat) list \<Rightarrow> nat \<Rightarrow> nat list" where
  "fill_blocks ranges n =
     fold (\<lambda>(node, (s, e)). slice_fill s e node) (enumerate 0 ranges) (replicate n (2 ^ 32 - 1))"

definition block_edges ::
    "insn list \<Rightarrow> nat option list \<Rightarrow> nat list \<Rightarrow> nat \<times> nat \<times> nat \<Rightarrow> edge list option" where
  "block_edges insns targets block_of_pc = (\<lambda>(idx, _, end_pc).
     let last = end_pc - 1 in
     case insns ! last of
       Jump _ op _ _ _ \<Rightarrow>
         (case targets ! last of
            None \<Rightarrow> None
          | Some target \<Rightarrow>
              if op = Always then Some [(idx, block_of_pc ! target, Unconditional)]
              else Some ((idx, block_of_pc ! target, BranchTrue) #
                (if end_pc < length insns then [(idx, block_of_pc ! end_pc, BranchFalse)] else [])))
     | Exit \<Rightarrow> Some []
     | _ \<Rightarrow> Some (if end_pc < length insns
                   then [(idx, block_of_pc ! end_pc, Fallthrough)] else []))"

text \<open>
  \<open>post_order g start\<close> stands for draining petgraph's \<open>DfsPostOrder::new(&g, start)\<close>.
\<close>

definition build_cfg ::
    "(graph \<Rightarrow> nat \<Rightarrow> nat list) \<Rightarrow> insn list \<Rightarrow> (cfg_error + cfg) option" where
  "build_cfg post_order insns =
     (if insns = [] then Some (Inl EmptyProgram)
      else
        let (slot_of, decoded_of_slot) = slot_maps insns in
        case jump_targets insns slot_of decoded_of_slot of
          Inl e \<Rightarrow> Some (Inl e)
        | Inr targets \<Rightarrow>
            let leaders = collect_leaders insns targets;
                ranges = block_ranges leaders (length insns);
                nodes = map (\<lambda>(s, e). \<lparr>bb_start = s, bb_end = e\<rparr>) ranges;
                block_of_pc = fill_blocks ranges (length insns)
            in case those (map (block_edges insns targets block_of_pc) (enumerate 0 ranges)) of
                 None \<Rightarrow> None
               | Some edgess \<Rightarrow>
                   let g = \<lparr>g_nodes = nodes, g_edges = concat edgess\<rparr>
                   in Some (Inr \<lparr>c_graph = g, c_entry = 0, c_block_of_pc = block_of_pc,
                                 c_slot_of = slot_of, c_rpo = rev (post_order g 0)\<rparr>))"


section \<open>Slot numbering\<close>

text \<open>The slot an instruction starts at: the widths of all instructions before it.\<close>

definition slot_start :: "insn list \<Rightarrow> nat \<Rightarrow> nat" where
  "slot_start insns i = sum_list (map slot_width (take i insns))"

definition slot_total :: "insn list \<Rightarrow> nat" where
  "slot_total insns = slot_start insns (length insns)"

definition resolve_jump :: "insn list \<Rightarrow> nat \<Rightarrow> i16 \<Rightarrow> cfg_error + nat" where
  "resolve_jump insns i offset =
     (let (slot_of, decoded_of_slot) = slot_maps insns
      in resolve_target slot_of decoded_of_slot i offset)"

lemma slot_width_pos [simp]: "0 < slot_width insn"
  by (cases insn) (simp_all add: slot_width_def)

lemma slot_width_cases: "slot_width insn = 1 \<or> (slot_width insn = 2 \<and> (\<exists>dst k. insn = LoadImm64 dst k))"
  by (cases insn) (simp_all add: slot_width_def)

lemma slot_start_0 [simp]: "slot_start insns 0 = 0"
  by (simp add: slot_start_def)

lemma slot_start_Suc:
  "i < length insns \<Longrightarrow> slot_start insns (Suc i) = slot_start insns i + slot_width (insns ! i)"
  by (simp add: slot_start_def take_Suc_conv_app_nth)

lemma slot_start_less: "i < j \<Longrightarrow> j \<le> length insns \<Longrightarrow> slot_start insns i < slot_start insns j"
proof (induction j)
  case 0
  then show ?case by simp
next
  case (Suc j)
  have "slot_start insns j < slot_start insns (Suc j)"
    using Suc.prems by (simp add: slot_start_Suc)
  with Suc show ?case by (cases "i = j") auto
qed

lemma slot_start_inj:
  "i \<le> length insns \<Longrightarrow> j \<le> length insns \<Longrightarrow> slot_start insns i = slot_start insns j \<longleftrightarrow> i = j"
  by (metis less_irrefl linorder_less_linear slot_start_less)

lemma slot_start_le: "i \<le> j \<Longrightarrow> j \<le> length insns \<Longrightarrow> slot_start insns i \<le> slot_start insns j"
  by (metis le_less slot_start_less)

lemma slot_cover:
  "t < slot_start insns j \<Longrightarrow> j \<le> length insns \<Longrightarrow>
     \<exists>i < j. slot_start insns i \<le> t \<and> t < slot_start insns (Suc i)"
proof (induction j)
  case 0
  then show ?case by simp
next
  case (Suc j)
  then show ?case by (cases "t < slot_start insns j") (auto intro: less_SucI)
qed

lemma slot_scan:
  "slot_scan s insns = (map (\<lambda>i. s + slot_start insns i) [0..<length insns], s + slot_total insns)"
proof (induction insns arbitrary: s)
  case Nil
  then show ?case by (simp add: slot_total_def)
next
  case (Cons x insns)
  have "map (\<lambda>i. s + slot_start (x # insns) i) [0..<length (x # insns)]
      = s # map (\<lambda>i. s + slot_width x + slot_start insns i) [0..<length insns]"
    by (simp add: upt_conv_Cons map_Suc_upt [symmetric] slot_start_def del: upt_Suc)
  with Cons show ?case by (simp add: slot_total_def slot_start_def)
qed

text \<open>The inverse table of \<open>slot_maps\<close>.\<close>

definition decoded_table :: "insn list \<Rightarrow> nat list" where
  "decoded_table insns = snd (slot_maps insns)"

lemma slot_maps_eq:
  "slot_maps insns = (map (slot_start insns) [0..<length insns], decoded_table insns)"
  by (simp add: decoded_table_def slot_maps_def slot_scan)

lemma decoded_table_fill:
  "decoded_table insns = fill_table (\<lambda>i. i + 1) (map (slot_start insns) [0..<length insns])
     (replicate (slot_total insns) 0)"
  by (simp add: decoded_table_def slot_maps_def slot_scan)

lemma decoded_table_length [simp]: "length (decoded_table insns) = slot_total insns"
  by (simp add: decoded_table_fill)

lemma slot_starts_distinct: "distinct (map (slot_start insns) [0..<length insns])"
  by (auto simp: distinct_map inj_on_def slot_start_inj)

lemma slot_starts_bounded: "\<forall>s \<in> set (map (slot_start insns) [0..<length insns]). s < slot_total insns"
  by (auto simp: slot_total_def slot_start_less)

lemma decoded_table_start:
  "i < length insns \<Longrightarrow> decoded_table insns ! slot_start insns i = i + 1"
  using fill_table_key [OF slot_starts_distinct, of insns "replicate (slot_total insns) 0" i
      "\<lambda>i. i + 1"] slot_starts_bounded [of insns]
  by (simp add: decoded_table_fill)

lemma decoded_table_other:
  "t < slot_total insns \<Longrightarrow> t \<notin> slot_start insns ` {..<length insns} \<Longrightarrow> decoded_table insns ! t = 0"
  unfolding decoded_table_fill by (subst fill_table_other) auto

text \<open>
  A slot inside the program that starts no instruction is the second half of a wide load.
\<close>

lemma mid_slot:
  assumes "t < slot_total insns" "t \<notin> slot_start insns ` {..<length insns}"
  shows "\<exists>i < length insns. (\<exists>dst k. insns ! i = LoadImm64 dst k) \<and> t = slot_start insns i + 1"
proof -
  from assms(1) obtain i where i: "i < length insns" "slot_start insns i \<le> t"
      "t < slot_start insns (Suc i)"
    using slot_cover [of t insns "length insns"] by (auto simp: slot_total_def)
  moreover from i(1) assms(2) have "t \<noteq> slot_start insns i" by auto
  ultimately show ?thesis
    using slot_width_cases [of "insns ! i"] by (auto simp: slot_start_Suc)
qed

lemma resolve_jump_eq:
  assumes "i < length insns" "t = int (slot_start insns i) + 1 + sint offset"
  shows "resolve_jump insns i offset =
     (if t < 0 \<or> int (slot_total insns) \<le> t then Inl (JumpOutOfBounds (slot_start insns i) t)
      else if decoded_table insns ! nat t = 0
      then (if nat t < 2 ^ 32 then Inl (JumpIntoWide (slot_start insns i) (nat t))
            else Inl (JumpOutOfBounds (slot_start insns i) t))
      else Inr (decoded_table insns ! nat t - 1))"
  using assms
  by (auto simp: resolve_jump_def slot_maps_eq resolve_target_def Let_def ok_or_def nat_less_iff)

lemma resolve_jump_spec:
  assumes "i < length insns" "slot_total insns < 2 ^ 32"
  shows "case resolve_jump insns i offset of
      Inr pc \<Rightarrow> pc < length insns \<and> int (slot_start insns pc) = int (slot_start insns i) + 1 + sint offset
    | Inl (JumpOutOfBounds s t) \<Rightarrow> s = slot_start insns i \<and> t = int s + 1 + sint offset
        \<and> (t < 0 \<or> int (slot_total insns) \<le> t)
    | Inl (JumpIntoWide s t) \<Rightarrow> s = slot_start insns i \<and> int t = int s + 1 + sint offset
        \<and> (\<exists>pc < length insns. (\<exists>dst k. insns ! pc = LoadImm64 dst k) \<and> t = slot_start insns pc + 1)
    | Inl EmptyProgram \<Rightarrow> False"
proof -
  let ?dec = "decoded_table insns"
  define t where "t = int (slot_start insns i) + 1 + sint offset"
  have r: "resolve_jump insns i offset =
     (if t < 0 \<or> int (slot_total insns) \<le> t then Inl (JumpOutOfBounds (slot_start insns i) t)
      else if ?dec ! nat t = 0 then Inl (JumpIntoWide (slot_start insns i) (nat t))
      else Inr (?dec ! nat t - 1))"
    using assms(2) resolve_jump_eq [OF assms(1) t_def] by (auto simp: nat_less_iff)
  show ?thesis
  proof (cases "t < 0 \<or> int (slot_total insns) \<le> t")
    case True
    then show ?thesis by (simp add: r t_def)
  next
    case False
    then have t: "nat t < slot_total insns" "int (nat t) = t" by auto
    show ?thesis
    proof (cases "nat t \<in> slot_start insns ` {..<length insns}")
      case True
      then obtain j where j: "j < length insns" "nat t = slot_start insns j" by auto
      with t(2) have "int (slot_start insns j) = t" by simp
      with j False show ?thesis by (simp add: r decoded_table_start t_def)
    next
      case outside: False
      with False t mid_slot [OF t(1) outside] decoded_table_other [OF t(1) outside]
      show ?thesis by (simp add: r t_def)
    qed
  qed
qed

lemma resolve_jump_bound:
  "resolve_jump insns i offset = Inr pc \<Longrightarrow> i < length insns \<Longrightarrow> pc < length insns"
proof -
  assume r: "resolve_jump insns i offset = Inr pc" and i: "i < length insns"
  let ?dec = "decoded_table insns"
  define t where "t = int (slot_start insns i) + 1 + sint offset"
  from r have t: "nat t < slot_total insns" "?dec ! nat t \<noteq> 0" "pc = ?dec ! nat t - 1"
    using resolve_jump_eq [OF i t_def] by (auto simp del: One_nat_def split: if_split_asm)
  then obtain j where "j < length insns" "nat t = slot_start insns j"
    using decoded_table_other [OF t(1)] by auto
  with t decoded_table_start show ?thesis by simp
qed


section \<open>Leaders and targets\<close>

lemma jump_targets_nth:
  assumes "slot_maps insns = (slot_of, dec)" "jump_targets insns slot_of dec = Inr targets"
  shows "length targets = length insns"
    and "i < length insns \<Longrightarrow> targets ! i = (case insns ! i of
        Jump _ _ _ _ offset \<Rightarrow> Some (projr (resolve_jump insns i offset)) | _ \<Rightarrow> None)"
    and "i < length insns \<Longrightarrow> insns ! i = Jump w op dst src offset \<Longrightarrow>
        \<exists>t. resolve_jump insns i offset = Inr t"
proof -
  show len: "length targets = length insns"
    using assms(2) by (auto simp: jump_targets_def dest: traverse_length)
  have nth: "i < length insns \<Longrightarrow> (case insns ! i of
         Jump _ _ _ _ offset \<Rightarrow> bind_res (resolve_jump insns i offset) (\<lambda>t. Inr (Some t))
       | _ \<Rightarrow> Inr None) = Inr (targets ! i)" for i
    using traverse_nth [OF assms(2) [unfolded jump_targets_def], of i] assms(1)
    by (cases "insns ! i") (simp_all add: nth_enumerate_eq resolve_jump_def)
  show "i < length insns \<Longrightarrow> targets ! i = (case insns ! i of
        Jump _ _ _ _ offset \<Rightarrow> Some (projr (resolve_jump insns i offset)) | _ \<Rightarrow> None)"
    using nth [of i] by (cases "insns ! i") auto
  show "i < length insns \<Longrightarrow> insns ! i = Jump w op dst src offset \<Longrightarrow>
        \<exists>t. resolve_jump insns i offset = Inr t"
    using nth [of i] by auto
qed

text \<open>The instructions control can enter other than from the one before.\<close>

definition is_leader :: "insn list \<Rightarrow> nat \<Rightarrow> bool" where
  "is_leader insns pc \<longleftrightarrow> pc < length insns \<and>
     (pc = 0
      \<or> ends_block (insns ! (pc - 1))
      \<or> (\<exists>i < length insns. \<exists>w op dst src offset.
           insns ! i = Jump w op dst src offset \<and> resolve_jump insns i offset = Inr pc))"

lemma enumerate_zip_set:
  "length ys = length xs \<Longrightarrow>
     set (enumerate 0 (zip xs ys)) = (\<lambda>i. (i, xs ! i, ys ! i)) ` {..<length xs}"
  by (auto simp: in_set_enumerate_eq image_iff)

lemma set_collect_leaders:
  assumes m: "slot_maps insns = (slot_of, dec)" "jump_targets insns slot_of dec = Inr targets"
    and ne: "insns \<noteq> []"
  shows "set (collect_leaders insns targets) = {pc. is_leader insns pc}"
proof -
  note T = jump_targets_nth [OF m]
  let ?n = "length insns"
  have set: "set (collect_leaders insns targets) =
      insert 0 (\<Union>i < ?n. set (leaders_at ?n (i, insns ! i, targets ! i)))"
    by (simp add: collect_leaders_def enumerate_zip_set T(1) set_insort_key)
  have at: "set (leaders_at ?n (i, insns ! i, targets ! i)) =
      {pc. (\<exists>w op dst src off. insns ! i = Jump w op dst src off \<and> resolve_jump insns i off = Inr pc)}
      \<union> (if ends_block (insns ! i) \<and> i + 1 < ?n then {i + 1} else {})" if i: "i < ?n" for i
  proof (cases "insns ! i")
    case (Jump w op dst src off)
    with T(3) [OF i Jump] T(2) [OF i] show ?thesis
      by (auto simp: leaders_at_def)
  qed (use T(2) [OF i] in \<open>auto simp: leaders_at_def\<close>)
  show ?thesis
  proof (intro set_eqI iffI)
    fix pc
    assume "pc \<in> set (collect_leaders insns targets)"
    then consider "pc = 0" | i where "i < ?n" "pc \<in> set (leaders_at ?n (i, insns ! i, targets ! i))"
      by (auto simp: set)
    then show "pc \<in> {pc. is_leader insns pc}"
    proof cases
      case 1
      with ne show ?thesis by (simp add: is_leader_def)
    next
      case 2
      with at [OF 2(1)] show ?thesis
        by (auto simp: is_leader_def resolve_jump_bound split: if_splits)
    qed
  next
    fix pc
    assume "pc \<in> {pc. is_leader insns pc}"
    then have pc: "pc < ?n" "pc = 0 \<or> (0 < pc \<and> ends_block (insns ! (pc - 1)))
      \<or> (\<exists>i < ?n. \<exists>w op dst src offset.
           insns ! i = Jump w op dst src offset \<and> resolve_jump insns i offset = Inr pc)"
      by (auto simp: is_leader_def)
    from pc(2) show "pc \<in> set (collect_leaders insns targets)"
    proof (elim disjE)
      assume "pc = 0"
      then show ?thesis by (simp add: set)
    next
      assume e: "0 < pc \<and> ends_block (insns ! (pc - 1))"
      with pc(1) have "pc \<in> set (leaders_at ?n (pc - 1, insns ! (pc - 1), targets ! (pc - 1)))"
        by (subst at) (simp_all add: less_imp_diff_less)
      moreover from pc(1) have "pc - 1 \<in> {..<?n}" by simp
      ultimately show ?thesis unfolding set by blast
    next
      assume "\<exists>i < ?n. \<exists>w op dst src offset.
           insns ! i = Jump w op dst src offset \<and> resolve_jump insns i offset = Inr pc"
      then obtain i where i: "i < ?n" "\<exists>w op dst src offset.
           insns ! i = Jump w op dst src offset \<and> resolve_jump insns i offset = Inr pc" by blast
      then have "pc \<in> set (leaders_at ?n (i, insns ! i, targets ! i))"
        by (subst at) auto
      with i(1) show ?thesis unfolding set by blast
    qed
  qed
qed

lemma strict_remdups_adj: "sorted xs \<Longrightarrow> sorted_wrt (<) (remdups_adj (xs :: 'a::linorder list))"
  by (induction xs rule: remdups_adj.induct) (auto simp: order.strict_iff_order)

lemma sorted_collect_leaders: "sorted_wrt (<) (collect_leaders insns targets)"
  unfolding collect_leaders_def by (rule strict_remdups_adj) (rule sorted_sort)

lemma hd_collect_leaders: "collect_leaders insns targets \<noteq> [] \<and> hd (collect_leaders insns targets) = 0"
proof -
  have z: "0 \<in> set (collect_leaders insns targets)" by (simp add: collect_leaders_def set_insort_key)
  then obtain x xs where c: "collect_leaders insns targets = x # xs"
    by (cases "collect_leaders insns targets") auto
  from z sorted_collect_leaders [of insns targets] have "x = 0" by (auto simp: c)
  with c show ?thesis by simp
qed


section \<open>Block ranges\<close>

text \<open>A strictly increasing list of leaders that starts at 0 and stays below \<open>n\<close>.\<close>

definition leaders_ok :: "nat list \<Rightarrow> nat \<Rightarrow> bool" where
  "leaders_ok ls n \<longleftrightarrow> ls \<noteq> [] \<and> hd ls = 0 \<and> sorted_wrt (<) ls \<and> (\<forall>l \<in> set ls. l < n)"

definition range_end :: "nat list \<Rightarrow> nat \<Rightarrow> nat \<Rightarrow> nat" where
  "range_end ls n k = (if Suc k < length ls then ls ! Suc k else n)"

lemma length_block_ranges [simp]: "ls \<noteq> [] \<Longrightarrow> length (block_ranges ls n) = length ls"
  by (simp add: block_ranges_def)

lemma block_ranges_nth: "k < length ls \<Longrightarrow> block_ranges ls n ! k = (ls ! k, range_end ls n k)"
  by (cases ls) (auto simp: block_ranges_def range_end_def nth_append less_Suc_eq)

lemma range_bounds:
  assumes "leaders_ok ls n" "k < length ls"
  shows "ls ! k < range_end ls n k" "range_end ls n k \<le> n"
  using assms by (auto simp: leaders_ok_def range_end_def sorted_wrt_nth_less less_imp_le)

lemma range_order:
  assumes "leaders_ok ls n" "j < k" "k < length ls"
  shows "range_end ls n j \<le> ls ! k"
  using assms by (auto simp: leaders_ok_def range_end_def sorted_wrt_iff_nth_less
      intro!: sorted_nth_mono strict_sorted_imp_sorted)

lemma range_unique:
  assumes "leaders_ok ls n" "j < length ls" "k < length ls"
    and "ls ! j \<le> pc" "pc < range_end ls n j" "ls ! k \<le> pc" "pc < range_end ls n k"
  shows "j = k"
  using assms range_order [OF assms(1), of j k] range_order [OF assms(1), of k j]
  by (metis le_less_trans linorder_less_linear not_le)

lemma range_cover:
  assumes "leaders_ok ls n" "pc < n"
  shows "\<exists>k < length ls. ls ! k \<le> pc \<and> pc < range_end ls n k"
proof -
  let ?P = "\<lambda>k. k < length ls \<and> ls ! k \<le> pc"
  let ?k = "Greatest ?P"
  from assms(1) have "?P 0" by (auto simp: leaders_ok_def hd_conv_nth)
  then have k: "?P ?k" by (rule GreatestI_nat [where b = "length ls"]) auto
  have "\<not> ?P (Suc ?k)"
    using Greatest_le_nat [of ?P "Suc ?k" "length ls"] by auto
  with k assms(2) show ?thesis by (intro exI [of _ ?k]) (auto simp: range_end_def)
qed


lemma slice_fill_length: "s \<le> e \<Longrightarrow> e \<le> length xs \<Longrightarrow> length (slice_fill s e v xs) = length xs"
  by (simp add: slice_fill_def)

lemma slice_fill_nth:
  "s \<le> e \<Longrightarrow> e \<le> length xs \<Longrightarrow> i < length xs \<Longrightarrow>
     slice_fill s e v xs ! i = (if s \<le> i \<and> i < e then v else xs ! i)"
  by (auto simp: slice_fill_def nth_append)

lemma fill_fold:
  assumes "\<forall>(s, e) \<in> set rs. s \<le> e \<and> e \<le> length xs" "i < length xs"
  shows "length (fold (\<lambda>(node, (s, e)). slice_fill s e node) (enumerate k rs) xs) = length xs"
    and "\<forall>(s, e) \<in> set rs. \<not> (s \<le> i \<and> i < e) \<Longrightarrow>
      fold (\<lambda>(node, (s, e)). slice_fill s e node) (enumerate k rs) xs ! i = xs ! i"
  using assms by (induction rs arbitrary: k xs) (auto simp: slice_fill_length slice_fill_nth)

lemma fill_fold_hit:
  assumes "\<forall>(s, e) \<in> set rs. s \<le> e \<and> e \<le> length xs" "i < length xs" "j < length rs"
    and "fst (rs ! j) \<le> i" "i < snd (rs ! j)"
    and "\<And>j'. j' < length rs \<Longrightarrow> fst (rs ! j') \<le> i \<Longrightarrow> i < snd (rs ! j') \<Longrightarrow> j' = j"
  shows "fold (\<lambda>(node, (s, e)). slice_fill s e node) (enumerate k rs) xs ! i = k + j"
  using assms
proof (induction rs arbitrary: k xs j)
  case Nil
  then show ?case by simp
next
  case (Cons r rs)
  obtain s e where r: "r = (s, e)" by force
  show ?case
  proof (cases j)
    case 0
    have "\<forall>(s, e) \<in> set rs. \<not> (s \<le> i \<and> i < e)"
    proof safe
      fix s e
      assume "(s, e) \<in> set rs" "s \<le> i" "i < e"
      then obtain m where "m < length rs" "rs ! m = (s, e)" by (auto simp: in_set_conv_nth)
      with Cons.prems(6) [of "Suc m"] \<open>s \<le> i\<close> \<open>i < e\<close> 0 show False by simp
    qed
    with Cons.prems 0 r show ?thesis
      by (simp add: fill_fold(2) slice_fill_length slice_fill_nth)
  next
    case (Suc m)
    have "fold (\<lambda>(node, (s, e)). slice_fill s e node) (enumerate (Suc k) rs) (slice_fill s e k xs) ! i
        = Suc k + m"
      using Cons.prems Suc r
      by (intro Cons.IH) (auto simp: slice_fill_length dest: Cons.prems(6) [of "Suc _", simplified])
    with Suc r show ?thesis by simp
  qed
qed

lemma block_ranges_set:
  assumes "leaders_ok ls n"
  shows "\<forall>(s, e) \<in> set (block_ranges ls n). s \<le> e \<and> e \<le> n"
proof -
  have "length (block_ranges ls n) = length ls"
    using assms by (simp add: leaders_ok_def)
  then show ?thesis
    using range_bounds [OF assms]
    by (auto simp: in_set_conv_nth block_ranges_nth less_imp_le)
qed

lemma fill_blocks_nth:
  assumes ls: "leaders_ok ls n" and k: "k < length ls" "ls ! k \<le> pc" "pc < range_end ls n k"
  shows "fill_blocks (block_ranges ls n) n ! pc = k"
proof -
  have len: "length (block_ranges ls n) = length ls"
    using ls by (simp add: leaders_ok_def)
  have "pc < n" using k range_bounds(2) [OF ls k(1)] by simp
  have "fold (\<lambda>(node, (s, e)). slice_fill s e node) (enumerate 0 (block_ranges ls n))
      (replicate n (2 ^ 32 - 1 :: nat)) ! pc = 0 + k"
  proof (rule fill_fold_hit)
    show "\<forall>(s, e) \<in> set (block_ranges ls n). s \<le> e \<and> e \<le> length (replicate n (2 ^ 32 - 1 :: nat))"
      using block_ranges_set [OF ls] by simp
    show "pc < length (replicate n (2 ^ 32 - 1 :: nat))" using \<open>pc < n\<close> by simp
    show "k < length (block_ranges ls n)" "fst (block_ranges ls n ! k) \<le> pc"
      "pc < snd (block_ranges ls n ! k)"
      using k len by (simp_all add: block_ranges_nth)
    fix j
    assume "j < length (block_ranges ls n)" "fst (block_ranges ls n ! j) \<le> pc"
      "pc < snd (block_ranges ls n ! j)"
    then show "j = k"
      using range_unique [OF ls _ k(1) _ _ k(2,3), of j] len by (simp add: block_ranges_nth)
  qed
  then show ?thesis by (simp add: fill_blocks_def)
qed

lemma fill_blocks_length [simp]:
  "leaders_ok ls n \<Longrightarrow> length (fill_blocks (block_ranges ls n) n) = n"
proof (cases n)
  case (Suc m)
  assume "leaders_ok ls n"
  then show ?thesis
    using fill_fold(1) [of "block_ranges ls n" "replicate n (2 ^ 32 - 1 :: nat)" 0 0] Suc
      block_ranges_set [of ls n]
    by (simp add: fill_blocks_def)
qed (auto simp: leaders_ok_def)

lemma collect_leaders_ok:
  assumes "slot_maps insns = (slot_of, dec)" "jump_targets insns slot_of dec = Inr targets"
    and "insns \<noteq> []"
  shows "leaders_ok (collect_leaders insns targets) (length insns)"
  using set_collect_leaders [OF assms] sorted_collect_leaders hd_collect_leaders
  by (auto simp: leaders_ok_def is_leader_def)


section \<open>The built graph\<close>

lemma those_map_total:
  "(\<And>x. x \<in> set xs \<Longrightarrow> f x \<noteq> None) \<Longrightarrow> those (map f xs) = Some (map (\<lambda>x. the (f x)) xs)"
  by (induction xs) fastforce+

lemma block_edges_total:
  assumes "slot_maps insns = (slot_of, dec)" "jump_targets insns slot_of dec = Inr targets"
    and "e - 1 < length insns"
  shows "block_edges insns targets bs (idx, s, e) \<noteq> None"
  using jump_targets_nth(2) [OF assms]
  by (cases "insns ! (e - 1)") (auto simp: block_edges_def Let_def)

text \<open>A successful build in terms of its leaders.\<close>

lemma build_cfg_cases:
  assumes "insns \<noteq> []"
  obtains (error) e slot_of dec where "slot_maps insns = (slot_of, dec)"
      "jump_targets insns slot_of dec = Inl e" "build_cfg po insns = Some (Inl e)"
  | (built) slot_of dec targets ls bs cfg where
      "slot_maps insns = (slot_of, dec)" "jump_targets insns slot_of dec = Inr targets"
      "ls = collect_leaders insns targets" "leaders_ok ls (length insns)"
      "bs = fill_blocks (block_ranges ls (length insns)) (length insns)"
      "build_cfg po insns = Some (Inr cfg)" "c_block_of_pc cfg = bs" "c_entry cfg = 0"
      "c_slot_of cfg = map (slot_start insns) [0..<length insns]"
      "c_rpo cfg = rev (po (c_graph cfg) 0)"
      "g_nodes (c_graph cfg) =
         map (\<lambda>k. \<lparr>bb_start = ls ! k, bb_end = range_end ls (length insns) k\<rparr>) [0..<length ls]"
      "g_edges (c_graph cfg) = concat (map (\<lambda>k.
         the (block_edges insns targets bs (k, ls ! k, range_end ls (length insns) k))) [0..<length ls])"
proof -
  obtain slot_of dec where m: "slot_maps insns = (slot_of, dec)" by force
  show thesis
  proof (cases "jump_targets insns slot_of dec")
    case (Inl e)
    with assms m have "build_cfg po insns = Some (Inl e)" by (simp add: build_cfg_def)
    with m Inl show thesis by (rule error)
  next
    case (Inr targets)
    define ls where "ls = collect_leaders insns targets"
    define bs where "bs = fill_blocks (block_ranges ls (length insns)) (length insns)"
    have ok: "leaders_ok ls (length insns)"
      unfolding ls_def by (rule collect_leaders_ok [OF m Inr assms])
    then have ne: "ls \<noteq> []" by (simp add: leaders_ok_def)
    have ranges: "block_ranges ls (length insns) =
        map (\<lambda>k. (ls ! k, range_end ls (length insns) k)) [0..<length ls]"
      by (rule nth_equalityI) (simp_all add: ne block_ranges_nth)
    have enum: "enumerate 0 (block_ranges ls (length insns)) =
        map (\<lambda>k. (k, ls ! k, range_end ls (length insns) k)) [0..<length ls]"
      by (rule nth_equalityI) (simp_all add: ne block_ranges_nth nth_enumerate_eq)
    have some: "block_edges insns targets bs (k, ls ! k, range_end ls (length insns) k) \<noteq> None"
      if "k < length ls" for k
      using block_edges_total [OF m Inr] range_bounds [OF ok that] by (metis less_le_trans
          diff_less less_nat_zero_code linorder_neqE_nat zero_less_one order_less_le_trans)
    have those: "those (map (block_edges insns targets bs)
          (enumerate 0 (block_ranges ls (length insns)))) =
        Some (map (\<lambda>k. the (block_edges insns targets bs (k, ls ! k, range_end ls (length insns) k)))
          [0..<length ls])"
      unfolding enum by (subst those_map_total) (auto dest: some)
    have nodes: "map (\<lambda>(s, e). \<lparr>bb_start = s, bb_end = e\<rparr>) (block_ranges ls (length insns)) =
        map (\<lambda>k. \<lparr>bb_start = ls ! k, bb_end = range_end ls (length insns) k\<rparr>) [0..<length ls]"
      by (simp add: ranges)
    define cfg where "cfg = (let g = \<lparr>
        g_nodes = map (\<lambda>k. \<lparr>bb_start = ls ! k, bb_end = range_end ls (length insns) k\<rparr>) [0..<length ls],
        g_edges = concat (map (\<lambda>k.
         the (block_edges insns targets bs (k, ls ! k, range_end ls (length insns) k))) [0..<length ls])\<rparr>
      in \<lparr>c_graph = g, c_entry = 0, c_block_of_pc = bs, c_slot_of = slot_of, c_rpo = rev (po g 0)\<rparr>)"
    have so: "slot_of = map (slot_start insns) [0..<length insns]"
      using m by (simp add: slot_maps_eq)
    have b: "build_cfg po insns = Some (Inr cfg)"
      using assms m Inr those
      by (simp add: build_cfg_def Let_def ls_def [symmetric] bs_def [symmetric] cfg_def nodes)
    show thesis
      by (rule built [OF m Inr ls_def ok bs_def b]) (simp_all add: cfg_def Let_def so)
  qed
qed


lemma build_cfg_resolves:
  assumes "build_cfg po insns = Some (Inr cfg)" "i < length insns" "insns ! i = Jump w op dst src offset"
  shows "is_ok (resolve_jump insns i offset)"
proof -
  have "insns \<noteq> []" using assms(2) by auto
  then show ?thesis
  proof (cases rule: build_cfg_cases [where po = po])
    case (error e slot_of dec)
    with assms(1) show ?thesis by simp
  next
    case (built slot_of dec targets ls bs cfg')
    with jump_targets_nth(3) [OF built(1,2) assms(2)] assms(3) show ?thesis by fastforce
  qed
qed

text \<open>
  What one instruction can hand control to: the specification the edges are compared with.
\<close>

definition transfers :: "insn list \<Rightarrow> nat \<Rightarrow> edge_kind \<Rightarrow> nat \<Rightarrow> bool" where
  "transfers insns pc kind pc' \<longleftrightarrow> pc < length insns \<and> pc' < length insns \<and>
     (case insns ! pc of
        Jump w op dst src offset \<Rightarrow>
          (if op = Always then kind = Unconditional \<and> resolve_jump insns pc offset = Inr pc'
           else kind = BranchTrue \<and> resolve_jump insns pc offset = Inr pc'
              \<or> kind = BranchFalse \<and> pc' = pc + 1)
      | Exit \<Rightarrow> False
      | _ \<Rightarrow> kind = Fallthrough \<and> pc' = pc + 1)"

lemma block_edges_spec:
  assumes m: "slot_maps insns = (slot_of, dec)" "jump_targets insns slot_of dec = Inr targets"
    and e: "0 < e" "e \<le> length insns"
  shows "x \<in> set (the (block_edges insns targets bs (k, s, e))) \<longleftrightarrow>
     (\<exists>pc' kind. x = (k, bs ! pc', kind) \<and> transfers insns (e - 1) kind pc')"
proof -
  from e have le: "e - 1 < length insns" "e - 1 + 1 = e" by auto
  note T = jump_targets_nth [OF m]
  show ?thesis
  proof (cases "insns ! (e - 1)")
    case (Jump w op dst src offset)
    then obtain t where t: "resolve_jump insns (e - 1) offset = Inr t"
      using T(3) [OF le(1)] by blast
    then have "targets ! (e - 1) = Some t" "t < length insns"
      using T(2) [OF le(1)] Jump resolve_jump_bound [OF t le(1)] by simp_all
    with Jump t e show ?thesis by (auto simp: block_edges_def transfers_def)
  qed (use e in \<open>auto simp: block_edges_def transfers_def\<close>)
qed

text \<open>Everything later proofs need to know about a built graph.\<close>

lemma build_cfg_built:
  assumes "build_cfg po insns = Some (Inr cfg)"
  obtains ls where "leaders_ok ls (length insns)" "set ls = {pc. is_leader insns pc}"
    "length (g_nodes (c_graph cfg)) = length ls"
    "\<And>k. k < length ls \<Longrightarrow> g_nodes (c_graph cfg) ! k =
       \<lparr>bb_start = ls ! k, bb_end = range_end ls (length insns) k\<rparr>"
    "\<And>k pc. k < length ls \<Longrightarrow> ls ! k \<le> pc \<Longrightarrow> pc < range_end ls (length insns) k \<Longrightarrow>
       block_at cfg pc = k"
    "\<And>x. x \<in> set (g_edges (c_graph cfg)) \<longleftrightarrow> (\<exists>k < length ls. \<exists>pc' kind.
        x = (k, block_at cfg pc', kind) \<and> transfers insns (range_end ls (length insns) k - 1) kind pc')"
    "length (c_block_of_pc cfg) = length insns"
proof -
  have ne: "insns \<noteq> []" using assms by (auto simp: build_cfg_def)
  from ne show thesis
  proof (cases rule: build_cfg_cases [where po = po])
    case (error e slot_of dec)
    with assms show ?thesis by simp
  next
    case (built slot_of dec targets ls bs cfg')
    then have cfg: "cfg' = cfg" using assms by simp
    show ?thesis
    proof (rule that [OF built(4)])
      show "set ls = {pc. is_leader insns pc}"
        unfolding built(3) by (rule set_collect_leaders [OF built(1,2) ne])
      show "length (g_nodes (c_graph cfg)) = length ls"
        using built(11) cfg by simp
      show "g_nodes (c_graph cfg) ! k = \<lparr>bb_start = ls ! k, bb_end = range_end ls (length insns) k\<rparr>"
        if "k < length ls" for k using built(11) cfg that by simp
      show "block_at cfg pc = k"
        if "k < length ls" "ls ! k \<le> pc" "pc < range_end ls (length insns) k" for k pc
        using fill_blocks_nth [OF built(4) that] built(5,7) cfg by (simp add: block_at_def)
      show "length (c_block_of_pc cfg) = length insns"
        using built(4,5,7) cfg by simp
      have e: "0 < range_end ls (length insns) k" "range_end ls (length insns) k \<le> length insns"
        if "k < length ls" for k using range_bounds [OF built(4) that] by auto
      show "x \<in> set (g_edges (c_graph cfg)) \<longleftrightarrow> (\<exists>k < length ls. \<exists>pc' kind.
        x = (k, block_at cfg pc', kind) \<and> transfers insns (range_end ls (length insns) k - 1) kind pc')" for x
        using block_edges_spec [OF built(1,2) e] built(7,12) cfg
        by (auto simp: block_at_def)
    qed
  qed
qed

lemma transfers_leader:
  "transfers insns pc kind pc' \<Longrightarrow> kind = Fallthrough \<and> pc' = pc + 1 \<and> \<not> ends_block (insns ! pc)
     \<or> is_leader insns pc' \<and> ends_block (insns ! pc)"
  by (auto simp: transfers_def ends_block_def is_leader_def split: insn.splits if_splits)


lemma ranges_concat_prefix:
  assumes "leaders_ok ls n"
  shows "j \<le> length ls \<Longrightarrow> concat (map (\<lambda>k. [ls ! k..<range_end ls n k]) [0..<j]) =
     [0..<(if j < length ls then ls ! j else n)]"
proof (induction j)
  case 0
  with assms show ?case by (cases ls) (auto simp: leaders_ok_def)
next
  case (Suc j)
  then have "ls ! j \<le> range_end ls n j" using range_bounds [OF assms, of j] by simp
  then have "[0..<range_end ls n j] = [0..<ls ! j] @ [ls ! j..<range_end ls n j]"
    by (metis le0 le_add_diff_inverse upt_add_eq_append)
  with Suc show ?case by (simp add: range_end_def)
qed

lemma ranges_concat:
  "leaders_ok ls n \<Longrightarrow>
     concat (map (\<lambda>k. [ls ! k..<range_end ls n k]) [0..<length ls]) = [0..<n]"
  using ranges_concat_prefix [of ls n "length ls"] by simp

text \<open>A block is entered at its start and left at its end.\<close>

lemma not_leader_inside:
  assumes "leaders_ok ls n" "set ls = {pc. is_leader insns pc}" "k < length ls"
    and "ls ! k < pc" "pc < range_end ls n k"
  shows "\<not> is_leader insns pc"
proof
  assume "is_leader insns pc"
  with assms(2) obtain j where j: "j < length ls" "ls ! j = pc"
    by (metis in_set_conv_nth mem_Collect_eq)
  then have "j = k"
    using range_unique [OF assms(1) j(1) assms(3), of pc] range_bounds(1) [OF assms(1) j(1)] assms(4,5)
    by simp
  with j assms(4) show False by simp
qed

text \<open>
  What petgraph documents of a depth-first post-order: every node reachable from the start is
  visited once, the start last.
\<close>

definition edge_rel :: "graph \<Rightarrow> (nat \<times> nat) set" where
  "edge_rel g = {(a, b). \<exists>k. (a, b, k) \<in> set (g_edges g)}"

definition post_order_spec :: "(graph \<Rightarrow> nat \<Rightarrow> nat list) \<Rightarrow> graph \<Rightarrow> bool" where
  "post_order_spec po g \<longleftrightarrow> (\<forall>s < length (g_nodes g).
     distinct (po g s) \<and> set (po g s) = (edge_rel g)\<^sup>* `` {s} \<and> last (po g s) = s)"

lemma build_cfg_simulates_aux:
  assumes "build_cfg po insns = Some (Inr cfg)" "transfers insns pc kind pc'"
  shows "block_at cfg pc' = block_at cfg pc \<and> kind = Fallthrough \<and> pc' = pc + 1
       \<and> pc' < bb_end (g_nodes (c_graph cfg) ! block_at cfg pc)
    \<or> (block_at cfg pc, block_at cfg pc', kind) \<in> set (g_edges (c_graph cfg))
       \<and> pc + 1 = bb_end (g_nodes (c_graph cfg) ! block_at cfg pc)
       \<and> pc' = bb_start (g_nodes (c_graph cfg) ! block_at cfg pc')"
  using assms(1)
proof (rule build_cfg_built)
  fix ls
  let ?n = "length insns"
  assume ok: "leaders_ok ls ?n" and set: "set ls = {pc. is_leader insns pc}"
    and node: "\<And>k. k < length ls \<Longrightarrow> g_nodes (c_graph cfg) ! k =
       \<lparr>bb_start = ls ! k, bb_end = range_end ls ?n k\<rparr>"
    and blk: "\<And>k pc. k < length ls \<Longrightarrow> ls ! k \<le> pc \<Longrightarrow> pc < range_end ls ?n k \<Longrightarrow> block_at cfg pc = k"
    and edges: "\<And>x. x \<in> set (g_edges (c_graph cfg)) \<longleftrightarrow> (\<exists>k < length ls. \<exists>pc' kind.
        x = (k, block_at cfg pc', kind) \<and> transfers insns (range_end ls ?n k - 1) kind pc')"
  from assms(2) have pcs: "pc < ?n" "pc' < ?n" by (simp_all add: transfers_def)
  obtain k where k: "k < length ls" "ls ! k \<le> pc" "pc < range_end ls ?n k"
    using range_cover [OF ok pcs(1)] by blast
  have bk: "block_at cfg pc = k" by (rule blk [OF k])
  obtain k' where k': "k' < length ls" "ls ! k' \<le> pc'" "pc' < range_end ls ?n k'"
    using range_cover [OF ok pcs(2)] by blast
  have bk': "block_at cfg pc' = k'" by (rule blk [OF k'])
  show ?thesis
  proof (cases "pc + 1 = range_end ls ?n k")
    case True
    then have "range_end ls ?n k - 1 = pc" by simp
    with k(1) assms(2) bk have e: "(k, block_at cfg pc', kind) \<in> set (g_edges (c_graph cfg))"
      unfolding edges by (intro exI [of _ k]) auto
    have "is_leader insns pc'"
      using transfers_leader [OF assms(2)] True pcs(2) k(1) set
      by (auto simp: range_end_def split: if_splits)
    then have "ls ! k' = pc'"
      using not_leader_inside [OF ok set k'(1), of pc'] k'(2,3) by force
    with e True k(1) k'(1) show ?thesis by (simp add: bk bk' node)
  next
    case False
    then have in_blk: "ls ! k < pc + 1" "pc + 1 < range_end ls ?n k" using k by simp_all
    then have nl: "\<not> is_leader insns (pc + 1)" by (rule not_leader_inside [OF ok set k(1)])
    moreover have "pc + 1 < ?n" using in_blk(2) range_bounds(2) [OF ok k(1)] by simp
    ultimately have "\<not> ends_block (insns ! pc)" by (simp add: is_leader_def)
    with transfers_leader [OF assms(2)] have f: "kind = Fallthrough" "pc' = pc + 1" by simp_all
    moreover have "block_at cfg (pc + 1) = k"
      using blk [OF k(1), of "pc + 1"] in_blk by simp
    ultimately show ?thesis using in_blk k(1) by (simp add: bk node)
  qed
qed

text \<open>A concrete post-order, for evaluating the model on examples.\<close>

fun dfs_go :: "nat \<Rightarrow> edge list \<Rightarrow> nat list \<Rightarrow> nat list \<times> nat list \<Rightarrow> nat list \<times> nat list" where
  "dfs_go 0 es todo st = st"
| "dfs_go (Suc fuel) es [] st = st"
| "dfs_go (Suc fuel) es (x # xs) (seen, out) =
     (if x \<in> set seen then dfs_go fuel es xs (seen, out)
      else let (seen', out') = dfs_go fuel es (map (\<lambda>(_, b, _). b) (filter (\<lambda>(a, _, _). a = x) es))
                                 (x # seen, out)
           in dfs_go fuel es xs (seen', out' @ [x]))"

definition dfs_post :: "graph \<Rightarrow> nat \<Rightarrow> nat list" where
  "dfs_post g s = snd (dfs_go (length (g_nodes g) * (length (g_edges g) + 2) + 1) (g_edges g) [s] ([], []))"

definition step_rel :: "insn list \<Rightarrow> (nat \<times> nat) set" where
  "step_rel insns = {(pc, pc'). \<exists>kind. transfers insns pc kind pc'}"


lemma rpo_covers_reachable_aux:
  assumes "build_cfg po insns = Some (Inr cfg)" "post_order_spec po (c_graph cfg)"
    and "(0, pc) \<in> (step_rel insns)\<^sup>*"
  shows "distinct (c_rpo cfg) \<and> hd (c_rpo cfg) = c_entry cfg \<and> block_at cfg pc \<in> set (c_rpo cfg)"
proof -
  have ne: "insns \<noteq> []" using assms(1) by (auto simp: build_cfg_def)
  have rpo: "c_rpo cfg = rev (po (c_graph cfg) 0)" and entry: "c_entry cfg = 0"
    using ne assms(1) by (cases rule: build_cfg_cases [where po = po]; simp)+
  have part: "block_at cfg 0 = 0 \<and> 0 < length (g_nodes (c_graph cfg))"
    using assms(1)
  proof (rule build_cfg_built)
    fix ls
    assume "leaders_ok ls (length insns)" "length (g_nodes (c_graph cfg)) = length ls"
      "\<And>k pc. k < length ls \<Longrightarrow> ls ! k \<le> pc \<Longrightarrow> pc < range_end ls (length insns) k \<Longrightarrow>
         block_at cfg pc = k"
    then show ?thesis
      using range_bounds(1) [of ls "length insns" 0] by (cases ls) (auto simp: leaders_ok_def)
  qed
  with assms(2) have po: "distinct (po (c_graph cfg) 0)" "last (po (c_graph cfg) 0) = 0"
    "set (po (c_graph cfg) 0) = (edge_rel (c_graph cfg))\<^sup>* `` {0}"
    by (auto simp: post_order_spec_def)
  have "(0, block_at cfg pc) \<in> (edge_rel (c_graph cfg))\<^sup>*"
    using assms(3)
  proof (induction rule: rtrancl_induct)
    case base
    then show ?case using part by simp
  next
    case (step y z)
    then obtain kind where "transfers insns y kind z" by (auto simp: step_rel_def)
    from build_cfg_simulates_aux [OF assms(1) this]
    have "block_at cfg z = block_at cfg y \<or> (block_at cfg y, block_at cfg z) \<in> edge_rel (c_graph cfg)"
      by (auto simp: edge_rel_def)
    with step.IH show ?case by (auto intro: rtrancl_into_rtrancl)
  qed
  with po show ?thesis by (simp add: rpo entry hd_rev)
qed

section \<open>A sample program\<close>

text \<open>A loop with a guard: five blocks' worth of shapes in six instructions.\<close>

definition loop_program :: "insn list" where
  "loop_program =
     [Alu B64 Mov (Reg 1) (ImmOp 0), LoadImm64 (Reg 2) 10,
      Alu B64 Add (Reg 1) (ImmOp 1), Jump B64 Lt (Reg 1) (RegOp (Reg 2)) 0xFFFE,
      Alu B64 Mov (Reg 0) (RegOp (Reg 1)), Exit]"

definition loop_cfg :: cfg where
  "loop_cfg = \<lparr>c_graph = \<lparr>g_nodes = [\<lparr>bb_start = 0, bb_end = 2\<rparr>, \<lparr>bb_start = 2, bb_end = 4\<rparr>,
                                    \<lparr>bb_start = 4, bb_end = 6\<rparr>],
       g_edges = [(0, 1, Fallthrough), (1, 1, BranchTrue), (1, 2, BranchFalse)]\<rparr>,
     c_entry = 0, c_block_of_pc = [0, 0, 1, 1, 2, 2], c_slot_of = [0, 1, 3, 4, 5, 6], c_rpo = [0, 1, 2]\<rparr>"

lemma loop_slots: "slot_maps loop_program = ([0, 1, 3, 4, 5, 6], [1, 2, 0, 3, 4, 5, 6])"
  unfolding loop_program_def by code_simp

lemma loop_targets:
  "jump_targets loop_program [0, 1, 3, 4, 5, 6] [1, 2, 0, 3, 4, 5, 6]
     = Inr [None, None, None, Some 2, None, None]"
  by (simp add: jump_targets_def loop_program_def resolve_target_def)

lemma loop_leaders:
  "collect_leaders loop_program [None, None, None, Some 2, None, None] = [0, 2, 4]"
  unfolding loop_program_def by code_simp

lemma loop_blocks: "block_ranges [0, 2, 4] 6 = [(0, 2), (2, 4), (4, 6)]"
  by code_simp

lemma loop_fill_any:
  "fold (\<lambda>(node, (s, e)). slice_fill s e node) (enumerate 0 [(0, 2), (2, 4), (4, 6)]) (replicate 6 v)
     = [0, 0, 1, 1, 2, 2]"
  by (simp add: slice_fill_def numeral_eq_Suc)

lemma loop_fill: "fill_blocks [(0, 2), (2, 4), (4, 6)] 6 = [0, 0, 1, 1, 2, 2]"
  unfolding fill_blocks_def by (rule loop_fill_any)

lemma loop_edges:
  "those (map (block_edges loop_program [None, None, None, Some 2, None, None] [0, 0, 1, 1, 2, 2])
     (enumerate 0 [(0, 2), (2, 4), (4, 6)]))
   = Some [[(0, 1, Fallthrough)], [(1, 1, BranchTrue), (1, 2, BranchFalse)], []]"
  by (simp add: block_edges_def loop_program_def)

lemma loop_post: "dfs_post (c_graph loop_cfg) 0 = [2, 1, 0]"
  unfolding loop_cfg_def by code_simp

lemma build_loop_cfg: "build_cfg dfs_post loop_program = Some (Inr loop_cfg)"
proof -
  have n: "length loop_program = 6" "loop_program \<noteq> []" by (simp_all add: loop_program_def)
  show ?thesis
    using loop_post
    by (simp only: build_cfg_def n loop_slots loop_targets loop_leaders loop_blocks loop_fill
        loop_edges Let_def prod.case sum.case option.case if_False)
      (simp add: loop_cfg_def)
qed


section \<open>Properties\<close>

text \<open>
  \<open>resolve_target\<close> computes in slot space and maps back: a jump resolves exactly to the
  instruction that starts at the slot after it plus the offset, and its two errors name the
  targets outside the program and the second halves of wide loads.
\<close>

theorem resolve_target_spec:
  assumes "i < length insns" "slot_total insns < 2 ^ 32"
  shows "case resolve_target (fst (slot_maps insns)) (snd (slot_maps insns)) i offset of
      Inr pc \<Rightarrow> pc < length insns \<and> int (slot_start insns pc) = int (slot_start insns i) + 1 + sint offset
    | Inl (JumpOutOfBounds s t) \<Rightarrow> s = slot_start insns i \<and> t = int s + 1 + sint offset
        \<and> (t < 0 \<or> int (slot_total insns) \<le> t)
    | Inl (JumpIntoWide s t) \<Rightarrow> s = slot_start insns i \<and> int t = int s + 1 + sint offset
        \<and> (\<exists>pc < length insns. (\<exists>dst k. insns ! pc = LoadImm64 dst k) \<and> t = slot_start insns pc + 1)
    | Inl EmptyProgram \<Rightarrow> False"
  using resolve_jump_spec [OF assms, of offset] by (simp add: resolve_jump_def slot_maps_eq)

theorem resolve_target_spec_witness:
  "resolve_target (fst (slot_maps [LoadImm64 (Reg 0) 1, Jump B64 Always (Reg 0) (ImmOp 0) 0xFFFE, Exit]))
     (snd (slot_maps [LoadImm64 (Reg 0) 1, Jump B64 Always (Reg 0) (ImmOp 0) 0xFFFE, Exit])) 1 0xFFFE
     = Inl (JumpIntoWide 2 1)
   \<and> (\<exists>pc < 3. 1 = slot_start [LoadImm64 (Reg 0) 1, Jump B64 Always (Reg 0) (ImmOp 0) 0xFFFE, Exit] pc + 1)"
proof -
  let ?p = "[LoadImm64 (Reg 0) 1, Jump B64 Always (Reg 0) (ImmOp 0) 0xFFFE, Exit]"
  have m: "slot_maps ?p = ([0, 2, 3], [1, 0, 2, 3])" by code_simp
  have r: "resolve_target (fst (slot_maps ?p)) (snd (slot_maps ?p)) 1 0xFFFE = Inl (JumpIntoWide 2 1)"
    unfolding m by (simp add: resolve_target_def)
  have "slot_total ?p < 2 ^ 32" by (simp add: slot_total_def slot_start_def slot_width_def)
  from resolve_target_spec [OF _ this, of 1 "0xFFFE"] have "\<exists>pc < length ?p. 1 = slot_start ?p pc + 1"
    unfolding r by auto
  with r show ?thesis by (simp add: eval_nat_numeral)
qed

text \<open>
  C27: the blocks of a built graph are a partition of the program in order, none is empty, and
  \<open>block_at\<close> finds the block an instruction lies in.
\<close>

theorem build_cfg_partition:
  assumes "build_cfg po insns = Some (Inr cfg)"
  shows "concat (map (\<lambda>b. [bb_start b..<bb_end b]) (g_nodes (c_graph cfg))) = [0..<length insns]
    \<and> (\<forall>b \<in> set (g_nodes (c_graph cfg)). \<not> block_is_empty b)
    \<and> (\<forall>pc < length insns. block_at cfg pc < length (g_nodes (c_graph cfg))
         \<and> bb_start (g_nodes (c_graph cfg) ! block_at cfg pc) \<le> pc
         \<and> pc < bb_end (g_nodes (c_graph cfg) ! block_at cfg pc))"
  using assms
proof (rule build_cfg_built)
  fix ls
  assume ok: "leaders_ok ls (length insns)"
    and len: "length (g_nodes (c_graph cfg)) = length ls"
    and node: "\<And>k. k < length ls \<Longrightarrow> g_nodes (c_graph cfg) ! k =
       \<lparr>bb_start = ls ! k, bb_end = range_end ls (length insns) k\<rparr>"
    and blk: "\<And>k pc. k < length ls \<Longrightarrow> ls ! k \<le> pc \<Longrightarrow> pc < range_end ls (length insns) k \<Longrightarrow>
       block_at cfg pc = k"
  have nodes: "g_nodes (c_graph cfg) =
      map (\<lambda>k. \<lparr>bb_start = ls ! k, bb_end = range_end ls (length insns) k\<rparr>) [0..<length ls]"
    by (rule nth_equalityI) (simp_all add: len node)
  have "\<not> block_is_empty b" if "b \<in> set (g_nodes (c_graph cfg))" for b
    using that range_bounds(1) [OF ok] by (auto simp: nodes block_is_empty_def not_le)
  moreover have "block_at cfg pc < length ls \<and> ls ! block_at cfg pc \<le> pc
      \<and> pc < range_end ls (length insns) (block_at cfg pc)" if "pc < length insns" for pc
    using range_cover [OF ok that] blk by metis
  ultimately show ?thesis
    using ranges_concat [OF ok] by (simp add: nodes comp_def)
qed

theorem build_cfg_partition_witness:
  "concat (map (\<lambda>b. [bb_start b..<bb_end b]) (g_nodes (c_graph loop_cfg))) = [0..<length loop_program]
    \<and> block_at loop_cfg 3 = 1"
  using build_cfg_partition [OF build_loop_cfg] by (simp add: block_at_def loop_cfg_def)

text \<open>
  a program location starts a block exactly when it is the first instruction, the target of
  a jump, or follows a jump or an exit; \<open>find_leaders\<close> lists these locations in order.
\<close>

theorem find_leaders_spec:
  assumes "find_leaders insns = Inr ls"
  shows "sorted_wrt (<) ls \<and> set ls = {pc. is_leader insns pc}"
proof -
  from assms have ne: "insns \<noteq> []" by (auto simp: find_leaders_def)
  obtain slot_of dec where m: "slot_maps insns = (slot_of, dec)" by force
  with assms ne obtain targets where t: "jump_targets insns slot_of dec = Inr targets"
    and ls: "ls = collect_leaders insns targets"
    by (auto simp: find_leaders_def)
  show ?thesis
    using set_collect_leaders [OF m t ne] by (simp add: ls sorted_collect_leaders)
qed

theorem find_leaders_spec_witness:
  "find_leaders loop_program = Inr [0, 2, 4] \<and> {pc. is_leader loop_program pc} = {0, 2, 4}"
proof -
  have f: "find_leaders loop_program = Inr [0, 2, 4]"
    by (simp only: find_leaders_def loop_slots Let_def prod.case loop_targets bind_res.simps loop_leaders)
      (simp add: loop_program_def)
  from find_leaders_spec [OF f] f show ?thesis by auto
qed

text \<open>
  C26: the edges of a built graph mirror control transfer exactly: there is an edge of some kind
  from one block to another if and only if the last instruction of the first can transfer
  control that way to the first instruction of the second.
\<close>

theorem build_cfg_edges_exact:
  assumes "build_cfg po insns = Some (Inr cfg)"
  shows "(a, b, kind) \<in> set (g_edges (c_graph cfg)) \<longleftrightarrow>
    a < length (g_nodes (c_graph cfg)) \<and> b < length (g_nodes (c_graph cfg)) \<and>
    transfers insns (bb_end (g_nodes (c_graph cfg) ! a) - 1) kind (bb_start (g_nodes (c_graph cfg) ! b))"
  using assms
proof (rule build_cfg_built)
  fix ls
  let ?n = "length insns"
  assume ok: "leaders_ok ls ?n" and set: "set ls = {pc. is_leader insns pc}"
    and len: "length (g_nodes (c_graph cfg)) = length ls"
    and node: "\<And>k. k < length ls \<Longrightarrow> g_nodes (c_graph cfg) ! k =
       \<lparr>bb_start = ls ! k, bb_end = range_end ls ?n k\<rparr>"
    and blk: "\<And>k pc. k < length ls \<Longrightarrow> ls ! k \<le> pc \<Longrightarrow> pc < range_end ls ?n k \<Longrightarrow> block_at cfg pc = k"
    and edges: "\<And>x. x \<in> set (g_edges (c_graph cfg)) \<longleftrightarrow> (\<exists>k < length ls. \<exists>pc' kind.
        x = (k, block_at cfg pc', kind) \<and> transfers insns (range_end ls ?n k - 1) kind pc')"
  have start: "\<exists>b < length ls. pc' = ls ! b \<and> block_at cfg pc' = b"
    if a: "a < length ls" and t: "transfers insns (range_end ls ?n a - 1) kind pc'" for a kind pc'
  proof -
    from t have pc': "pc' < ?n" by (simp add: transfers_def)
    have "is_leader insns pc'"
      using transfers_leader [OF t]
    proof
      assume f: "kind = Fallthrough \<and> pc' = range_end ls ?n a - 1 + 1
        \<and> \<not> ends_block (insns ! (range_end ls ?n a - 1))"
      then have "pc' = range_end ls ?n a" using range_bounds(1) [OF ok a] by simp
      then have "pc' \<in> set ls" using pc' by (auto simp: range_end_def split: if_splits)
      then show ?thesis by (simp add: set)
    qed simp
    then obtain b where b: "b < length ls" "ls ! b = pc'"
      using set by (metis in_set_conv_nth mem_Collect_eq)
    then have "block_at cfg pc' = b" using blk range_bounds(1) [OF ok b(1)] by simp
    with b show ?thesis by blast
  qed
  show ?thesis
  proof
    assume "(a, b, kind) \<in> set (g_edges (c_graph cfg))"
    then obtain pc' where a: "a < length ls" and b: "b = block_at cfg pc'"
      and t: "transfers insns (range_end ls ?n a - 1) kind pc'" by (auto simp: edges)
    from start [OF a t] a b t show "a < length (g_nodes (c_graph cfg)) \<and> b < length (g_nodes (c_graph cfg)) \<and>
      transfers insns (bb_end (g_nodes (c_graph cfg) ! a) - 1) kind (bb_start (g_nodes (c_graph cfg) ! b))"
      by (auto simp: len node)
  next
    assume r: "a < length (g_nodes (c_graph cfg)) \<and> b < length (g_nodes (c_graph cfg)) \<and>
      transfers insns (bb_end (g_nodes (c_graph cfg) ! a) - 1) kind (bb_start (g_nodes (c_graph cfg) ! b))"
    then have "block_at cfg (ls ! b) = b"
      using blk [of b "ls ! b"] range_bounds(1) [OF ok, of b] by (simp add: len)
    with r show "(a, b, kind) \<in> set (g_edges (c_graph cfg))"
      unfolding edges
      by (rule_tac x = a in exI, intro conjI, simp add: len, rule_tac x = "ls ! b" in exI,
          rule_tac x = kind in exI, simp add: len node)
  qed
qed

theorem build_cfg_edges_exact_witness:
  "transfers loop_program 3 BranchTrue 2 \<and> transfers loop_program 3 BranchFalse 4"
  using build_cfg_edges_exact [OF build_loop_cfg, of 1 1 BranchTrue]
    build_cfg_edges_exact [OF build_loop_cfg, of 1 2 BranchFalse]
  by (simp add: loop_cfg_def)

text \<open>
  C14: control stays inside the graph: an instruction transfers control either to its successor
  in the same block or, from the last instruction of its block, along an edge to the first
  instruction of another.
\<close>

theorem build_cfg_simulates:
  assumes "build_cfg po insns = Some (Inr cfg)" "transfers insns pc kind pc'"
  shows "block_at cfg pc' = block_at cfg pc \<and> kind = Fallthrough \<and> pc' = pc + 1
       \<and> pc' < bb_end (g_nodes (c_graph cfg) ! block_at cfg pc)
    \<or> (block_at cfg pc, block_at cfg pc', kind) \<in> set (g_edges (c_graph cfg))
       \<and> pc + 1 = bb_end (g_nodes (c_graph cfg) ! block_at cfg pc)
       \<and> pc' = bb_start (g_nodes (c_graph cfg) ! block_at cfg pc')"
  by (rule build_cfg_simulates_aux [OF assms])

theorem build_cfg_simulates_witness:
  "(1, 2, BranchFalse) \<in> set (g_edges (c_graph loop_cfg)) \<and> transfers loop_program 3 BranchFalse 4"
proof -
  have "transfers loop_program 3 BranchFalse 4"
    by (simp add: transfers_def loop_program_def)
  with build_cfg_simulates [OF build_loop_cfg this] show ?thesis
    by (auto simp: block_at_def loop_cfg_def)
qed


text \<open>
  C38: \<open>build_cfg\<close> never reaches its \<open>unreachable!\<close> arm, and it fails exactly on the empty
  program and on a program with a jump that does not resolve, with the first such jump's error.
\<close>

theorem build_cfg_total:
  "case build_cfg po insns of
     None \<Rightarrow> False
   | Some (Inr cfg) \<Rightarrow> insns \<noteq> [] \<and> (\<forall>i < length insns. \<forall>w op dst src offset.
        insns ! i = Jump w op dst src offset \<longrightarrow> is_ok (resolve_jump insns i offset))
   | Some (Inl e) \<Rightarrow> (insns = [] \<and> e = EmptyProgram)
      \<or> (\<exists>i < length insns. \<exists>w op dst src offset. insns ! i = Jump w op dst src offset
           \<and> resolve_jump insns i offset = Inl e
           \<and> (\<forall>j < i. \<forall>w op dst src offset.
                insns ! j = Jump w op dst src offset \<longrightarrow> is_ok (resolve_jump insns j offset)))"
proof (cases "insns = []")
  case True
  then show ?thesis by (simp add: build_cfg_def)
next
  case False
  let ?f = "\<lambda>(i, insn). case insn of
      Jump _ _ _ _ offset \<Rightarrow> bind_res (resolve_jump insns i offset) (\<lambda>t. Inr (Some t)) | _ \<Rightarrow> Inr None"
  have targets: "jump_targets insns slot_of dec = traverse ?f (enumerate 0 insns)"
    if "slot_maps insns = (slot_of, dec)" for slot_of dec
    unfolding jump_targets_def resolve_jump_def that Let_def prod.case by (rule refl)
  have ok_at: "is_ok (?f (j, insns ! j)) \<longleftrightarrow> (\<forall>w op dst src offset.
      insns ! j = Jump w op dst src offset \<longrightarrow> is_ok (resolve_jump insns j offset))" for j
    by (cases "insns ! j") auto
  from False show ?thesis
  proof (cases rule: build_cfg_cases [where po = po])
    case (error e slot_of dec)
    then have "traverse ?f (enumerate 0 insns) = Inl e" using targets by simp
    then obtain i where i: "i < length insns" "?f (i, insns ! i) = Inl e"
      "\<forall>j < i. is_ok (?f (j, insns ! j))"
      by (auto simp: traverse_Inl nth_enumerate_eq)
    from i(2) have "\<exists>w op dst src offset. insns ! i = Jump w op dst src offset
        \<and> resolve_jump insns i offset = Inl e"
      by (cases "insns ! i") (auto simp: bind_res_eq_Inl)
    with i(1,3) error(3) show ?thesis unfolding ok_at by auto
  next
    case (built slot_of dec targets ls bs cfg)
    with False jump_targets_nth(3) [OF built(1,2)] show ?thesis by fastforce
  qed
qed

theorem build_cfg_total_witness:
  "is_ok (resolve_jump loop_program 3 (- 2)) \<and> build_cfg dfs_post [] \<noteq> None"
proof -
  have "build_cfg dfs_post [] \<noteq> None" using build_cfg_total [where po = dfs_post and insns = "[]"] by (cases "build_cfg dfs_post []") auto
  moreover have "3 < length loop_program" "\<exists>w op dst src. loop_program ! 3 = Jump w op dst src (- 2)"
    by (simp_all add: loop_program_def numeral_3_eq_3)
  ultimately show ?thesis
    using build_cfg_total [where po = dfs_post and insns = loop_program] unfolding build_loop_cfg by auto
qed

lemma reach_eq:
  "s \<in> S \<Longrightarrow> R `` S \<subseteq> S \<Longrightarrow> (\<And>x. x \<in> S \<Longrightarrow> (s, x) \<in> R\<^sup>*) \<Longrightarrow> R\<^sup>* `` {s} = S"
  by (metis Image_closed_trancl Image_mono Image_singleton_iff empty_subsetI insert_subset subsetI
      subset_antisym order_refl)

lemma loop_post_order_spec: "post_order_spec dfs_post (c_graph loop_cfg)"
proof -
  have e: "edge_rel (c_graph loop_cfg) = {(0, 1), (1, 1), (1, 2)}"
    by (auto simp: edge_rel_def loop_cfg_def)
  have "{(0, 1), (1, 1), (1, 2)}\<^sup>* `` {0 :: nat} = {0, 1, 2}"
    "{(0, 1), (1, 1), (1, 2)}\<^sup>* `` {1 :: nat} = {1, 2}"
    "{(0, 1), (1, 1), (1, 2)}\<^sup>* `` {2 :: nat} = {2}"
    by (rule reach_eq; auto intro: rtrancl_into_rtrancl)+
  moreover have "dfs_post (c_graph loop_cfg) 1 = [2, 1]" "dfs_post (c_graph loop_cfg) 2 = [2]"
    unfolding loop_cfg_def by code_simp+
  moreover have "s < 3 \<longleftrightarrow> s = 0 \<or> s = 1 \<or> s = 2" for s :: nat by auto
  moreover have "length (g_nodes (c_graph loop_cfg)) = 3" by (simp add: loop_cfg_def)
  ultimately show ?thesis
    by (auto simp: post_order_spec_def e loop_post simp del: One_nat_def)
qed

text \<open>
  C28: with petgraph's documented post-order, \<open>rpo\<close> lists blocks once each, starts with the
  entry block, and contains the block of every instruction that execution can reach from the
  first one.
\<close>

theorem rpo_covers_reachable:
  assumes "build_cfg po insns = Some (Inr cfg)" "post_order_spec po (c_graph cfg)"
    and "(0, pc) \<in> (step_rel insns)\<^sup>*"
  shows "distinct (c_rpo cfg) \<and> hd (c_rpo cfg) = c_entry cfg \<and> block_at cfg pc \<in> set (c_rpo cfg)"
  by (rule rpo_covers_reachable_aux [OF assms])

theorem rpo_covers_reachable_witness: "block_at loop_cfg 4 \<in> set (c_rpo loop_cfg)"
proof -
  have "transfers loop_program 0 Fallthrough 1" "transfers loop_program 1 Fallthrough 2"
    "transfers loop_program 2 Fallthrough 3" "transfers loop_program 3 BranchFalse 4"
    by (simp_all add: transfers_def loop_program_def)
  then have "(0, 1) \<in> step_rel loop_program" "(1, 2) \<in> step_rel loop_program"
    "(2, 3) \<in> step_rel loop_program" "(3, 4) \<in> step_rel loop_program"
    by (auto simp: step_rel_def simp del: One_nat_def)
  then have "(0, 4) \<in> (step_rel loop_program)\<^sup>*"
    by (meson rtrancl.simps)
  from rpo_covers_reachable [OF build_loop_cfg loop_post_order_spec this] show ?thesis by blast
qed

end
