(* ===== verification/Memory.thy ===== *)
theory Memory
  imports Isa
begin

text \<open>
  The guest memory of \<open>crates/ebpf-vm/src/memory.rs\<close>: the stack with its per-byte
  initialisation bitmap (\<open>StackMemory\<close>), the read-only packet, context and data regions, the
  map scratch area and the \<open>MemoryView\<close> that dispatches on the address.  An address is an
  \<open>i64\<close>, compared through \<open>sint\<close>; a slice is a byte list and an index a natural.  The lemmas
  relate every access to an abstract byte memory, \<open>mem_byte\<close>.
\<close>


section \<open>Layout\<close>

definition STACK_SIZE :: nat where "STACK_SIZE = 512"
definition STACK_BASE :: i64 where "STACK_BASE = 0x10000"
definition PACKET_BASE :: i64 where "PACKET_BASE = 0x20000"
definition MAP_SCRATCH_BASE :: i64 where "MAP_SCRATCH_BASE = 0x30000"
definition XDP_MD_BASE :: i64 where "XDP_MD_BASE = 0x40000"
definition XDP_MD_LEN :: nat where "XDP_MD_LEN = 8"
definition RODATA_BASE :: i64 where "RODATA_BASE = 0x50000"
definition STACK_LOW :: i64 where "STACK_LOW = STACK_BASE - 512"

lemmas layout_defs = STACK_SIZE_def STACK_BASE_def PACKET_BASE_def MAP_SCRATCH_BASE_def
  XDP_MD_BASE_def XDP_MD_LEN_def RODATA_BASE_def STACK_LOW_def

datatype mem_error =
    OutOfBounds i64 nat
  | StackOverflow i64 nat
  | UninitializedRead i64 nat
  | NoPacket
  | Misaligned i64 nat nat

datatype mem_region = RStack | RPacket | RMapScratch | RXdpMd | RRodata | RUnknown

definition check_alignment :: "i64 \<Rightarrow> mem_size \<Rightarrow> mem_error + unit" where
  "check_alignment addr sz =
     (let align = mem_bytes sz in
      if 1 < align \<and> addr AND (word_of_nat align - 1) \<noteq> 0
      then Inl (Misaligned addr (mem_bytes sz) (mem_bytes sz)) else Inr ())"

definition check_alignment_if :: "bool \<Rightarrow> i64 \<Rightarrow> mem_size \<Rightarrow> mem_error + unit" where
  "check_alignment_if align_checks addr sz =
     (if align_checks then check_alignment addr sz else Inr ())"


section \<open>Byte regions\<close>

text \<open>
  \<open>addr.checked_sub(base)\<close>, \<open>usize::try_from\<close> and the filter on the end of the access: the
  offset into a region of \<open>len\<close> bytes.
\<close>

definition region_off :: "i64 \<Rightarrow> nat \<Rightarrow> i64 \<Rightarrow> nat \<Rightarrow> nat option" where
  "region_off base len addr width =
     (case checked_i64 (sint addr - sint base) of
        None \<Rightarrow> None
      | Some off \<Rightarrow> if off < 0 then None else if nat off + width \<le> len then Some (nat off) else None)"

text \<open>\<open>v |= i64::from(*b) << (8 * i)\<close> over the bytes of a slice.\<close>

definition or_bytes :: "u8 list \<Rightarrow> i64" where
  "or_bytes bs = fold (\<lambda>(i, b) v. v OR push_bit (8 * i) (ucast b)) (enumerate 0 bs) 0"

definition byte_slice :: "nat \<Rightarrow> nat \<Rightarrow> 'a list \<Rightarrow> 'a list" where
  "byte_slice off width bs = take width (drop off bs)"

definition region_load :: "i64 \<Rightarrow> u8 list \<Rightarrow> bool \<Rightarrow> i64 \<Rightarrow> mem_size \<Rightarrow> mem_error + i64" where
  "region_load base bytes align_checks addr sz =
     (let width = mem_bytes sz in
      bind_res (ok_or (region_off base (length bytes) addr width) (OutOfBounds addr (mem_bytes sz))) (\<lambda>off.
      bind_res (check_alignment_if align_checks addr sz) (\<lambda>_.
      Inr (or_bytes (byte_slice off width bytes)))))"

text \<open>\<open>PacketBuffer::load\<close>.\<close>

definition packet_load :: "u8 list \<Rightarrow> i64 \<Rightarrow> mem_size \<Rightarrow> bool \<Rightarrow> mem_error + i64" where
  "packet_load packet addr sz align_checks = region_load PACKET_BASE packet align_checks addr sz"

text \<open>\<open>bytes[i..i + n].copy_from_slice(src)\<close>.\<close>

definition splice :: "nat \<Rightarrow> 'a list \<Rightarrow> 'a list \<Rightarrow> 'a list" where
  "splice i src bytes = take i bytes @ src @ drop (i + length src) bytes"


section \<open>The stack\<close>

record stack_memory =
  st_bytes :: "u8 list"
  st_init :: "u64 list"

definition stack_default :: stack_memory where
  "stack_default = \<lparr>st_bytes = replicate STACK_SIZE 0, st_init = replicate (STACK_SIZE div 64) 0\<rparr>"

definition stack_index :: "i64 \<Rightarrow> mem_size \<Rightarrow> mem_error + nat" where
  "stack_index addr sz =
     bind_res (ok_or (checked_i64 (sint addr - sint STACK_LOW)) (StackOverflow addr (mem_bytes sz))) (\<lambda>off.
       if off < 0 \<or> off > 512 - int (mem_bytes sz)
       then Inl (StackOverflow addr (mem_bytes sz)) else Inr (nat off))"

definition is_init :: "u64 list \<Rightarrow> nat \<Rightarrow> nat \<Rightarrow> bool" where
  "is_init initialized i width =
     (let w = drop_bit 6 i; b = i AND 63 in
      if b + width \<le> 64 then
        let mask = push_bit b (push_bit width 1 - 1) in (initialized ! w) AND mask = mask
      else
        let first = 64 - b;
            mask_lo = push_bit b (- 1);
            mask_hi = push_bit (width - first) 1 - 1
        in (initialized ! w) AND mask_lo = mask_lo \<and> (initialized ! (w + 1)) AND mask_hi = mask_hi)"

definition mark_init :: "u64 list \<Rightarrow> nat \<Rightarrow> nat \<Rightarrow> u64 list" where
  "mark_init initialized i width =
     (let w = drop_bit 6 i; b = i AND 63 in
      if b + width \<le> 64 then
        initialized[w := initialized ! w OR push_bit b (push_bit width 1 - 1)]
      else
        let first = 64 - b;
            init1 = initialized[w := initialized ! w OR push_bit b (- 1)]
        in init1[w + 1 := init1 ! (w + 1) OR (push_bit (width - first) 1 - 1)])"

definition stack_load :: "stack_memory \<Rightarrow> i64 \<Rightarrow> mem_size \<Rightarrow> bool \<Rightarrow> mem_error + i64" where
  "stack_load st addr sz align_checks =
     bind_res (stack_index addr sz) (\<lambda>i.
     bind_res (check_alignment_if align_checks addr sz) (\<lambda>_.
       let width = mem_bytes sz in
       if \<not> is_init (st_init st) i width then Inl (UninitializedRead addr (mem_bytes sz))
       else Inr (case sz of
           SzB \<Rightarrow> ucast (st_bytes st ! i)
         | SzH \<Rightarrow> ucast (from_le (byte_slice i 2 (st_bytes st)) :: u16)
         | SzW \<Rightarrow> ucast (from_le (byte_slice i 4 (st_bytes st)) :: u32)
         | SzDw \<Rightarrow> from_le (byte_slice i 8 (st_bytes st)))))"

definition stack_store :: "stack_memory \<Rightarrow> i64 \<Rightarrow> mem_size \<Rightarrow> i64 \<Rightarrow> bool \<Rightarrow> mem_error + stack_memory" where
  "stack_store st addr sz v align_checks =
     bind_res (stack_index addr sz) (\<lambda>i.
     bind_res (check_alignment_if align_checks addr sz) (\<lambda>_.
       let le = to_le 8 v;
           bytes = (case sz of
               SzB \<Rightarrow> (st_bytes st)[i := le ! 0]
             | SzH \<Rightarrow> splice i (take 2 le) (st_bytes st)
             | SzW \<Rightarrow> splice i (take 4 le) (st_bytes st)
             | SzDw \<Rightarrow> splice i le (st_bytes st))
       in Inr \<lparr>st_bytes = bytes, st_init = mark_init (st_init st) i (mem_bytes sz)\<rparr>))"


section \<open>The memory view\<close>

record memory =
  m_stack :: stack_memory
  m_packet :: "u8 list option"
  m_xdp_md :: "u8 list"
  m_scratch :: "u8 list"
  m_rodata :: "u8 list option"
  m_align :: bool

definition memory_default :: memory where
  "memory_default = \<lparr>m_stack = stack_default, m_packet = None, m_xdp_md = replicate XDP_MD_LEN 0,
     m_scratch = [], m_rodata = None, m_align = True\<rparr>"

definition classify :: "i64 \<Rightarrow> mem_region" where
  "classify addr =
     (if sint STACK_LOW \<le> sint addr \<and> sint addr \<le> sint STACK_BASE then RStack
      else if sint RODATA_BASE \<le> sint addr then RRodata
      else if sint XDP_MD_BASE \<le> sint addr then RXdpMd
      else if sint MAP_SCRATCH_BASE \<le> sint addr then RMapScratch
      else if sint PACKET_BASE \<le> sint addr then RPacket
      else RUnknown)"

text \<open>\<open>u32::try_from(x).unwrap_or(u32::MAX)\<close>.\<close>

definition u32_or_max :: "int \<Rightarrow> u32" where
  "u32_or_max x = (if 0 \<le> x \<and> x < 2 ^ 32 then word_of_int x else - 1)"

definition set_packet :: "u8 list \<Rightarrow> memory \<Rightarrow> memory" where
  "set_packet packet m =
     (let len = length packet;
          data = sint PACKET_BASE;
          end_addr = saturate_i64 (sint PACKET_BASE + (if in_i64 (int len) then int len else i64_max))
      in m\<lparr>m_packet := Some packet,
           m_xdp_md := to_le 4 (u32_or_max data) @ to_le 4 (u32_or_max end_addr)\<rparr>)"

definition clear_packet :: "memory \<Rightarrow> memory" where
  "clear_packet m = m\<lparr>m_packet := None, m_xdp_md := replicate XDP_MD_LEN 0\<rparr>"

definition packet_len :: "memory \<Rightarrow> nat option" where
  "packet_len m = map_option length (m_packet m)"

definition set_map_scratch :: "u8 list \<Rightarrow> memory \<Rightarrow> memory" where
  "set_map_scratch v m = m\<lparr>m_scratch := v\<rparr>"

definition set_rodata :: "u8 list \<Rightarrow> memory \<Rightarrow> memory" where
  "set_rodata data m = m\<lparr>m_rodata := Some data\<rparr>"

definition rodata_len :: "memory \<Rightarrow> nat" where
  "rodata_len m = (case m_rodata m of None \<Rightarrow> 0 | Some d \<Rightarrow> length d)"

definition set_align_checks :: "bool \<Rightarrow> memory \<Rightarrow> memory" where
  "set_align_checks enabled m = m\<lparr>m_align := enabled\<rparr>"

definition xdp_md_load :: "memory \<Rightarrow> i64 \<Rightarrow> mem_size \<Rightarrow> mem_error + i64" where
  "xdp_md_load m addr sz = region_load XDP_MD_BASE (m_xdp_md m) (m_align m) addr sz"

definition scratch_load :: "memory \<Rightarrow> i64 \<Rightarrow> mem_size \<Rightarrow> mem_error + i64" where
  "scratch_load m addr sz = region_load MAP_SCRATCH_BASE (m_scratch m) (m_align m) addr sz"

definition rodata_load :: "memory \<Rightarrow> i64 \<Rightarrow> mem_size \<Rightarrow> mem_error + i64" where
  "rodata_load m addr sz =
     bind_res (ok_or (m_rodata m) (OutOfBounds addr (mem_bytes sz))) (\<lambda>data.
       region_load RODATA_BASE data (m_align m) addr sz)"

definition mem_load :: "memory \<Rightarrow> i64 \<Rightarrow> mem_size \<Rightarrow> mem_error + i64" where
  "mem_load m addr sz =
     (case classify addr of
        RStack \<Rightarrow> stack_load (m_stack m) addr sz (m_align m)
      | RPacket \<Rightarrow> (case m_packet m of
            None \<Rightarrow> Inl NoPacket
          | Some packet \<Rightarrow> packet_load packet addr sz (m_align m))
      | RMapScratch \<Rightarrow> scratch_load m addr sz
      | RXdpMd \<Rightarrow> xdp_md_load m addr sz
      | RRodata \<Rightarrow> rodata_load m addr sz
      | RUnknown \<Rightarrow> Inl (OutOfBounds addr (mem_bytes sz)))"

definition scratch_store :: "memory \<Rightarrow> i64 \<Rightarrow> mem_size \<Rightarrow> i64 \<Rightarrow> mem_error + memory" where
  "scratch_store m addr sz v =
     (let width = mem_bytes sz in
      bind_res (ok_or (region_off MAP_SCRATCH_BASE (length (m_scratch m)) addr width)
                  (OutOfBounds addr (mem_bytes sz))) (\<lambda>off.
      bind_res (check_alignment_if (m_align m) addr sz) (\<lambda>_.
      Inr (m\<lparr>m_scratch := splice off (take width (to_le 8 v)) (m_scratch m)\<rparr>))))"

definition mem_store :: "memory \<Rightarrow> i64 \<Rightarrow> mem_size \<Rightarrow> i64 \<Rightarrow> mem_error + memory" where
  "mem_store m addr sz v =
     (case classify addr of
        RStack \<Rightarrow> bind_res (stack_store (m_stack m) addr sz v (m_align m)) (\<lambda>st. Inr (m\<lparr>m_stack := st\<rparr>))
      | RMapScratch \<Rightarrow> scratch_store m addr sz v
      | _ \<Rightarrow> Inl (OutOfBounds addr (mem_bytes sz)))"


section \<open>Byte runs\<close>

text \<open>
  \<open>load_bytes_bulk\<close>: \<open>None\<close> sends \<open>load_bytes\<close> to the byte-wise loop, which reports the exact
  failing byte.
\<close>

definition stack_bulk :: "stack_memory \<Rightarrow> i64 \<Rightarrow> nat \<Rightarrow> u8 list option" where
  "stack_bulk st addr len =
     (case checked_i64 (sint addr - sint STACK_LOW) of
        None \<Rightarrow> None
      | Some o' \<Rightarrow>
          if o' < 0 then None
          else let off = nat o'; end_off = off + len in
               if STACK_SIZE < end_off \<or> \<not> list_all (\<lambda>i. is_init (st_init st) i 1) [off..<end_off] then None
               else Some (byte_slice off len (st_bytes st)))"

definition region_bulk :: "i64 \<Rightarrow> u8 list \<Rightarrow> i64 \<Rightarrow> nat \<Rightarrow> u8 list option" where
  "region_bulk base bytes addr len =
     (case region_off base (length bytes) addr len of
        None \<Rightarrow> None
      | Some off \<Rightarrow> Some (byte_slice off len bytes))"

definition load_bytes_bulk :: "memory \<Rightarrow> i64 \<Rightarrow> nat \<Rightarrow> u8 list option" where
  "load_bytes_bulk m addr len =
     (case classify addr of
        RStack \<Rightarrow> stack_bulk (m_stack m) addr len
      | RPacket \<Rightarrow> (case m_packet m of None \<Rightarrow> None
                     | Some packet \<Rightarrow> region_bulk PACKET_BASE packet addr len)
      | RMapScratch \<Rightarrow> region_bulk MAP_SCRATCH_BASE (m_scratch m) addr len
      | RXdpMd \<Rightarrow> region_bulk XDP_MD_BASE (m_xdp_md m) addr len
      | RRodata \<Rightarrow> (case m_rodata m of None \<Rightarrow> None
                     | Some data \<Rightarrow> region_bulk RODATA_BASE data addr len)
      | RUnknown \<Rightarrow> None)"

fun load_bytes_slow :: "memory \<Rightarrow> i64 \<Rightarrow> nat \<Rightarrow> mem_error + u8 list" where
  "load_bytes_slow m a 0 = Inr []"
| "load_bytes_slow m a (Suc len) =
     bind_res (mem_load m a SzB) (\<lambda>b.
     bind_res (load_bytes_slow m (a + 1) len) (\<lambda>rest. Inr (ucast b # rest)))"

definition load_bytes :: "memory \<Rightarrow> i64 \<Rightarrow> nat \<Rightarrow> mem_error + u8 list" where
  "load_bytes m addr len =
     (if len = 0 then Inr []
      else case load_bytes_bulk m addr len of
             Some bytes \<Rightarrow> Inr bytes
           | None \<Rightarrow> load_bytes_slow m addr len)"



section \<open>Offsets, slices and the bitmap\<close>

lemma sint_layout [simp]:
  "sint STACK_BASE = 0x10000" "sint PACKET_BASE = 0x20000" "sint MAP_SCRATCH_BASE = 0x30000"
  "sint XDP_MD_BASE = 0x40000" "sint RODATA_BASE = 0x50000" "sint STACK_LOW = 0xFE00"
  by (simp_all add: layout_defs)

lemma region_off_iff:
  "0 \<le> sint base \<Longrightarrow>
     region_off base len addr w = Some off \<longleftrightarrow> sint addr = sint base + int off \<and> off + w \<le> len"
  using sint_in_i64 [of addr] sint_in_i64 [of base]
  by (auto simp: region_off_def checked_i64_def i64_bounds)

lemma mem_bytes_neq_0: "mem_bytes sz \<noteq> 0"
  using mem_bytes_bounds [of sz] by simp

lemma stack_index_iff:
  "stack_index addr sz = Inr i \<longleftrightarrow> sint addr = sint STACK_LOW + int i \<and> i + mem_bytes sz \<le> 512"
  using sint_in_i64 [of addr] mem_bytes_bounds [of sz]
  by (auto simp: stack_index_def i64_bounds)

lemma stack_index_Inl:
  "stack_index addr sz = Inl e \<Longrightarrow> e = StackOverflow addr (mem_bytes sz)"
  by (auto simp: stack_index_def bind_res_eq_Inl ok_or_eq_Inl split: if_splits)

lemma or_bytes_fold:
  "fold (\<lambda>(i, b) v. v OR push_bit (8 * i) (ucast b)) (enumerate k bs) v
     = v OR push_bit (8 * k) (from_le bs :: i64)"
proof (induction bs arbitrary: k v)
  case Nil
  then show ?case by simp
next
  case (Cons b bs)
  then show ?case
    by (simp add: push_bit_or ac_simps push_bit_push_bit)
qed

lemma or_bytes_eq [simp]: "or_bytes bs = from_le bs"
  by (simp add: or_bytes_def or_bytes_fold)

lemma length_byte_slice [simp]: "off + w \<le> length bs \<Longrightarrow> length (byte_slice off w bs) = w"
  by (simp add: byte_slice_def)

lemma nth_byte_slice [simp]: "k < w \<Longrightarrow> off + w \<le> length bs \<Longrightarrow> byte_slice off w bs ! k = bs ! (off + k)"
  by (simp add: byte_slice_def)

lemma slice_map: "byte_slice off w (map f xs) = map f (byte_slice off w xs)"
  by (simp add: byte_slice_def take_map drop_map)

lemma slice_one: "i < length bs \<Longrightarrow> byte_slice i 1 bs = [bs ! i]"
  by (simp add: byte_slice_def take_Suc_conv_app_nth Cons_nth_drop_Suc [symmetric])

lemma length_splice [simp]: "i + length src \<le> length bs \<Longrightarrow> length (splice i src bs) = length bs"
  by (simp add: splice_def)

lemma nth_splice:
  "i + length src \<le> length bs \<Longrightarrow> j < length bs \<Longrightarrow>
     splice i src bs ! j = (if i \<le> j \<and> j < i + length src then src ! (j - i) else bs ! j)"
  by (auto simp: splice_def nth_append)

lemma splice_one: "i < length bs \<Longrightarrow> splice i [x] bs = bs[i := x]"
  by (simp add: splice_def upd_conv_take_nth_drop)

text \<open>The initialisation bit of one stack byte.\<close>

definition byte_init :: "u64 list \<Rightarrow> nat \<Rightarrow> bool" where
  "byte_init initialized j = bit (initialized ! (j div 64)) (j mod 64)"

lemma and_eq_iff: "x AND m = m \<longleftrightarrow> (\<forall>n. bit m n \<longrightarrow> bit (x :: 'a::len word) n)"
  by (auto simp: bit_eq_iff bit_simps dest: bit_imp_le_length)

lemma bit_low_mask: "bit (2 ^ w - 1 :: u64) n \<longleftrightarrow> n < 64 \<and> n < w"
  by (simp add: mask_eq_exp_minus_1 [symmetric] bit_mask_iff)

lemma bit_shifted_mask: "bit (push_bit b (2 ^ w - 1) :: u64) n \<longleftrightarrow> n < 64 \<and> b \<le> n \<and> n < b + w"
  by (auto simp: bit_push_bit_iff bit_low_mask)

lemma bit_high_mask: "bit (NOT (mask b) :: u64) n \<longleftrightarrow> n < 64 \<and> b \<le> n"
  by (auto simp: bit_simps)

lemma word_index: "drop_bit 6 (i :: nat) = i div 64" "i AND 63 = i mod 64"
proof -
  have "i AND 63 = take_bit 6 i"
    using take_bit_eq_mask [of 6 i] by (simp add: mask_eq_exp_minus_1)
  then show "i AND 63 = i mod 64" by (simp add: take_bit_eq_mod)
qed (simp add: drop_bit_eq_div)

lemma byte_init_at:
  "b < 128 \<Longrightarrow> byte_init initialized (64 * w + b) =
     (if b < 64 then bit (initialized ! w) b else bit (initialized ! (w + 1)) (b - 64))"
proof (cases "b < 64")
  case False
  then obtain c where "b = 64 + c" by (metis add_diff_inverse_nat)
  moreover assume "b < 128"
  ultimately have "64 * w + b = 64 * (w + 1) + c" "c < 64" by simp_all
  then have "(64 * w + b) div 64 = w + 1" "(64 * w + b) mod 64 = c"
    by (simp_all only: div_mult_self4 mod_mult_self4 div_less mod_less)
  then show ?thesis using \<open>b = 64 + c\<close> by (simp add: byte_init_def)
qed (simp add: byte_init_def)

lemma all_shift: "(\<forall>n. b \<le> n \<and> n < b + w \<longrightarrow> P n) \<longleftrightarrow> (\<forall>d < w :: nat. P (b + d))"
  by (metis add_less_cancel_left le_add1 le_add_diff_inverse)

lemma all_split:
  "k \<le> w \<Longrightarrow> (\<forall>d < w :: nat. P d) \<longleftrightarrow> (\<forall>d < k. P d) \<and> (\<forall>d < w - k. P (k + d))"
  by (metis add_diff_inverse_nat less_diff_conv2 add.commute less_diff_conv less_le_trans not_less)

text \<open>The bitmap test over a run of at most 64 bytes is the conjunction of their bits.\<close>

lemma is_init_iff:
  assumes "0 < width" "width \<le> 64"
  shows "is_init initialized i width \<longleftrightarrow> (\<forall>d < width. byte_init initialized (i + d))"
proof -
  define w b where "w = i div 64" and "b = i mod 64"
  have i: "i = 64 * w + b" "b < 64" by (simp_all add: w_def b_def)
  have at: "byte_init initialized (i + d) =
      (if b + d < 64 then bit (initialized ! w) (b + d) else bit (initialized ! (w + 1)) (b + d - 64))"
    if "d < width" for d
    using byte_init_at [of "b + d" initialized w] i that assms by (simp add: ac_simps)
  note unfold = is_init_def word_index w_def [symmetric] b_def [symmetric] Let_def and_eq_iff
  show ?thesis
  proof (cases "b + width \<le> 64")
    case True
    then have "is_init initialized i width \<longleftrightarrow> (\<forall>n. b \<le> n \<and> n < b + width \<longrightarrow> bit (initialized ! w) n)"
      by (auto simp: unfold bit_shifted_mask)
    with True at show ?thesis by (auto simp: all_shift)
  next
    case False
    then have "is_init initialized i width \<longleftrightarrow>
        (\<forall>n. b \<le> n \<and> n < b + (64 - b) \<longrightarrow> bit (initialized ! w) n)
        \<and> (\<forall>n < width - (64 - b). bit (initialized ! (w + 1)) n)"
      using assms i by (auto simp: unfold bit_high_mask bit_low_mask)
    moreover have "byte_init initialized (i + d) = bit (initialized ! w) (b + d)" if "d < 64 - b" for d
      using at [of d] that False i(2) by (simp add: less_diff_conv add.commute)
    moreover have "byte_init initialized (i + (64 - b + d)) = bit (initialized ! (w + 1)) d"
      if "d < width - (64 - b)" for d
      using at [of "64 - b + d"] that False i(2) by simp
    ultimately show ?thesis
      using False by (subst all_split [of "64 - b" width]) (simp_all add: all_shift)
  qed
qed

lemma block_le:
  "b < 64 \<Longrightarrow> b' < 64 \<Longrightarrow> 64 * w + b \<le> 64 * w' + b' \<longleftrightarrow> w < w' \<or> w = w' \<and> b \<le> (b' :: nat)"
  by (cases w w' rule: linorder_cases) auto

lemma bit_or_word: "bit (x OR y :: u64) n \<longleftrightarrow> bit x n \<or> bit y n"
  by (simp add: bit_or_iff)

lemma mark_init_length [simp]: "length (mark_init initialized i width) = length initialized"
  by (simp add: mark_init_def Let_def)

lemma byte_init_mark_init:
  assumes "0 < width" "width \<le> 64" "i + width \<le> 64 * length initialized" "j < 64 * length initialized"
  shows "byte_init (mark_init initialized i width) j \<longleftrightarrow>
     byte_init initialized j \<or> i \<le> j \<and> j < i + width"
proof -
  define w b where "w = i div 64" and "b = i mod 64"
  define w' b' where "w' = j div 64" and "b' = j mod 64"
  have i: "i = 64 * w + b" "b < 64" by (simp_all add: w_def b_def)
  have j: "j = 64 * w' + b'" "b' < 64" by (simp_all add: w'_def b'_def)
  have w: "w < length initialized" "w' < length initialized" using i j assms by auto
  note unfold = byte_init_def mark_init_def word_index w_def [symmetric] b_def [symmetric]
    w'_def [symmetric] b'_def [symmetric] Let_def
  show ?thesis
  proof (cases "b + width \<le> 64")
    case True
    then have "i \<le> j \<and> j < i + width \<longleftrightarrow> w' = w \<and> b \<le> b' \<and> b' < b + width"
      using i j block_le [of b b' w w'] block_le [of b' b w' w] by auto
    with True w j show ?thesis
      by (auto simp: unfold nth_list_update bit_or_word bit_shifted_mask)
  next
    case False
    then have "i \<le> j \<and> j < i + width \<longleftrightarrow>
        w' = w \<and> b \<le> b' \<or> w' = w + 1 \<and> b' < width - (64 - b)"
      using False i j assms(1,2) block_le [of b b' w w'] block_le [of "b + width - 64" b' "w + 1" w']
      by (auto simp: not_le [symmetric])
    moreover have "w + 1 < length initialized" using False assms i by auto
    ultimately show ?thesis
      using False w j
      by (auto simp: unfold nth_list_update bit_or_word bit_high_mask bit_low_mask)
  qed
qed


section \<open>An abstract byte memory\<close>

text \<open>
  What each region holds: the bytes a load can read, \<open>None\<close> where it cannot (a stack byte that
  was never written).
\<close>

definition region_base :: "mem_region \<Rightarrow> i64" where
  "region_base r = (case r of RStack \<Rightarrow> STACK_LOW | RPacket \<Rightarrow> PACKET_BASE
     | RMapScratch \<Rightarrow> MAP_SCRATCH_BASE | RXdpMd \<Rightarrow> XDP_MD_BASE | RRodata \<Rightarrow> RODATA_BASE
     | RUnknown \<Rightarrow> 0)"

definition region_view :: "memory \<Rightarrow> mem_region \<Rightarrow> u8 option list" where
  "region_view m r = (case r of
       RStack \<Rightarrow> map (\<lambda>i. if byte_init (st_init (m_stack m)) i then Some (st_bytes (m_stack m) ! i) else None)
                   [0..<STACK_SIZE]
     | RPacket \<Rightarrow> (case m_packet m of None \<Rightarrow> [] | Some p \<Rightarrow> map Some p)
     | RMapScratch \<Rightarrow> map Some (m_scratch m)
     | RXdpMd \<Rightarrow> map Some (m_xdp_md m)
     | RRodata \<Rightarrow> (case m_rodata m of None \<Rightarrow> [] | Some d \<Rightarrow> map Some d)
     | RUnknown \<Rightarrow> [])"

definition mem_byte :: "memory \<Rightarrow> i64 \<Rightarrow> u8 option" where
  "mem_byte m addr =
     (let view = region_view m (classify addr);
          i = nat (sint addr - sint (region_base (classify addr)))
      in if i < length view then view ! i else None)"

text \<open>The byte arrays have their sizes and no region runs into the next one.\<close>

definition mem_wf :: "memory \<Rightarrow> bool" where
  "mem_wf m \<longleftrightarrow> length (st_bytes (m_stack m)) = 512 \<and> length (st_init (m_stack m)) = 8
     \<and> length (m_xdp_md m) = 8 \<and> length (m_scratch m) < 0x10000
     \<and> (case m_packet m of None \<Rightarrow> True | Some p \<Rightarrow> length p < 0x10000)
     \<and> (case m_rodata m of None \<Rightarrow> True | Some d \<Rightarrow> length d < 2 ^ 62)"

definition aligned :: "memory \<Rightarrow> i64 \<Rightarrow> mem_size \<Rightarrow> bool" where
  "aligned m addr sz \<longleftrightarrow> (m_align m \<longrightarrow> addr AND (word_of_nat (mem_bytes sz) - 1) = 0)"

lemma check_alignment_if_ok [simp]:
  "check_alignment_if (m_align m) addr sz = Inr u \<longleftrightarrow> aligned m addr sz"
  by (cases sz) (auto simp: check_alignment_if_def check_alignment_def aligned_def Let_def)

lemma aligned_byte [simp]: "aligned m addr SzB"
  by (simp add: aligned_def)

lemma region_load_iff:
  assumes "0 \<le> sint base"
  shows "region_load base bytes (m_align m) addr sz = Inr v \<longleftrightarrow> aligned m addr sz \<and>
    (\<exists>off. sint addr = sint base + int off \<and> off + mem_bytes sz \<le> length bytes
       \<and> v = from_le (byte_slice off (mem_bytes sz) bytes))"
  using assms by (auto simp: region_load_def region_off_iff Let_def)

lemma from_le_ucast:
  assumes "length bs * 8 \<le> LENGTH('a)" "LENGTH('a::len) \<le> LENGTH('b::len)"
  shows "ucast (from_le bs :: 'a word) = (from_le bs :: 'b word)"
proof (rule bit_eqI)
  fix n
  assume n: "possible_bit TYPE('b word) n"
  have "n div 8 < length bs \<Longrightarrow> n < LENGTH('a)" using assms(1) by (simp add: div_less_iff_less_mult)
  with n assms(2) show "bit (ucast (from_le bs :: 'a word) :: 'b word) n \<longleftrightarrow> bit (from_le bs :: 'b word) n"
    by (auto simp: bit_simps bit_from_le)
qed

lemma from_le_single [simp]: "from_le [b] = ucast b"
  by simp

lemma stack_load_iff:
  assumes "length (st_bytes st) = 512"
  shows "stack_load st addr sz (m_align m) = Inr v \<longleftrightarrow> aligned m addr sz \<and>
    (\<exists>off. sint addr = sint STACK_LOW + int off \<and> off + mem_bytes sz \<le> 512
       \<and> (\<forall>k < mem_bytes sz. byte_init (st_init st) (off + k))
       \<and> v = from_le (byte_slice off (mem_bytes sz) (st_bytes st)))"
proof -
  have v: "(case sz of
           SzB \<Rightarrow> ucast (st_bytes st ! i)
         | SzH \<Rightarrow> ucast (from_le (byte_slice i 2 (st_bytes st)) :: u16)
         | SzW \<Rightarrow> ucast (from_le (byte_slice i 4 (st_bytes st)) :: u32)
         | SzDw \<Rightarrow> from_le (byte_slice i 8 (st_bytes st))) = (from_le (byte_slice i (mem_bytes sz) (st_bytes st)) :: i64)"
    if "i + mem_bytes sz \<le> 512" for i
    using that assms by (cases sz) (simp_all add: from_le_ucast slice_one [simplified])
  have init: "is_init (st_init st) i (mem_bytes sz) \<longleftrightarrow> (\<forall>k < mem_bytes sz. byte_init (st_init st) (i + k))" for i
    using mem_bytes_bounds [of sz] by (intro is_init_iff) simp_all
  show ?thesis
    by (auto simp: stack_load_def stack_index_iff init v Let_def split: if_splits)
qed

lemma view_slice:
  assumes "off + w \<le> length view" "\<forall>k < w. view ! (off + k) = Some (bytes ! (off + k))"
    "length view = length bytes"
  shows "map the (byte_slice off w view) = byte_slice off w bytes"
  using assms by (intro nth_equalityI) simp_all

text \<open>A load succeeds exactly on readable bytes of the region its address lies in.\<close>

lemma mem_load_view:
  assumes "mem_wf m"
  shows "mem_load m addr sz = Inr v \<longleftrightarrow> aligned m addr sz \<and>
    (\<exists>off. sint addr = sint (region_base (classify addr)) + int off
       \<and> off + mem_bytes sz \<le> length (region_view m (classify addr))
       \<and> (\<forall>k < mem_bytes sz. region_view m (classify addr) ! (off + k) \<noteq> None)
       \<and> v = from_le (map the (byte_slice off (mem_bytes sz) (region_view m (classify addr)))))"
proof (cases "classify addr")
  case RStack
  let ?view = "region_view m RStack"
  have len: "length (st_bytes (m_stack m)) = 512" using assms by (simp add: mem_wf_def)
  have lv: "length ?view = 512" by (simp add: region_view_def STACK_SIZE_def)
  have nth: "?view ! i = (if byte_init (st_init (m_stack m)) i then Some (st_bytes (m_stack m) ! i) else None)"
    if "i < 512" for i using that by (simp add: region_view_def STACK_SIZE_def)
  have eq: "map the (byte_slice off w ?view) = byte_slice off w (st_bytes (m_stack m))"
    if "off + w \<le> 512" "\<forall>k < w. byte_init (st_init (m_stack m)) (off + k)" for off w
    using that len by (intro view_slice) (simp_all add: lv nth)
  have "off + w \<le> 512 \<Longrightarrow> (\<forall>k < w. ?view ! (off + k) \<noteq> None) \<longleftrightarrow>
      (\<forall>k < w. byte_init (st_init (m_stack m)) (off + k))" for off w
    by (auto simp: nth)
  then show ?thesis
    unfolding mem_load_def RStack mem_region.case stack_load_iff [OF len]
    by (auto simp: region_base_def lv eq)
qed (auto simp: mem_load_def packet_load_def xdp_md_load_def scratch_load_def rodata_load_def
    region_load_iff region_base_def region_view_def slice_map mem_bytes_neq_0 split: option.splits)


lemma sint_of_nat: "k < 2 ^ 63 \<Longrightarrow> sint (word_of_nat k :: i64) = int k"
  using sint_word_of_int_i64 [of "int k"] by (simp add: i64_bounds)

lemma sint_add_nat:
  "k < 2 ^ 63 \<Longrightarrow> sint addr + int k < 2 ^ 63 \<Longrightarrow> sint (addr + word_of_nat k :: i64) = sint addr + int k"
  using sint_add_i64 [of addr "word_of_nat k"] sint_in_i64 [of addr] by (simp add: sint_of_nat i64_bounds)

lemma region_base_le: "classify addr \<noteq> RUnknown \<Longrightarrow> sint (region_base (classify addr)) \<le> sint addr"
  by (auto simp: classify_def region_base_def)

lemma view_length:
  assumes "mem_wf m"
  shows "length (region_view m r) < 2 ^ 62"
    and "r \<noteq> RRodata \<Longrightarrow> length (region_view m r) < 0x10000"
    and "r = RStack \<Longrightarrow> length (region_view m r) = 512"
    and "r = RUnknown \<Longrightarrow> length (region_view m r) = 0"
  using assms by (auto simp: region_view_def mem_wf_def STACK_SIZE_def split: mem_region.splits option.splits)

text \<open>Addresses up to the end of a region's bytes stay in the region.\<close>

lemma same_region:
  assumes wf: "mem_wf m" and addr: "sint addr = sint (region_base (classify addr)) + int off"
    and k: "off + k \<le> length (region_view m (classify addr))" "classify addr \<noteq> RUnknown"
  shows "sint (addr + word_of_nat k) = sint addr + int k"
    and "classify (addr + word_of_nat k) = classify addr"
proof -
  note len = view_length [OF wf, of "classify addr"]
  have "sint (region_base (classify addr)) \<le> 0x50000"
    by (simp add: region_base_def split: mem_region.splits)
  with addr k(1) len(1) have "sint addr + int k < 2 ^ 63" "k < 2 ^ 63" by auto
  then show s: "sint (addr + word_of_nat k) = sint addr + int k"
    by (intro sint_add_nat)
  show "classify (addr + word_of_nat k) = classify addr"
    using addr k len(2,3)
    by (cases "classify addr") (auto simp: classify_def s region_base_def split: if_splits)
qed

lemma mem_byte_view:
  assumes "mem_wf m" "sint addr = sint (region_base (classify addr)) + int off"
    and "off + k \<le> length (region_view m (classify addr))" "classify addr \<noteq> RUnknown"
  shows "mem_byte m (addr + word_of_nat k) =
     (if off + k < length (region_view m (classify addr))
      then region_view m (classify addr) ! (off + k) else None)"
proof -
  have "nat (sint (addr + word_of_nat k) - sint (region_base (classify addr))) = off + k"
    using same_region(1) [OF assms] assms(2) by simp
  then show ?thesis
    using same_region(2) [OF assms] by (simp add: mem_byte_def)
qed

text \<open>A run of readable bytes lies in one region.\<close>

lemma readable_run:
  assumes wf: "mem_wf m" and len: "0 < len"
  shows "(\<forall>k < len. mem_byte m (addr + word_of_nat k) \<noteq> None) \<longleftrightarrow>
    (\<exists>off. sint addr = sint (region_base (classify addr)) + int off
       \<and> off + len \<le> length (region_view m (classify addr))
       \<and> (\<forall>k < len. region_view m (classify addr) ! (off + k) \<noteq> None))"
    (is "?all \<longleftrightarrow> (\<exists>off. ?run off)")
proof
  assume all: ?all
  let ?view = "region_view m (classify addr)"
  define off where "off = nat (sint addr - sint (region_base (classify addr)))"
  from spec [OF all, of 0] len have "mem_byte m addr \<noteq> None" by simp
  then have off: "off < length ?view" by (auto simp: mem_byte_def off_def Let_def split: if_splits)
  then have known: "classify addr \<noteq> RUnknown" using view_length(4) [OF wf] by fastforce
  then have addr: "sint addr = sint (region_base (classify addr)) + int off"
    using region_base_le by (simp add: off_def)
  have fit: "off + len \<le> length ?view"
  proof (rule ccontr)
    assume "\<not> ?thesis"
    then have "length ?view - off < len" "off + (length ?view - off) = length ?view" using off by auto
    with all mem_byte_view [OF wf addr _ known, of "length ?view - off"] show False by auto
  qed
  have "\<forall>k < len. ?view ! (off + k) \<noteq> None"
  proof (intro allI impI)
    fix k
    assume "k < len"
    with spec [OF all, of k] fit mem_byte_view [OF wf addr _ known, of k]
    show "?view ! (off + k) \<noteq> None" by simp
  qed
  with addr fit show "\<exists>off. ?run off" by blast
next
  assume "\<exists>off. ?run off"
  then obtain off where run: "?run off" by blast
  then have known: "classify addr \<noteq> RUnknown"
    using view_length(4) [OF wf, of "classify addr"] len by auto
  from run show ?all
    using mem_byte_view [OF wf _ _ known, of off] by auto
qed

lemma run_bytes:
  assumes wf: "mem_wf m" and "0 < len"
    and "sint addr = sint (region_base (classify addr)) + int off"
    and "off + len \<le> length (region_view m (classify addr))"
  shows "map the (byte_slice off len (region_view m (classify addr))) =
     map (\<lambda>k. the (mem_byte m (addr + word_of_nat k))) [0..<len]"
proof -
  have known: "classify addr \<noteq> RUnknown"
    using view_length(4) [OF wf, of "classify addr"] assms(2,4) by auto
  show ?thesis
    using assms(4) by (intro nth_equalityI) (simp_all add: mem_byte_view [OF wf assms(3) _ known])
qed

lemma mem_load_bytes:
  assumes wf: "mem_wf m"
  shows "mem_load m addr sz = Inr v \<longleftrightarrow> aligned m addr sz
    \<and> (\<forall>k < mem_bytes sz. mem_byte m (addr + word_of_nat k) \<noteq> None)
    \<and> v = from_le (map (\<lambda>k. the (mem_byte m (addr + word_of_nat k))) [0..<mem_bytes sz])"
  unfolding mem_load_view [OF wf] readable_run [OF wf mem_bytes_bounds(1)]
  using run_bytes [OF wf mem_bytes_bounds(1), of addr _ sz] by auto

lemma load_slow_iff:
  assumes wf: "mem_wf m"
  shows "load_bytes_slow m addr len = Inr bs \<longleftrightarrow>
    length bs = len \<and> (\<forall>k < len. mem_byte m (addr + word_of_nat k) = Some (bs ! k))"
proof (induction len arbitrary: addr bs)
  case 0
  then show ?case by auto
next
  case (Suc len)
  have byte: "mem_load m addr SzB = Inr b \<longleftrightarrow> (\<exists>x. mem_byte m addr = Some x \<and> b = ucast x)" for b
    by (auto simp: mem_load_bytes [OF wf])
  have u: "ucast (ucast (x :: u8) :: i64) = x" for x
    by (rule bit_eqI) (auto simp: bit_simps)
  show ?case
  proof (cases bs)
    case Nil
    then show ?thesis by auto
  next
    case (Cons x xs)
    have "load_bytes_slow m addr (Suc len) = Inr bs \<longleftrightarrow>
        mem_byte m addr = Some x \<and> load_bytes_slow m (addr + 1) len = Inr xs"
      using Cons by (auto simp: byte u)
    then show ?thesis
      unfolding Suc.IH using Cons by (auto simp: less_Suc_eq_0_disj ac_simps)
  qed
qed


section \<open>Bulk reads\<close>

lemma region_bulk_iff:
  "0 \<le> sint base \<Longrightarrow> region_bulk base bytes addr len = Some bs \<longleftrightarrow>
     (\<exists>off. sint addr = sint base + int off \<and> off + len \<le> length bytes \<and> bs = byte_slice off len bytes)"
proof (cases "region_off base (length bytes) addr len")
  case None
  moreover assume "0 \<le> sint base"
  ultimately show ?thesis
    using region_off_iff [of base "length bytes" addr len] by (auto simp: region_bulk_def)
next
  case (Some a)
  moreover assume "0 \<le> sint base"
  ultimately have "sint addr = sint base + int a" "a + len \<le> length bytes"
    using region_off_iff [of base "length bytes" addr len a] by auto
  with Some show ?thesis by (auto simp: region_bulk_def)
qed

lemma stack_bulk_run:
  assumes "stack_bulk st addr len = Some bs" "length (st_bytes st) = 512"
  shows "\<exists>off. sint addr = sint STACK_LOW + int off \<and> off + len \<le> 512
    \<and> (\<forall>k < len. byte_init (st_init st) (off + k)) \<and> bs = byte_slice off len (st_bytes st)"
proof -
  from assms(1) obtain o' where o': "o' = sint addr - sint STACK_LOW" "0 \<le> o'" "nat o' + len \<le> 512"
    and init: "list_all (\<lambda>i. is_init (st_init st) i 1) [nat o'..<nat o' + len]"
    and bs: "bs = byte_slice (nat o') len (st_bytes st)"
    by (auto simp: stack_bulk_def Let_def STACK_SIZE_def not_less split: option.splits if_splits)
  from init have "\<forall>k < len. byte_init (st_init st) (nat o' + k)"
    by (auto simp: list_all_iff is_init_iff)
  with o' bs show ?thesis by (intro exI [of _ "nat o'"]) simp
qed

lemma bulk_run:
  assumes wf: "mem_wf m" and bulk: "load_bytes_bulk m addr len = Some bs"
  shows "\<exists>off. sint addr = sint (region_base (classify addr)) + int off
    \<and> off + len \<le> length (region_view m (classify addr))
    \<and> (\<forall>k < len. region_view m (classify addr) ! (off + k) \<noteq> None)
    \<and> bs = map the (byte_slice off len (region_view m (classify addr)))"
proof (cases "classify addr")
  case RStack
  have len: "length (st_bytes (m_stack m)) = 512" using wf by (simp add: mem_wf_def)
  from bulk RStack have "stack_bulk (m_stack m) addr len = Some bs"
    by (simp add: load_bytes_bulk_def)
  from stack_bulk_run [OF this len] obtain off where off:
      "sint addr = sint STACK_LOW + int off" "off + len \<le> 512"
      "\<forall>k < len. byte_init (st_init (m_stack m)) (off + k)" "bs = byte_slice off len (st_bytes (m_stack m))"
    by blast
  have nth: "region_view m RStack ! i =
      (if byte_init (st_init (m_stack m)) i then Some (st_bytes (m_stack m) ! i) else None)" if "i < 512" for i
    using that by (simp add: region_view_def STACK_SIZE_def)
  have lv: "length (region_view m RStack) = 512" by (simp add: region_view_def STACK_SIZE_def)
  have "map the (byte_slice off len (region_view m RStack)) = bs"
    unfolding off(4) using off(2,3) len by (intro view_slice) (simp_all add: lv nth)
  with off show ?thesis
    unfolding RStack by (intro exI [of _ off]) (simp add: region_base_def lv nth)
qed (use bulk in \<open>auto simp: load_bytes_bulk_def region_bulk_iff region_base_def region_view_def
    slice_map split: option.splits\<close>)

lemma load_bytes_eq_slow:
  assumes wf: "mem_wf m"
  shows "load_bytes m addr len = load_bytes_slow m addr len"
proof (cases "len = 0 \<or> load_bytes_bulk m addr len = None")
  case True
  then show ?thesis by (cases len) (auto simp: load_bytes_def)
next
  case False
  then obtain bs where len: "0 < len" and bulk: "load_bytes_bulk m addr len = Some bs" by auto
  from bulk_run [OF wf bulk] obtain off where
      addr: "sint addr = sint (region_base (classify addr)) + int off"
    and fit: "off + len \<le> length (region_view m (classify addr))"
    and ok: "\<forall>k < len. region_view m (classify addr) ! (off + k) \<noteq> None"
    and bs: "bs = map the (byte_slice off len (region_view m (classify addr)))"
    by blast
  have "\<forall>k < len. mem_byte m (addr + word_of_nat k) \<noteq> None"
    using addr fit ok readable_run [OF wf len] by blast
  then have "load_bytes_slow m addr len = Inr bs"
    unfolding load_slow_iff [OF wf] bs run_bytes [OF wf len addr fit] by auto
  with len bulk show ?thesis by (simp add: load_bytes_def)
qed


section \<open>Stores\<close>

lemma take_to_le: "w \<le> n \<Longrightarrow> take w (to_le n v) = to_le w v"
  by (intro nth_equalityI) (simp_all add: nth_to_le)

lemma stack_store_iff:
  assumes "length (st_bytes st) = 512"
  shows "stack_store st addr sz v (m_align m) = Inr st' \<longleftrightarrow> aligned m addr sz \<and>
    (\<exists>off. sint addr = sint STACK_LOW + int off \<and> off + mem_bytes sz \<le> 512
       \<and> st' = \<lparr>st_bytes = splice off (to_le (mem_bytes sz) v) (st_bytes st),
                 st_init = mark_init (st_init st) off (mem_bytes sz)\<rparr>)"
proof -
  have "(case sz of
               SzB \<Rightarrow> (st_bytes st)[i := to_le 8 v ! 0]
             | SzH \<Rightarrow> splice i (take 2 (to_le 8 v)) (st_bytes st)
             | SzW \<Rightarrow> splice i (take 4 (to_le 8 v)) (st_bytes st)
             | SzDw \<Rightarrow> splice i (to_le 8 v) (st_bytes st)) = splice i (to_le (mem_bytes sz) v) (st_bytes st)"
    if "i + mem_bytes sz \<le> 512" for i
    using that assms by (cases sz) (simp_all add: take_to_le splice_one nth_to_le)
  then show ?thesis
    by (auto simp: stack_store_def stack_index_iff Let_def)
qed

text \<open>A store writes the stack or the map scratch area and nothing else.\<close>

lemma mem_store_iff:
  assumes "mem_wf m"
  shows "mem_store m addr sz v = Inr m' \<longleftrightarrow> aligned m addr sz \<and>
    (\<exists>off. sint addr = sint (region_base (classify addr)) + int off
       \<and> off + mem_bytes sz \<le> length (region_view m (classify addr))
       \<and> (classify addr = RStack \<and> m' = m\<lparr>m_stack :=
             \<lparr>st_bytes = splice off (to_le (mem_bytes sz) v) (st_bytes (m_stack m)),
              st_init = mark_init (st_init (m_stack m)) off (mem_bytes sz)\<rparr>\<rparr>
        \<or> classify addr = RMapScratch \<and>
            m' = m\<lparr>m_scratch := splice off (to_le (mem_bytes sz) v) (m_scratch m)\<rparr>))"
proof (cases "classify addr")
  case RStack
  have len: "length (st_bytes (m_stack m)) = 512" using assms by (simp add: mem_wf_def)
  show ?thesis
    by (auto simp: RStack mem_store_def stack_store_iff [OF len] region_base_def region_view_def STACK_SIZE_def)
next
  case RMapScratch
  have w: "take (mem_bytes sz) (to_le 8 v) = to_le (mem_bytes sz) v"
    using mem_bytes_bounds(2) by (rule take_to_le)
  show ?thesis
    by (auto simp: RMapScratch mem_store_def scratch_store_def Let_def region_off_iff w
        region_base_def region_view_def)
qed (simp_all add: mem_store_def)

lemma splice_view:
  assumes "off + length src \<le> length bs" "i < length bs"
  shows "map Some (splice off src bs) ! i =
    (if off \<le> i \<and> i < off + length src then Some (src ! (i - off)) else map Some bs ! i)"
  using assms by (simp add: nth_splice)

lemma mem_store_view:
  assumes wf: "mem_wf m" and st: "mem_store m addr sz v = Inr m'"
    and off: "sint addr = sint (region_base (classify addr)) + int off"
  shows "length (region_view m' r) = length (region_view m r)"
    and "i < length (region_view m r) \<Longrightarrow> region_view m' r ! i =
      (if r = classify addr \<and> off \<le> i \<and> i < off + mem_bytes sz
       then Some (to_le (mem_bytes sz) v ! (i - off)) else region_view m r ! i)"
    and "mem_wf m'"
    and "classify addr = RStack \<or> classify addr = RMapScratch"
    and "off + mem_bytes sz \<le> length (region_view m (classify addr))"
    and "m_packet m' = m_packet m \<and> m_xdp_md m' = m_xdp_md m \<and> m_rodata m' = m_rodata m
       \<and> m_align m' = m_align m"
proof -
  let ?w = "mem_bytes sz"
  note lens = wf [unfolded mem_wf_def]
  from st off consider
    (stack) "classify addr = RStack" "off + ?w \<le> 512"
      "m' = m\<lparr>m_stack := \<lparr>st_bytes = splice off (to_le ?w v) (st_bytes (m_stack m)),
              st_init = mark_init (st_init (m_stack m)) off ?w\<rparr>\<rparr>"
  | (scratch) "classify addr = RMapScratch" "off + ?w \<le> length (m_scratch m)"
      "m' = m\<lparr>m_scratch := splice off (to_le ?w v) (m_scratch m)\<rparr>"
    unfolding mem_store_iff [OF wf] by (auto simp: region_view_def STACK_SIZE_def)
  then have "length (region_view m' r) = length (region_view m r)
    \<and> (i < length (region_view m r) \<longrightarrow> region_view m' r ! i =
      (if r = classify addr \<and> off \<le> i \<and> i < off + ?w
       then Some (to_le ?w v ! (i - off)) else region_view m r ! i))
    \<and> mem_wf m' \<and> (classify addr = RStack \<or> classify addr = RMapScratch)
    \<and> off + ?w \<le> length (region_view m (classify addr))
    \<and> m_packet m' = m_packet m \<and> m_xdp_md m' = m_xdp_md m \<and> m_rodata m' = m_rodata m
    \<and> m_align m' = m_align m"
  proof cases
    case stack
    with lens mem_bytes_bounds [of sz] show ?thesis
      by (cases r) (auto simp: region_view_def STACK_SIZE_def mem_wf_def byte_init_mark_init nth_splice)
  next
    case scratch
    with lens show ?thesis
      by (cases r) (auto simp: region_view_def STACK_SIZE_def mem_wf_def nth_splice)
  qed
  then show "length (region_view m' r) = length (region_view m r)"
    "i < length (region_view m r) \<Longrightarrow> region_view m' r ! i =
      (if r = classify addr \<and> off \<le> i \<and> i < off + mem_bytes sz
       then Some (to_le (mem_bytes sz) v ! (i - off)) else region_view m r ! i)"
    "mem_wf m'" "classify addr = RStack \<or> classify addr = RMapScratch"
    "off + mem_bytes sz \<le> length (region_view m (classify addr))"
    "m_packet m' = m_packet m \<and> m_xdp_md m' = m_xdp_md m \<and> m_rodata m' = m_rodata m
       \<and> m_align m' = m_align m"
    by blast+
qed


lemma mem_store_bytes:
  assumes wf: "mem_wf m" and st: "mem_store m addr sz v = Inr m'"
  shows "mem_byte m' a = (if \<exists>k < mem_bytes sz. a = addr + word_of_nat k
      then Some (to_le (mem_bytes sz) v ! nat (sint a - sint addr)) else mem_byte m a)"
proof -
  from st obtain off where off: "sint addr = sint (region_base (classify addr)) + int off"
    unfolding mem_store_iff [OF wf] by blast
  note S = mem_store_view [OF wf st off]
  have known: "classify addr \<noteq> RUnknown" using S(4) by auto
  let ?w = "mem_bytes sz"
  define i where "i = nat (sint a - sint (region_base (classify a)))"
  have inside: "sint (addr + word_of_nat k) = sint addr + int k"
    "classify (addr + word_of_nat k) = classify addr" if "k < ?w" for k
    using same_region [OF wf off _ known, of k] S(5) that by simp_all
  have hit: "(\<exists>k < ?w. a = addr + word_of_nat k) \<longleftrightarrow>
      classify a = classify addr \<and> off \<le> i \<and> i < off + ?w"
  proof
    assume "\<exists>k < ?w. a = addr + word_of_nat k"
    then show "classify a = classify addr \<and> off \<le> i \<and> i < off + ?w"
      using inside off by (auto simp: i_def)
  next
    assume r: "classify a = classify addr \<and> off \<le> i \<and> i < off + ?w"
    then have "sint a = sint (region_base (classify a)) + int i"
      using region_base_le [of a] known by (simp add: i_def)
    with r off have k: "sint a = sint addr + int (i - off)" "i - off < ?w" by auto
    with inside(1) [OF k(2)] have "a = addr + word_of_nat (i - off)"
      by (metis signed_word_eqI)
    with k(2) show "\<exists>k < ?w. a = addr + word_of_nat k" by blast
  qed
  show ?thesis
  proof (cases "\<exists>k < ?w. a = addr + word_of_nat k")
    case True
    then have r: "classify a = classify addr" "off \<le> i" "i < off + ?w" using hit by auto
    then have "i < length (region_view m (classify a))" using S(5) by simp
    moreover from True inside(1) off r(1) have "nat (sint a - sint addr) = i - off"
      by (auto simp: i_def)
    ultimately show ?thesis
      using True r S(2) [of i "classify a"] i_def by (simp add: mem_byte_def S(1))
  next
    case False
    with hit show ?thesis
      using S(2) [of i "classify a"] by (auto simp: mem_byte_def i_def [symmetric] S(1) Let_def)
  qed
qed


text \<open>A state with two written stack bytes, for evaluation.\<close>

definition sample_memory :: memory where
  "sample_memory = set_packet [1, 2, 3, 4] (set_map_scratch [0xAA, 0xBB] (set_align_checks False memory_default))"

lemma memory_default_wf [simp]: "mem_wf memory_default"
  by (simp add: mem_wf_def memory_default_def stack_default_def layout_defs)

lemma set_packet_wf: "mem_wf m \<Longrightarrow> length p < 0x10000 \<Longrightarrow> mem_wf (set_packet p m)"
  by (simp add: mem_wf_def set_packet_def Let_def)

lemma set_scratch_wf: "mem_wf m \<Longrightarrow> length v < 0x10000 \<Longrightarrow> mem_wf (set_map_scratch v m)"
  by (simp add: mem_wf_def set_map_scratch_def)

lemma set_rodata_wf: "mem_wf m \<Longrightarrow> length d < 2 ^ 62 \<Longrightarrow> mem_wf (set_rodata d m)"
  by (simp add: mem_wf_def set_rodata_def)

lemma sample_memory_wf: "mem_wf sample_memory"
  by (simp add: sample_memory_def set_packet_wf set_scratch_wf)
    (simp add: mem_wf_def set_packet_def set_map_scratch_def set_align_checks_def memory_default_def
      stack_default_def layout_defs)


section \<open>Properties\<close>

text \<open>
  the word-wise initialisation bitmap is exact: after \<open>mark_init\<close> of a run of stack bytes,
  \<open>is_init\<close> of any run answers whether each of its bytes was in the run or already initialised.
\<close>

theorem bitmap_exact:
  assumes "length initialized = 8" "0 < w" "w \<le> 64" "i + w \<le> 512" "0 < w'" "w' \<le> 64" "j + w' \<le> 512"
  shows "is_init (mark_init initialized i w) j w' \<longleftrightarrow>
    (\<forall>d < w'. byte_init initialized (j + d) \<or> i \<le> j + d \<and> j + d < i + w)"
  using assms by (simp add: is_init_iff byte_init_mark_init)

theorem bitmap_exact_witness:
  "is_init (mark_init (replicate 8 0) 62 4) 62 4 \<and> \<not> is_init (mark_init (replicate 8 0) 62 4) 61 4"
  by (subst (1 2) bitmap_exact) (auto simp: byte_init_def intro!: exI [of _ 0])

text \<open>
  C18: a load returns the little-endian, zero-extended value of the bytes at its address exactly
  when the address is aligned (where alignment is checked) and every byte is readable.
\<close>

theorem mem_load_spec:
  assumes "mem_wf m"
  shows "mem_load m addr sz = Inr v \<longleftrightarrow> aligned m addr sz
    \<and> (\<forall>k < mem_bytes sz. mem_byte m (addr + word_of_nat k) \<noteq> None)
    \<and> v = from_le (map (\<lambda>k. the (mem_byte m (addr + word_of_nat k))) [0..<mem_bytes sz])"
  by (rule mem_load_bytes [OF assms])

theorem mem_load_spec_witness:
  "mem_load sample_memory 0x20001 SzH = Inr 0x0302 \<and> mem_byte sample_memory (0x20001 + 1) \<noteq> None"
proof -
  have load: "mem_load sample_memory 0x20001 SzH = Inr 0x0302"
    unfolding sample_memory_def by code_simp
  from iffD1 [OF mem_load_spec [OF sample_memory_wf] load]
  have "\<forall>k < mem_bytes SzH. mem_byte sample_memory (0x20001 + word_of_nat k) \<noteq> None" by blast
  from spec [OF this, of 1] load show ?thesis by simp
qed

text \<open>
  C17: a store that succeeds writes exactly the low bytes of its value at its address, leaves every
  other byte of memory as it was, never touches the packet, the context or the read-only data,
  and keeps the memory well formed.
\<close>

theorem mem_store_spec:
  assumes "mem_wf m" "mem_store m addr sz v = Inr m'"
  shows "mem_wf m' \<and> m_packet m' = m_packet m \<and> m_xdp_md m' = m_xdp_md m \<and> m_rodata m' = m_rodata m
    \<and> (\<forall>a. mem_byte m' a = (if \<exists>k < mem_bytes sz. a = addr + word_of_nat k
          then Some (to_le (mem_bytes sz) v ! nat (sint a - sint addr)) else mem_byte m a))"
proof -
  from assms(2) obtain off where "sint addr = sint (region_base (classify addr)) + int off"
    unfolding mem_store_iff [OF assms(1)] by blast
  note S = mem_store_view [OF assms this]
  show ?thesis
    using S(3,6) mem_store_bytes [OF assms] by blast
qed

theorem mem_store_spec_witness:
  "mem_byte (projr (mem_store sample_memory 0xFFF8 SzW 0x11223344)) 0x20002 = Some 3"
proof -
  have "is_ok (mem_store sample_memory 0xFFF8 SzW 0x11223344)"
    unfolding sample_memory_def by code_simp
  then obtain m' where st: "mem_store sample_memory 0xFFF8 SzW 0x11223344 = Inr m'"
    by (auto simp: is_ok_iff)
  have "mem_byte sample_memory 0x20002 = Some 3" unfolding sample_memory_def by code_simp
  moreover have "list_all (\<lambda>k. (0x20002 :: i64) \<noteq> 0xFFF8 + word_of_nat k) [0..<mem_bytes SzW]"
    by code_simp
  then have "\<not> (\<exists>k < mem_bytes SzW. (0x20002 :: i64) = 0xFFF8 + word_of_nat k)"
    by (auto simp: list_all_iff)
  ultimately show ?thesis using mem_store_spec [OF sample_memory_wf st] st by auto
qed

text \<open>
  C37: reading back at the address just stored to, at the same width, gives the stored value
  truncated to the width and zero-extended.
\<close>

theorem load_after_store:
  assumes "mem_wf m" "mem_store m addr sz v = Inr m'"
  shows "mem_load m' addr sz = Inr (take_bit (8 * mem_bytes sz) v)"
proof -
  from assms(2) obtain off where off: "sint addr = sint (region_base (classify addr)) + int off"
    and al: "aligned m addr sz"
    unfolding mem_store_iff [OF assms(1)] by blast
  note S = mem_store_view [OF assms off]
  have "sint (addr + word_of_nat k) = sint addr + int k" if "k < mem_bytes sz" for k
    using same_region(1) [OF assms(1) off, of k] S(4,5) that by auto
  then have b: "mem_byte m' (addr + word_of_nat k) = Some (to_le (mem_bytes sz) v ! k)"
    if "k < mem_bytes sz" for k
    using that mem_store_bytes [OF assms, of "addr + word_of_nat k"] by auto
  have "map (\<lambda>k. the (mem_byte m' (addr + word_of_nat k))) [0..<mem_bytes sz] = to_le (mem_bytes sz) v"
    by (rule nth_equalityI) (simp_all add: b)
  then show ?thesis
    using al S(6) unfolding mem_load_bytes [OF S(3)]
    by (simp add: b aligned_def from_le_to_le)
qed

theorem load_after_store_witness:
  "mem_load (projr (mem_store sample_memory 0xFFF8 SzH 0x11223344)) 0xFFF8 SzH = Inr 0x3344"
proof -
  have "is_ok (mem_store sample_memory 0xFFF8 SzH 0x11223344)"
    unfolding sample_memory_def by code_simp
  then obtain m' where "mem_store sample_memory 0xFFF8 SzH 0x11223344 = Inr m'"
    by (auto simp: is_ok_iff)
  with load_after_store [OF sample_memory_wf this] show ?thesis by (simp add: take_bit_eq_mod)
qed



text \<open>
  the bound on the packet is needed: with a packet that runs into the map scratch region, the
  bulk read returns bytes that the byte-wise read faults on.
\<close>

theorem bulk_differs_past_scratch_base:
  "load_bytes (set_packet (replicate 0x10001 1) memory_default) 0x2FFFF 2 = Inr [1, 1]
   \<and> load_bytes_slow (set_packet (replicate 0x10001 1) memory_default) 0x2FFFF 2
       = Inl (OutOfBounds 0x30000 1)"
proof -
  let ?m = "set_packet (replicate 0x10001 1) memory_default"
  have c: "classify 0x2FFFF = RPacket" "classify 0x30000 = RMapScratch"
    by (simp_all add: classify_def)
  have p: "m_packet ?m = Some (replicate 0x10001 1)" "m_scratch ?m = []"
    by (simp_all add: set_packet_def memory_default_def Let_def)
  have off: "region_off PACKET_BASE 0x10001 0x2FFFF n = Some 0xFFFF" if "n \<le> 2" for n
    using that by (simp add: region_off_iff)
  have sl: "byte_slice 0xFFFF n (replicate 0x10001 (1 :: u8)) = replicate n 1" if "n \<le> 2" for n
    using that by (simp add: byte_slice_def min_def)
  have bulk: "load_bytes_bulk ?m 0x2FFFF 2 = Some [1, 1]"
    by (simp add: load_bytes_bulk_def c p region_bulk_def off sl numeral_2_eq_2)
  have first: "mem_load ?m 0x2FFFF SzB = Inr 1"
    by (simp add: mem_load_def c p packet_load_def region_load_def off
        sl [of 1, simplified] check_alignment_if_def check_alignment_def)
  have "region_off MAP_SCRATCH_BASE 0 0x30000 1 = None"
    by (simp add: region_off_def checked_i64_def)
  then have second: "mem_load ?m 0x30000 SzB = Inl (OutOfBounds 0x30000 1)"
    by (simp add: mem_load_def c p scratch_load_def region_load_def)
  show ?thesis
    using bulk first second by (simp add: load_bytes_def numeral_2_eq_2)
qed

text \<open>
  the staged XDP context: its two words are the packet's start and end addresses, for every
  packet whose end fits 32 bits.
\<close>

theorem set_packet_context:
  assumes "int (length p) < 2 ^ 32 - 0x20000"
  shows "mem_load (set_packet p m) XDP_MD_BASE SzW = Inr PACKET_BASE
    \<and> mem_load (set_packet p m) (XDP_MD_BASE + 4) SzW = Inr (PACKET_BASE + word_of_nat (length p))"
proof -
  let ?m = "set_packet p m"
  define d e :: u32 where "d = 0x20000" and "e = word_of_int (0x20000 + int (length p))"
  have md: "m_xdp_md ?m = to_le 4 d @ to_le 4 e"
    using assms by (simp add: set_packet_def Let_def u32_or_max_def saturate_i64_def i64_bounds d_def e_def)
  have c: "classify XDP_MD_BASE = RXdpMd" "classify (XDP_MD_BASE + 4) = RXdpMd"
    by (simp_all add: classify_def XDP_MD_BASE_def)
  have al: "aligned ?m XDP_MD_BASE SzW" "aligned ?m (XDP_MD_BASE + 4) SzW"
    by (simp_all add: aligned_def XDP_MD_BASE_def)
  have plus4: "sint (XDP_MD_BASE + 4) = 0x40004" by (simp add: XDP_MD_BASE_def)
  have four: "from_le (to_le 4 (x :: u32)) = (ucast x :: i64)" for x
    using from_le_ucast [of "to_le 4 x", where 'a = 32 and 'b = 64] by simp
  have "mem_load ?m XDP_MD_BASE SzW = Inr (ucast d)"
    unfolding mem_load_def c mem_region.case xdp_md_load_def
    by (subst region_load_iff) (auto simp: al md four [symmetric] byte_slice_def intro!: exI [of _ 0])
  moreover have "mem_load ?m (XDP_MD_BASE + 4) SzW = Inr (ucast e)"
    unfolding mem_load_def c mem_region.case xdp_md_load_def
    by (subst region_load_iff)
      (auto simp: al md four [symmetric] byte_slice_def plus4 intro!: exI [of _ 4])
  moreover have "ucast e = PACKET_BASE + (word_of_nat (length p) :: i64)"
  proof -
    have "ucast (word_of_int x :: u32) = (word_of_int x :: i64)" if "0 \<le> x" "x < 2 ^ 32" for x
      using that by (simp add: unsigned_of_int take_bit_int_eq_self)
    from this [of "0x20000 + int (length p)"] assms show ?thesis
      unfolding e_def by (simp add: PACKET_BASE_def)
  qed
  ultimately show ?thesis by (simp add: d_def PACKET_BASE_def)
qed

theorem set_packet_context_witness:
  "mem_load (set_packet [1, 2, 3] memory_default) (XDP_MD_BASE + 4) SzW = Inr 0x20003"
  using set_packet_context [of "[1, 2, 3]" memory_default] by (simp add: PACKET_BASE_def)

end
