(* ===== verification/Maps.thy ===== *)
theory Maps
  imports Prelude "HOL-Library.AList"
begin

text \<open>
  The map simulator of \<open>crates/ebpf-vm/src/maps.rs\<close>: descriptors, hash, array and LRU stores,
  their lookup, update and delete, the construction of a store and of the table of stores, and
  the hex codec of the descriptor file.  A \<open>HashMap\<close> or \<open>BTreeMap\<close> is an association list with
  distinct keys (\<open>initial\<close> in its iteration order); the LRU stamps count touches and are
  naturals.  What the VM relies on is stated as the locale \<open>kv_store\<close>, which the stores
  interpret.
\<close>

type_synonym key = "u8 list"
type_synonym val = "u8 list"


section \<open>Data\<close>

datatype map_type = MHash | MArray | MLruArray

record map_desc =
  md_fd :: int
  md_type :: map_type
  md_key_size :: nat
  md_value_size :: nat
  md_max_entries :: nat
  md_initial :: "(key \<times> val) list"
  md_name :: "string option"

text \<open>\<open>InvalidDesc\<close> and \<open>BadHex\<close> carry what their messages are formatted from.\<close>

datatype invalid_desc = ZeroSize int | ArrayKeySize int nat | UnknownFlags u64

datatype map_error =
    BadFd int
  | FdTooLarge int int
  | DuplicateFd int
  | InvalidDesc invalid_desc
  | KeySizeMismatch nat nat
  | ValueSizeMismatch nat nat
  | Full nat
  | KeyNotFound
  | KeyExists
  | BadHex "u8 list"

datatype update_flags = Any | NoExist | Exist

datatype map_store =
    HashStore map_desc "(key \<times> val) list"
  | ArrayStore map_desc "val list"
  | LruStore map_desc "(key \<times> val) list" "(nat \<times> key) list" "(key \<times> nat) list" nat

definition MAX_MAP_FD :: int where "MAX_MAP_FD = 1024"

definition flags_of :: "u64 \<Rightarrow> map_error + update_flags" where
  "flags_of flags =
     (if flags = 0 then Inr Any else if flags = 1 then Inr NoExist
      else if flags = 2 then Inr Exist else Inl (InvalidDesc (UnknownFlags flags)))"

fun map_desc_of :: "map_store \<Rightarrow> map_desc" where
  "map_desc_of (HashStore d data) = d"
| "map_desc_of (ArrayStore d data) = d"
| "map_desc_of (LruStore d data stamps stamp_of sq) = d"

fun store_len :: "map_store \<Rightarrow> nat" where
  "store_len (HashStore d data) = length data"
| "store_len (LruStore d data stamps stamp_of sq) = length data"
| "store_len (ArrayStore d data) = md_max_entries d"

definition store_capacity :: "map_store \<Rightarrow> nat" where
  "store_capacity s = md_max_entries (map_desc_of s)"


section \<open>Checks\<close>

definition check_key :: "map_store \<Rightarrow> key \<Rightarrow> map_error + unit" where
  "check_key s k =
     (let expected = md_key_size (map_desc_of s) in
      if length k \<noteq> expected then Inl (KeySizeMismatch expected (length k)) else Inr ())"

definition check_value :: "map_store \<Rightarrow> val \<Rightarrow> map_error + unit" where
  "check_value s v =
     (let expected = md_value_size (map_desc_of s) in
      if length v \<noteq> expected then Inl (ValueSizeMismatch expected (length v)) else Inr ())"

definition check_update_flags :: "update_flags \<Rightarrow> bool \<Rightarrow> map_error + unit" where
  "check_update_flags flag present =
     (case flag of
        NoExist \<Rightarrow> if present then Inl KeyExists else Inr ()
      | Exist \<Rightarrow> if \<not> present then Inl KeyNotFound else Inr ()
      | Any \<Rightarrow> Inr ())"

definition array_index :: "key \<Rightarrow> nat \<Rightarrow> map_error + nat" where
  "array_index k max_entries =
     (if length k < 4 then Inl (KeySizeMismatch 4 (length k))
      else let idx = unat (from_le (take 4 k) :: u32) in
           if max_entries \<le> idx then Inl (Full max_entries) else Inr idx)"


section \<open>LRU stamps\<close>

text \<open>\<open>BTreeMap::pop_first\<close>: the entry of the least stamp.\<close>

fun pop_first :: "(nat \<times> 'a) list \<Rightarrow> ((nat \<times> 'a) \<times> (nat \<times> 'a) list) option" where
  "pop_first [] = None"
| "pop_first (x # xs) =
     (let m = Min (fst ` set (x # xs))
      in Some ((m, the (map_of (x # xs) m)), AList.delete m (x # xs)))"

definition lru_touch ::
    "(nat \<times> key) list \<Rightarrow> (key \<times> nat) list \<Rightarrow> nat \<Rightarrow> key \<Rightarrow> (nat \<times> key) list \<times> (key \<times> nat) list \<times> nat" where
  "lru_touch stamps stamp_of sq k =
     (let stamps' = (case map_of stamp_of k of Some old \<Rightarrow> AList.delete old stamps | None \<Rightarrow> stamps);
          stamp_of' = AList.delete k stamp_of
      in (AList.update sq k stamps', AList.update k sq stamp_of', sq + 1))"


section \<open>Operations\<close>

fun map_lookup :: "map_store \<Rightarrow> key \<Rightarrow> map_error + (val option \<times> map_store)" where
  "map_lookup s k =
     bind_res (check_key s k) (\<lambda>_.
       case s of
         HashStore d data \<Rightarrow> Inr (map_of data k, s)
       | ArrayStore d data \<Rightarrow>
           bind_res (array_index k (md_max_entries d)) (\<lambda>idx. Inr (Some (data ! idx), s))
       | LruStore d data stamps stamp_of sq \<Rightarrow>
           (case map_of data k of
              None \<Rightarrow> Inr (None, s)
            | Some v \<Rightarrow>
                let (stamps', stamp_of', sq') = lru_touch stamps stamp_of sq k
                in Inr (Some v, LruStore d data stamps' stamp_of' sq')))"

fun map_update :: "map_store \<Rightarrow> key \<Rightarrow> val \<Rightarrow> u64 \<Rightarrow> map_error + map_store" where
  "map_update s k v flags =
     bind_res (flags_of flags) (\<lambda>flag.
     bind_res (check_key s k) (\<lambda>_.
     bind_res (check_value s v) (\<lambda>_.
       case s of
         HashStore d data \<Rightarrow>
           let present = (map_of data k \<noteq> None) in
           bind_res (check_update_flags flag present) (\<lambda>_.
             if \<not> present \<and> md_max_entries d \<le> length data then Inl (Full (md_max_entries d))
             else Inr (HashStore d (AList.update k v data)))
       | ArrayStore d data \<Rightarrow>
           bind_res (array_index k (md_max_entries d)) (\<lambda>idx.
             if flag = NoExist then Inl KeyExists else Inr (ArrayStore d (data[idx := v])))
       | LruStore d data stamps stamp_of sq \<Rightarrow>
           let present = (map_of data k \<noteq> None) in
           bind_res (check_update_flags flag present) (\<lambda>_.
             let (data1, stamps1, stamp_of1) =
                   (if \<not> present \<and> md_max_entries d \<le> length data
                    then case pop_first stamps of
                        Some ((_, old), stamps1) \<Rightarrow> (AList.delete old data, stamps1, AList.delete old stamp_of)
                      | None \<Rightarrow> (data, stamps, stamp_of)
                    else (data, stamps, stamp_of));
                 (stamps2, stamp_of2, sq2) = lru_touch stamps1 stamp_of1 sq k
             in Inr (LruStore d (AList.update k v data1) stamps2 stamp_of2 sq2)))))"

fun map_delete :: "map_store \<Rightarrow> key \<Rightarrow> map_error + map_store" where
  "map_delete s k =
     bind_res (check_key s k) (\<lambda>_.
       case s of
         HashStore d data \<Rightarrow>
           if map_of data k = None then Inl KeyNotFound else Inr (HashStore d (AList.delete k data))
       | ArrayStore d data \<Rightarrow>
           bind_res (array_index k (md_max_entries d)) (\<lambda>idx.
             Inr (ArrayStore d (data[idx := replicate (md_value_size d) 0])))
       | LruStore d data stamps stamp_of sq \<Rightarrow>
           if map_of data k = None then Inl KeyNotFound
           else (case map_of stamp_of k of
                   Some old \<Rightarrow> Inr (LruStore d (AList.delete k data) (AList.delete old stamps)
                                    (AList.delete k stamp_of) sq)
                 | None \<Rightarrow> Inr (LruStore d (AList.delete k data) stamps stamp_of sq)))"


section \<open>Construction\<close>

definition check_initial :: "map_desc \<Rightarrow> key \<times> val \<Rightarrow> map_error + (key \<times> val)" where
  "check_initial d = (\<lambda>(k, v).
     if length k \<noteq> md_key_size d then Inl (KeySizeMismatch (md_key_size d) (length k))
     else if length v \<noteq> md_value_size d then Inl (ValueSizeMismatch (md_value_size d) (length v))
     else Inr (k, v))"

fun array_fill :: "nat \<Rightarrow> val list \<Rightarrow> (key \<times> val) list \<Rightarrow> map_error + val list" where
  "array_fill max_entries data [] = Inr data"
| "array_fill max_entries data ((k, v) # initial) =
     bind_res (array_index k max_entries) (\<lambda>idx. array_fill max_entries (data[idx := v]) initial)"

fun lru_fill :: "(key \<times> val) list \<Rightarrow> (key \<times> val) list \<times> (nat \<times> key) list \<times> (key \<times> nat) list \<times> nat
    \<Rightarrow> (key \<times> val) list \<times> (nat \<times> key) list \<times> (key \<times> nat) list \<times> nat" where
  "lru_fill [] st = st"
| "lru_fill ((k, v) # initial) (data, stamps, stamp_of, sq) =
     lru_fill initial (AList.update k v data, AList.update sq k stamps, AList.update k sq stamp_of, sq + 1)"

definition store_new :: "map_desc \<Rightarrow> map_error + map_store" where
  "store_new d =
    (if md_fd d \<le> 0 then Inl (BadFd (md_fd d))
     else if md_key_size d = 0 \<or> md_value_size d = 0 \<or> md_max_entries d = 0
       then Inl (InvalidDesc (ZeroSize (md_fd d)))
     else if md_type d = MArray \<and> md_key_size d \<noteq> 4
       then Inl (InvalidDesc (ArrayKeySize (md_fd d) (md_key_size d)))
     else
       bind_res (traverse (check_initial d) (md_initial d)) (\<lambda>initial.
         if md_max_entries d < length initial then Inl (Full (md_max_entries d))
         else case md_type d of
             MHash \<Rightarrow> Inr (HashStore d (fold (\<lambda>(k, v). AList.update k v) initial []))
           | MArray \<Rightarrow>
               bind_res (array_fill (md_max_entries d)
                           (replicate (md_max_entries d) (replicate (md_value_size d) 0)) initial)
                 (\<lambda>data. Inr (ArrayStore d data))
           | MLruArray \<Rightarrow>
               let (data, stamps, stamp_of, sq) = lru_fill initial ([], [], [], 0)
               in Inr (LruStore d data stamps stamp_of sq)))"

fun place_stores :: "map_store option list \<Rightarrow> map_desc list \<Rightarrow> map_error + map_store option list" where
  "place_stores table [] = Inr table"
| "place_stores table (d # descs) =
     (if md_fd d < 0 then Inl (BadFd (md_fd d))
      else let idx = nat (md_fd d) in
        if table ! idx \<noteq> None then Inl (DuplicateFd (md_fd d))
        else bind_res (store_new d) (\<lambda>s. place_stores (table[idx := Some s]) descs))"

definition build_stores :: "map_desc list \<Rightarrow> map_error + map_store option list" where
  "build_stores descs =
     (if descs = [] then Inr []
      else
        let max_fd = Max (md_fd ` set descs) in
        if max_fd \<le> 0 then Inl (BadFd max_fd)
        else if MAX_MAP_FD < max_fd then Inl (FdTooLarge max_fd MAX_MAP_FD)
        else place_stores (replicate (nat max_fd + 1) None) descs)"


section \<open>The hex codec\<close>

definition hex_val :: "u8 \<Rightarrow> u8 option" where
  "hex_val b =
     (if 0x30 \<le> b \<and> b \<le> 0x39 then Some (b - 0x30)
      else if 0x61 \<le> b \<and> b \<le> 0x66 then Some (b - 0x61 + 10)
      else if 0x41 \<le> b \<and> b \<le> 0x46 then Some (b - 0x41 + 10)
      else None)"

fun chunks2 :: "'a list \<Rightarrow> ('a \<times> 'a) list" where
  "chunks2 (a # b # xs) = (a, b) # chunks2 xs"
| "chunks2 xs = []"

definition from_hex :: "u8 list \<Rightarrow> map_error + u8 list" where
  "from_hex s =
     (if odd (length s) then Inl (BadHex s)
      else traverse (\<lambda>(a, b).
             bind_res (ok_or (hex_val a) (BadHex s)) (\<lambda>hi.
             bind_res (ok_or (hex_val b) (BadHex s)) (\<lambda>lo.
             Inr (push_bit 4 hi OR lo)))) (chunks2 s))"

text \<open>The two digits of \<open>{:02X}\<close>.\<close>

definition hex_digit :: "u8 \<Rightarrow> u8" where
  "hex_digit n = (if n < 10 then 0x30 + n else 0x41 + (n - 10))"

definition to_hex :: "u8 list \<Rightarrow> u8 list" where
  "to_hex bytes = concat (map (\<lambda>b. [hex_digit (drop_bit 4 b), hex_digit (b AND 0x0F)]) bytes)"


section \<open>The contract of a store\<close>

text \<open>
  What the helpers of the VM rely on: a lookup returns what is stored and changes nothing that
  is stored; an update stores the value and adds nothing else (it may evict); a delete resets
  the one key.  \<open>get\<close> is the abstract content, \<open>blank\<close> the content of a deleted key.
\<close>

datatype ('k, 'v, 'f) kv_op = LookupOp 'k | UpdateOp 'k 'v 'f | DeleteOp 'k

text \<open>
  One operation on a store beside a plain map that takes the same writes; a failing operation
  leaves both alone.
\<close>

fun kv_track ::
    "('s \<Rightarrow> 'v option) \<Rightarrow> ('s \<Rightarrow> 'k \<Rightarrow> 'e + ('v option \<times> 's)) \<Rightarrow> ('s \<Rightarrow> 'k \<Rightarrow> 'v \<Rightarrow> 'f \<Rightarrow> 'e + 's)
     \<Rightarrow> ('s \<Rightarrow> 'k \<Rightarrow> 'e + 's) \<Rightarrow> ('k, 'v, 'f) kv_op \<Rightarrow> 's \<times> ('k \<rightharpoonup> 'v) \<Rightarrow> 's \<times> ('k \<rightharpoonup> 'v)" where
  "kv_track blank lookup update delete (LookupOp k) (s, g) =
     (case lookup s k of Inr (r, s') \<Rightarrow> (s', g) | Inl e \<Rightarrow> (s, g))"
| "kv_track blank lookup update delete (UpdateOp k v f) (s, g) =
     (case update s k v f of Inr s' \<Rightarrow> (s', g(k \<mapsto> v)) | Inl e \<Rightarrow> (s, g))"
| "kv_track blank lookup update delete (DeleteOp k) (s, g) =
     (case delete s k of Inr s' \<Rightarrow> (s', g(k := blank s)) | Inl e \<Rightarrow> (s, g))"

locale kv_store =
  fixes inv :: "'s \<Rightarrow> bool"
    and get :: "'s \<Rightarrow> 'k \<Rightarrow> 'v option"
    and blank :: "'s \<Rightarrow> 'v option"
    and lookup :: "'s \<Rightarrow> 'k \<Rightarrow> 'e + ('v option \<times> 's)"
    and update :: "'s \<Rightarrow> 'k \<Rightarrow> 'v \<Rightarrow> 'f \<Rightarrow> 'e + 's"
    and delete :: "'s \<Rightarrow> 'k \<Rightarrow> 'e + 's"
  assumes lookup_law: "inv s \<Longrightarrow> lookup s k = Inr (r, s') \<Longrightarrow>
      inv s' \<and> r = get s k \<and> get s' = get s \<and> blank s' = blank s"
    and update_law: "inv s \<Longrightarrow> update s k v f = Inr s' \<Longrightarrow>
      inv s' \<and> get s' k = Some v \<and> get s' \<subseteq>\<^sub>m (get s)(k \<mapsto> v) \<and> blank s' = blank s"
    and delete_law: "inv s \<Longrightarrow> delete s k = Inr s' \<Longrightarrow>
      inv s' \<and> get s' = (get s)(k := blank s) \<and> blank s' = blank s"
begin

abbreviation track :: "('k, 'v, 'f) kv_op \<Rightarrow> 's \<times> ('k \<rightharpoonup> 'v) \<Rightarrow> 's \<times> ('k \<rightharpoonup> 'v)" where
  "track \<equiv> kv_track blank lookup update delete"

lemmas laws = lookup_law [rotated] update_law [rotated] delete_law [rotated]

lemma track_inv: "inv s \<Longrightarrow> track op (s, g) = (s', g') \<Longrightarrow> inv s'"
  by (cases op) (auto dest: laws split: sum.splits)

lemma track_refines:
  "inv s \<Longrightarrow> get s \<subseteq>\<^sub>m g \<Longrightarrow> track op (s, g) = (s', g') \<Longrightarrow> get s' \<subseteq>\<^sub>m g'"
proof (cases op)
  case (UpdateOp k v f)
  moreover assume "inv s" "get s \<subseteq>\<^sub>m g" "track op (s, g) = (s', g')"
  ultimately show ?thesis
    using update_law [of s k v f] map_le_upd [of "get s" g k "Some v"] map_le_trans
    by (fastforce split: sum.splits)
next
  case (DeleteOp k)
  moreover assume "inv s" "get s \<subseteq>\<^sub>m g" "track op (s, g) = (s', g')"
  ultimately show ?thesis
    using delete_law [of s k] map_le_upd [of "get s" g k "blank s"]
    by (auto split: sum.splits)
qed (auto dest: laws split: sum.splits)

lemma run_refines:
  "inv s \<Longrightarrow> get s \<subseteq>\<^sub>m g \<Longrightarrow> fold track ops (s, g) = (s', g') \<Longrightarrow> inv s' \<and> get s' \<subseteq>\<^sub>m g'"
proof (induction ops arbitrary: s g)
  case Nil
  then show ?case by simp
next
  case (Cons op ops)
  obtain s1 g1 where "track op (s, g) = (s1, g1)" by force
  with Cons track_inv [OF Cons.prems(1) this] track_refines [OF Cons.prems(1,2) this]
  show ?case by simp
qed

text \<open>A hit after any history returns the last value written to that key.\<close>

lemma hit_is_last_write:
  assumes "inv s" "fold track ops (s, get s) = (s', g)" "lookup s' k = Inr (Some v, s'')"
  shows "g k = Some v"
proof -
  have "inv s' \<and> get s' \<subseteq>\<^sub>m g" by (rule run_refines [OF assms(1) _ assms(2)]) simp
  moreover with assms(3) have "get s' k = Some v" using lookup_law by metis
  ultimately show ?thesis by (metis domI map_le_def)
qed

end

text \<open>A store that never evicts is the plain map.\<close>

locale exact_kv = kv_store +
  assumes no_evict: "inv s \<Longrightarrow> update s k v f = Inr s' \<Longrightarrow> get s' = (get s)(k \<mapsto> v)"
begin

lemma track_exact: "inv s \<Longrightarrow> track op (s, get s) = (s', g') \<Longrightarrow> g' = get s'"
proof (cases op)
  case (LookupOp k)
  moreover assume "inv s" "track op (s, get s) = (s', g')"
  ultimately show ?thesis using lookup_law [of s k] by (fastforce split: sum.splits)
next
  case (UpdateOp k v f)
  moreover assume "inv s" "track op (s, get s) = (s', g')"
  ultimately show ?thesis using no_evict [of s k v f] by (fastforce split: sum.splits)
next
  case (DeleteOp k)
  moreover assume "inv s" "track op (s, get s) = (s', g')"
  ultimately show ?thesis using delete_law [of s k] by (fastforce split: sum.splits)
qed

lemma run_exact: "inv s \<Longrightarrow> fold track ops (s, get s) = (s', g') \<Longrightarrow> g' = get s'"
proof (induction ops arbitrary: s)
  case Nil
  then show ?case by auto
next
  case (Cons op ops)
  obtain s1 g1 where t: "track op (s, get s) = (s1, g1)" by force
  with Cons track_inv [OF Cons.prems(1) t] track_exact [OF Cons.prems(1) t]
  show ?case by simp
qed

end


section \<open>Well-formed stores\<close>

definition sizes_ok :: "map_desc \<Rightarrow> (key \<times> val) list \<Rightarrow> bool" where
  "sizes_ok d data \<longleftrightarrow> (\<forall>(k, v) \<in> set data. length k = md_key_size d \<and> length v = md_value_size d)"

definition desc_ok :: "map_desc \<Rightarrow> bool" where
  "desc_ok d \<longleftrightarrow> 0 < md_fd d \<and> 0 < md_key_size d \<and> 0 < md_value_size d \<and> 0 < md_max_entries d
     \<and> (md_type d = MArray \<longrightarrow> md_key_size d = 4)"

text \<open>
  The two stamp tables are inverse to each other, cover exactly the stored keys, and every stamp
  in use is below the next one.
\<close>

definition stamps_ok :: "(key \<times> val) list \<Rightarrow> (nat \<times> key) list \<Rightarrow> (key \<times> nat) list \<Rightarrow> nat \<Rightarrow> bool" where
  "stamps_ok data stamps stamp_of sq \<longleftrightarrow>
     distinct (map fst stamps) \<and> distinct (map fst stamp_of)
     \<and> (\<forall>k n. map_of stamp_of k = Some n \<longleftrightarrow> map_of stamps n = Some k)
     \<and> dom (map_of stamp_of) = dom (map_of data)
     \<and> (\<forall>n \<in> dom (map_of stamps). n < sq)"

fun store_wf :: "map_store \<Rightarrow> bool" where
  "store_wf (HashStore d data) \<longleftrightarrow> desc_ok d \<and> md_type d = MHash \<and> distinct (map fst data)
     \<and> length data \<le> md_max_entries d \<and> sizes_ok d data"
| "store_wf (ArrayStore d data) \<longleftrightarrow> desc_ok d \<and> md_type d = MArray
     \<and> length data = md_max_entries d \<and> (\<forall>v \<in> set data. length v = md_value_size d)"
| "store_wf (LruStore d data stamps stamp_of sq) \<longleftrightarrow> desc_ok d \<and> md_type d = MLruArray
     \<and> distinct (map fst data) \<and> length data \<le> md_max_entries d \<and> sizes_ok d data
     \<and> stamps_ok data stamps stamp_of sq"

text \<open>The abstract content of a store, and what a deleted key holds.\<close>

fun store_get :: "map_store \<Rightarrow> key \<Rightarrow> val option" where
  "store_get (HashStore d data) k = map_of data k"
| "store_get (LruStore d data stamps stamp_of sq) k = map_of data k"
| "store_get (ArrayStore d data) k =
     (if length k = 4 \<and> unat (from_le k :: u32) < length data
      then Some (data ! unat (from_le k :: u32)) else None)"

fun store_blank :: "map_store \<Rightarrow> val option" where
  "store_blank (ArrayStore d data) = Some (replicate (md_value_size d) 0)"
| "store_blank s = None"

fun evicts :: "map_store \<Rightarrow> bool" where
  "evicts (LruStore d data stamps stamp_of sq) = True"
| "evicts s = False"

lemma length_update: "length (AList.update k v al) = (if k \<in> fst ` set al then length al else Suc (length al))"
  by (induction al) auto

lemma length_delete_less: "k \<in> fst ` set al \<Longrightarrow> length (AList.delete k al) < length al"
proof -
  assume "k \<in> fst ` set al"
  then obtain b where "(k, b) \<in> set al" by auto
  then show ?thesis unfolding AList.delete_eq by (rule length_filter_less) simp
qed

lemma set_update_subset: "set (AList.update k v al) \<subseteq> insert (k, v) (set al)"
  by (induction al) auto

lemma sizes_ok_update:
  "sizes_ok d data \<Longrightarrow> length k = md_key_size d \<Longrightarrow> length v = md_value_size d \<Longrightarrow>
     sizes_ok d (AList.update k v data)"
  using set_update_subset [of k v data] by (auto simp: sizes_ok_def)

lemma sizes_ok_delete: "sizes_ok d data \<Longrightarrow> sizes_ok d (AList.delete k data)"
  by (auto simp: sizes_ok_def AList.delete_eq)

lemma in_keys_iff: "k \<in> fst ` set al \<longleftrightarrow> map_of al k \<noteq> None"
  by (metis domIff dom_map_of_conv_image_fst)


section \<open>Stamps\<close>

lemmas alist_simps = AList.update_conv' AList.delete_conv' AList.distinct_update AList.distinct_delete

lemma pop_first_spec:
  assumes "distinct (map fst xs)"
  shows "pop_first xs = None \<longleftrightarrow> xs = []"
    and "pop_first xs = Some ((m, x), ys) \<Longrightarrow>
      map_of xs m = Some x \<and> (\<forall>n \<in> dom (map_of xs). m \<le> n) \<and> ys = AList.delete m xs"
proof -
  show "pop_first xs = None \<longleftrightarrow> xs = []" by (cases xs) (simp_all add: Let_def)
  assume p: "pop_first xs = Some ((m, x), ys)"
  then have ne: "xs \<noteq> []" by auto
  then have m: "m = Min (fst ` set xs)" "x = the (map_of xs m)" "ys = AList.delete m xs"
    using p by (cases xs; simp add: Let_def del: set_simps)+
  have fin: "finite (fst ` set xs)" "fst ` set xs \<noteq> {}" using ne by auto
  then have "m \<in> fst ` set xs" unfolding m(1) by (rule Min_in)
  then have "map_of xs m \<noteq> None" using in_keys_iff by metis
  moreover have "\<forall>n \<in> dom (map_of xs). m \<le> n"
    using fin unfolding m(1) dom_map_of_conv_image_fst by simp
  ultimately show "map_of xs m = Some x \<and> (\<forall>n \<in> dom (map_of xs). m \<le> n) \<and> ys = AList.delete m xs"
    using m by auto
qed

text \<open>Dropping a key from both tables.\<close>

lemma stamps_ok_drop:
  assumes "stamps_ok data stamps stamp_of sq" "map_of stamp_of k = Some n"
  shows "stamps_ok (AList.delete k data) (AList.delete n stamps) (AList.delete k stamp_of) sq"
proof -
  have iff: "map_of stamp_of k' = Some n' \<longleftrightarrow> map_of stamps n' = Some k'" for k' n'
    using assms(1) by (simp add: stamps_ok_def)
  have "map_of stamps n = Some k" using iff assms(2) by blast
  then have "((map_of stamp_of)(k := None)) k' = Some n' \<longleftrightarrow> ((map_of stamps)(n := None)) n' = Some k'" for k' n'
    using iff [of k' n'] assms(2) iff [of k n'] by (cases "k' = k"; cases "n' = n") auto
  with assms(1) show ?thesis
    unfolding stamps_ok_def by (simp add: alist_simps del: map_of_eq_Some_iff fun_upd_apply)
qed

text \<open>\<open>lru_touch\<close> gives the key the newest stamp.\<close>

lemma lru_touch_spec:
  assumes ok: "stamps_ok data0 stamps stamp_of sq"
    and data: "dom (map_of data) = insert k (dom (map_of data0))"
    and touch: "lru_touch stamps stamp_of sq k = (stamps', stamp_of', sq')"
  shows "stamps_ok data stamps' stamp_of' sq'" and "map_of stamps' sq = Some k"
    and "sq' = sq + 1"
    and "map_of stamps' = (\<lambda>n. if n = sq then Some k else if map_of stamps n = Some k then None else map_of stamps n)"
proof -
  define stamps1 where "stamps1 = (case map_of stamp_of k of Some old \<Rightarrow> AList.delete old stamps | None \<Rightarrow> stamps)"
  have t: "stamps' = AList.update sq k stamps1" "stamp_of' = AList.update k sq (AList.delete k stamp_of)"
    "sq' = sq + 1"
    using touch by (simp_all add: lru_touch_def Let_def stamps1_def)
  have d1: "distinct (map fst stamps1)"
    using ok by (auto simp: stamps1_def stamps_ok_def alist_simps split: option.splits)
  have inv: "map_of stamp_of k' = Some n \<longleftrightarrow> map_of stamps n = Some k'" for k' n
    using ok by (simp add: stamps_ok_def)
  have m1: "map_of stamps1 = (\<lambda>n. if map_of stamps n = Some k then None else map_of stamps n)"
  proof (cases "map_of stamp_of k")
    case None
    with inv [of k] show ?thesis by (auto simp: stamps1_def fun_eq_iff)
  next
    case (Some old)
    with inv [of k] have "map_of stamps n = Some k \<longleftrightarrow> n = old" for n
      using option.inject by metis
    then show ?thesis using Some
      by (auto simp: stamps1_def alist_simps fun_eq_iff simp del: map_of_eq_Some_iff)
  qed
  then show m': "map_of stamps' = (\<lambda>n. if n = sq then Some k else if map_of stamps n = Some k then None else map_of stamps n)"
    by (auto simp: t alist_simps fun_eq_iff)
  then show "map_of stamps' sq = Some k" by simp
  show "sq' = sq + 1" by (rule t(3))
  have so: "map_of stamp_of' = (map_of stamp_of)(k \<mapsto> sq)" by (simp add: t alist_simps fun_eq_iff)
  have old: "map_of stamps n = Some k' \<Longrightarrow> n < sq" for n k'
    using ok by (auto simp: stamps_ok_def)
  show "stamps_ok data stamps' stamp_of' sq'"
    unfolding stamps_ok_def
  proof (intro conjI allI)
    show "distinct (map fst stamps')" "distinct (map fst stamp_of')"
      using ok d1 by (simp_all add: t alist_simps stamps_ok_def)
    show "map_of stamp_of' k' = Some n \<longleftrightarrow> map_of stamps' n = Some k'" for k' n
      using inv [of k' n] old [of n k'] by (auto simp: so m')
    show "dom (map_of stamp_of') = dom (map_of data)"
      using ok data by (simp add: so stamps_ok_def)
    show "\<forall>n \<in> dom (map_of stamps'). n < sq'"
      using old by (auto simp: m' t(3) less_Suc_eq split: if_splits)
  qed
qed


section \<open>The operations meet the contract\<close>

lemma array_index_Inr:
  "length k = 4 \<Longrightarrow> array_index k n = Inr idx \<longleftrightarrow> idx = unat (from_le k :: u32) \<and> idx < n"
  by (auto simp: array_index_def Let_def)

lemma check_key_Inr [simp]: "check_key s k = Inr u \<longleftrightarrow> length k = md_key_size (map_desc_of s)"
  by (auto simp: check_key_def Let_def)

lemma check_value_Inr [simp]: "check_value s v = Inr u \<longleftrightarrow> length v = md_value_size (map_desc_of s)"
  by (auto simp: check_value_def Let_def)

lemma check_update_flags_Inr:
  "check_update_flags flag present = Inr u \<longleftrightarrow> (flag = NoExist \<longrightarrow> \<not> present) \<and> (flag = Exist \<longrightarrow> present)"
  by (cases flag) (auto simp: check_update_flags_def)

lemma array_key_inj:
  assumes "length k = 4" "length k' = 4"
  shows "unat (from_le k :: u32) = unat (from_le k' :: u32) \<longleftrightarrow> k = k'"
proof -
  have "to_le 4 (from_le k :: u32) = k" "to_le 4 (from_le k' :: u32) = k'"
    using to_le_from_le [of k, where 'a = 32] to_le_from_le [of k', where 'a = 32] assms by simp_all
  then show ?thesis by (metis unsigned_word_eqI)
qed

lemma map_lookup_spec:
  assumes "store_wf s" "map_lookup s k = Inr (r, s')"
  shows "store_wf s' \<and> r = store_get s k \<and> store_get s' = store_get s \<and> store_blank s' = store_blank s"
proof (cases s)
  case (ArrayStore d data)
  with assms show ?thesis by (auto simp: array_index_Inr desc_ok_def)
next
  case (LruStore d data stamps stamp_of sq)
  show ?thesis
  proof (cases "map_of data k")
    case None
    with LruStore assms show ?thesis by auto
  next
    case (Some v)
    obtain stamps' stamp_of' sq' where t: "lru_touch stamps stamp_of sq k = (stamps', stamp_of', sq')"
      by (metis prod_cases3)
    have "stamps_ok data stamps' stamp_of' sq'"
      using LruStore assms(1) Some
      by (intro lru_touch_spec(1) [OF _ _ t, of data]) (auto simp: domI insert_absorb)
    with LruStore Some assms t show ?thesis by auto
  qed
qed (use assms in auto)

text \<open>The state of an LRU store just before the key is touched and written.\<close>

lemma lru_evict:
  assumes wf: "store_wf (LruStore d data stamps stamp_of sq)" and absent: "map_of data k = None"
    and full: "md_max_entries d \<le> length data"
  obtains m old where "pop_first stamps = Some ((m, old), AList.delete m stamps)"
    "map_of stamps m = Some old" "\<forall>n \<in> dom (map_of stamps). m \<le> n" "old \<noteq> k"
    "map_of data old \<noteq> None" "length (AList.delete old data) < md_max_entries d"
    "stamps_ok (AList.delete old data) (AList.delete m stamps) (AList.delete old stamp_of) sq"
proof -
  have ok: "stamps_ok data stamps stamp_of sq" and pos: "0 < md_max_entries d"
    and len: "length data \<le> md_max_entries d"
    using wf by (simp_all add: desc_ok_def)
  have d: "distinct (map fst stamps)" using ok by (simp add: stamps_ok_def)
  have inv: "map_of stamp_of k = Some n \<longleftrightarrow> map_of stamps n = Some k" for k n
    using ok by (simp add: stamps_ok_def)
  from pos full obtain x where "x \<in> set data" by (cases data) auto
  then have "map_of data (fst x) \<noteq> None" using in_keys_iff by (metis image_eqI)
  then have "map_of stamp_of (fst x) \<noteq> None" using ok unfolding stamps_ok_def by (metis domIff)
  then have "stamps \<noteq> []" using inv by (cases stamps) auto
  then obtain m old ys where p: "pop_first stamps = Some ((m, old), ys)"
    using pop_first_spec(1) [OF d] by (cases "pop_first stamps") auto
  note P = pop_first_spec(2) [OF d p]
  then have so: "map_of stamp_of old = Some m" using inv by blast
  then have old: "map_of data old \<noteq> None"
    using ok unfolding stamps_ok_def by (metis domIff option.discI)
  have "length (AList.delete old data) < length data"
    by (rule length_delete_less [OF iffD2 [OF in_keys_iff old]])
  with len have "length (AList.delete old data) < md_max_entries d" by simp
  show thesis
  proof (rule that)
    show "pop_first stamps = Some ((m, old), AList.delete m stamps)" using P p by simp
    show "map_of stamps m = Some old" "\<forall>n \<in> dom (map_of stamps). m \<le> n" using P by blast+
    show "old \<noteq> k" using old absent by auto
  qed (fact old | fact \<open>length (AList.delete old data) < md_max_entries d\<close>
    | fact stamps_ok_drop [OF ok so])+
qed

lemma dom_alist_update: "dom (map_of (AList.update k v al)) = insert k (dom (map_of al))"
  by (simp add: alist_simps)

lemma map_update_lru:
  assumes wf: "store_wf (LruStore d data stamps stamp_of sq)"
    and up: "map_update (LruStore d data stamps stamp_of sq) k v flags = Inr s'"
  obtains data1 stamps1 stamp_of1 stamps2 stamp_of2 where
    "s' = LruStore d (AList.update k v data1) stamps2 stamp_of2 (sq + 1)"
    "lru_touch stamps1 stamp_of1 sq k = (stamps2, stamp_of2, sq + 1)"
    "stamps_ok data1 stamps1 stamp_of1 sq" "distinct (map fst data1)" "sizes_ok d data1"
    "map_of data k \<noteq> None \<or> length data < md_max_entries d \<Longrightarrow>
       data1 = data \<and> stamps1 = stamps \<and> stamp_of1 = stamp_of"
    "map_of data k = None \<Longrightarrow> md_max_entries d \<le> length data \<Longrightarrow> \<exists>m old.
       map_of stamps m = Some old \<and> (\<forall>n \<in> dom (map_of stamps). m \<le> n) \<and> old \<noteq> k
       \<and> data1 = AList.delete old data \<and> stamps1 = AList.delete m stamps"
    "length (AList.update k v data1) \<le> md_max_entries d"
    "length k = md_key_size d" "length v = md_value_size d"
proof -
  have W: "stamps_ok data stamps stamp_of sq" "distinct (map fst data)" "sizes_ok d data"
    "length data \<le> md_max_entries d"
    using wf by simp_all
  from up have len: "length k = md_key_size d" "length v = md_value_size d" by auto
  show thesis
  proof (cases "map_of data k = None \<and> md_max_entries d \<le> length data")
    case True
    then obtain m old where e: "pop_first stamps = Some ((m, old), AList.delete m stamps)"
      "map_of stamps m = Some old" "\<forall>n \<in> dom (map_of stamps). m \<le> n" "old \<noteq> k"
      "length (AList.delete old data) < md_max_entries d"
      "stamps_ok (AList.delete old data) (AList.delete m stamps) (AList.delete old stamp_of) sq"
      using lru_evict [OF wf] by metis
    obtain stamps2 stamp_of2 sq2 where
      t: "lru_touch (AList.delete m stamps) (AList.delete old stamp_of) sq k = (stamps2, stamp_of2, sq2)"
      by (metis prod_cases3)
    then have sq2: "sq2 = sq + 1" by (simp add: lru_touch_def Let_def)
    show thesis
    proof (rule that)
      show "s' = LruStore d (AList.update k v (AList.delete old data)) stamps2 stamp_of2 (sq + 1)"
        using up True e(1) t sq2 by (auto simp: Let_def)
      show "length (AList.update k v (AList.delete old data)) \<le> md_max_entries d"
        using e(5) by (simp add: length_update)
    qed (use True e t sq2 W len in \<open>auto simp: alist_simps sizes_ok_delete\<close>)
  next
    case False
    obtain stamps2 stamp_of2 sq2 where
      t: "lru_touch stamps stamp_of sq k = (stamps2, stamp_of2, sq2)"
      by (metis prod_cases3)
    then have sq2: "sq2 = sq + 1" by (simp add: lru_touch_def Let_def)
    show thesis
    proof (rule that)
      show "s' = LruStore d (AList.update k v data) stamps2 stamp_of2 (sq + 1)"
        using up False t sq2 by (auto simp: Let_def split: if_splits)
      show "length (AList.update k v data) \<le> md_max_entries d"
        using False W(4) in_keys_iff [of k data] by (auto simp: length_update)
    qed (use False t sq2 W len in auto)
  qed
qed


lemma map_update_spec:
  assumes wf: "store_wf s" and up: "map_update s k v flags = Inr s'"
  shows "store_wf s' \<and> store_get s' k = Some v \<and> store_get s' \<subseteq>\<^sub>m (store_get s)(k \<mapsto> v)
    \<and> store_blank s' = store_blank s \<and> evicts s' = evicts s
    \<and> (\<not> evicts s \<longrightarrow> store_get s' = (store_get s)(k \<mapsto> v))"
proof (cases s)
  case (HashStore d data)
  with up have s': "s' = HashStore d (AList.update k v data)"
    and room: "map_of data k = None \<Longrightarrow> length data < md_max_entries d"
    and len: "length k = md_key_size d" "length v = md_value_size d"
    by (auto simp: Let_def split: if_splits)
  have "k \<notin> fst ` set data \<Longrightarrow> length data < md_max_entries d"
    using room in_keys_iff by metis
  then have "length (AList.update k v data) \<le> md_max_entries d"
    using wf HashStore by (simp add: length_update Suc_le_eq)
  moreover have "store_get s' = (store_get s)(k \<mapsto> v)"
    using HashStore s' by (simp add: alist_simps fun_eq_iff)
  ultimately show ?thesis
    using HashStore wf s' len by (simp add: alist_simps sizes_ok_update)
next
  case (ArrayStore d data)
  let ?i = "unat (from_le k :: u32)"
  have k4: "md_key_size d = 4" using wf ArrayStore by (simp add: desc_ok_def)
  with up ArrayStore have s': "s' = ArrayStore d (data[?i := v])" "?i < md_max_entries d"
    "length k = 4" "length v = md_value_size d"
    by (auto simp: array_index_Inr split: if_splits)
  have "store_get s' = (store_get s)(k \<mapsto> v)"
    using s' wf ArrayStore array_key_inj [of k] by (auto simp: fun_eq_iff nth_list_update)
  with wf s' ArrayStore show ?thesis
    by (auto dest!: set_update_subset_insert [THEN subsetD])
next
  case (LruStore d data stamps stamp_of sq)
  show ?thesis
  proof (rule map_update_lru [OF wf [unfolded LruStore] up [unfolded LruStore]])
    fix data1 stamps1 stamp_of1 stamps2 stamp_of2
    assume s': "s' = LruStore d (AList.update k v data1) stamps2 stamp_of2 (sq + 1)"
      and t: "lru_touch stamps1 stamp_of1 sq k = (stamps2, stamp_of2, sq + 1)"
      and ok: "stamps_ok data1 stamps1 stamp_of1 sq" "distinct (map fst data1)" "sizes_ok d data1"
      and same: "map_of data k \<noteq> None \<or> length data < md_max_entries d \<Longrightarrow>
        data1 = data \<and> stamps1 = stamps \<and> stamp_of1 = stamp_of"
      and evict: "map_of data k = None \<Longrightarrow> md_max_entries d \<le> length data \<Longrightarrow> \<exists>m old.
         map_of stamps m = Some old \<and> (\<forall>n \<in> dom (map_of stamps). m \<le> n) \<and> old \<noteq> k
         \<and> data1 = AList.delete old data \<and> stamps1 = AList.delete m stamps"
      and len: "length (AList.update k v data1) \<le> md_max_entries d"
        "length k = md_key_size d" "length v = md_value_size d"
    have "stamps_ok (AList.update k v data1) stamps2 stamp_of2 (sq + 1)"
      by (rule lru_touch_spec(1) [OF ok(1) dom_alist_update t])
    then have "store_wf s'"
      using wf s' ok len LruStore by (simp add: alist_simps sizes_ok_update)
    moreover have "map_of data1 \<subseteq>\<^sub>m map_of data"
      using same evict by (cases "map_of data k \<noteq> None \<or> length data < md_max_entries d")
        (auto simp: alist_simps map_le_def not_less split: if_splits)
    ultimately show ?thesis
      using s' LruStore by (auto simp: alist_simps map_le_def)
  qed
qed

lemma map_delete_spec:
  assumes wf: "store_wf s" and del: "map_delete s k = Inr s'"
  shows "store_wf s' \<and> store_get s' = (store_get s)(k := store_blank s) \<and> store_blank s' = store_blank s
    \<and> evicts s' = evicts s"
proof (cases s)
  case (HashStore d data)
  with wf del have s': "s' = HashStore d (AList.delete k data)" by (auto split: if_splits)
  with wf HashStore show ?thesis
    using length_delete_le [of k data] by (auto simp: alist_simps fun_eq_iff sizes_ok_delete)
next
  case (ArrayStore d data)
  let ?i = "unat (from_le k :: u32)"
  have k4: "md_key_size d = 4" using wf ArrayStore by (simp add: desc_ok_def)
  with del ArrayStore have s': "s' = ArrayStore d (data[?i := replicate (md_value_size d) 0])"
    "?i < md_max_entries d" "length k = 4"
    by (auto simp: array_index_Inr)
  have "store_get s' = (store_get s)(k := store_blank s)"
    using s' wf ArrayStore array_key_inj [of k] by (auto simp: fun_eq_iff nth_list_update)
  with wf s' ArrayStore show ?thesis
    by (auto dest!: set_update_subset_insert [THEN subsetD])
next
  case (LruStore d data stamps stamp_of sq)
  from wf LruStore have ok: "stamps_ok data stamps stamp_of sq" by simp
  from del LruStore have k: "map_of data k \<noteq> None" by (auto split: if_splits)
  then obtain n where n: "map_of stamp_of k = Some n"
    using ok unfolding stamps_ok_def by (metis domIff option.exhaust)
  with del LruStore have s': "s' = LruStore d (AList.delete k data) (AList.delete n stamps)
      (AList.delete k stamp_of) sq"
    by (auto split: if_splits)
  with wf LruStore show ?thesis
    using length_delete_le [of k data] stamps_ok_drop [OF ok n]
    by (auto simp: alist_simps fun_eq_iff sizes_ok_delete)
qed

interpretation map_kv: kv_store store_wf store_get store_blank map_lookup map_update map_delete
  using map_lookup_spec map_update_spec map_delete_spec by unfold_locales metis+

interpretation exact_map: exact_kv "\<lambda>s. store_wf s \<and> \<not> evicts s" store_get store_blank
    map_lookup map_update map_delete
proof unfold_locales
  fix s k r s'
  assume s: "store_wf s \<and> \<not> evicts s" "map_lookup s k = Inr (r, s')"
  then have "\<not> evicts s'" by (cases s) auto
  with s map_lookup_spec [of s k r s'] show "(store_wf s' \<and> \<not> evicts s') \<and> r = store_get s k
      \<and> store_get s' = store_get s \<and> store_blank s' = store_blank s" by blast
next
  fix s k v f s'
  assume s: "store_wf s \<and> \<not> evicts s" "map_update s k v f = Inr s'"
  with map_update_spec [of s k v f s'] show "(store_wf s' \<and> \<not> evicts s') \<and> store_get s' k = Some v
      \<and> store_get s' \<subseteq>\<^sub>m (store_get s)(k \<mapsto> v) \<and> store_blank s' = store_blank s"
    and "store_get s' = (store_get s)(k \<mapsto> v)" by blast+
next
  fix s k s'
  assume "store_wf s \<and> \<not> evicts s" "map_delete s k = Inr s'"
  with map_delete_spec [of s k s'] show "(store_wf s' \<and> \<not> evicts s')
      \<and> store_get s' = (store_get s)(k := store_blank s) \<and> store_blank s' = store_blank s" by blast
qed


section \<open>New stores\<close>

lemma check_initial_Inr [simp]:
  "check_initial d kv = Inr kv' \<longleftrightarrow> kv' = kv \<and> length (fst kv) = md_key_size d \<and> length (snd kv) = md_value_size d"
  by (cases kv) (auto simp: check_initial_def)

lemma initial_checked: "traverse (check_initial d) xs = Inr ys \<longleftrightarrow> ys = xs \<and> sizes_ok d xs"
  by (induction xs arbitrary: ys) (auto simp: sizes_ok_def)

lemma fold_update:
  assumes "distinct (map fst xs)" "fst ` set xs \<inter> dom (map_of al) = {}" "distinct (map fst al)"
  shows "map_of (fold (\<lambda>(k, v). AList.update k v) xs al) = map_of al ++ map_of xs
    \<and> length (fold (\<lambda>(k, v). AList.update k v) xs al) \<le> length al + length xs
    \<and> distinct (map fst (fold (\<lambda>(k, v). AList.update k v) xs al))"
  using assms
proof (induction xs arbitrary: al)
  case Nil
  then show ?case by simp
next
  case (Cons x xs)
  obtain k v where x: "x = (k, v)" by force
  have k: "k \<notin> dom (map_of xs)" using Cons.prems(1) x by (auto simp: dom_map_of_conv_image_fst)
  have "fst ` set xs \<inter> dom (map_of (AList.update k v al)) = {}"
    using Cons.prems x by (auto simp: alist_simps)
  moreover have "distinct (map fst xs)" "distinct (map fst (AList.update k v al))"
    using Cons.prems by (simp_all add: alist_simps)
  ultimately have IH: "map_of (fold (\<lambda>(k, v). AList.update k v) xs (AList.update k v al)) =
        map_of (AList.update k v al) ++ map_of xs
    \<and> length (fold (\<lambda>(k, v). AList.update k v) xs (AList.update k v al))
        \<le> length (AList.update k v al) + length xs
    \<and> distinct (map fst (fold (\<lambda>(k, v). AList.update k v) xs (AList.update k v al)))"
    by (intro Cons.IH)
  moreover have "map_of (AList.update k v al) ++ map_of xs = map_of al ++ map_of (x # xs)"
    unfolding AList.update_conv' map_add_upd_left [OF k] by (simp add: x)
  moreover have "length (AList.update k v al) \<le> Suc (length al)" by (simp add: length_update)
  ultimately show ?case by (simp add: x del: map_of.simps)
qed

lemma sizes_ok_Cons [simp]:
  "sizes_ok d ((k, v) # xs) \<longleftrightarrow> length k = md_key_size d \<and> length v = md_value_size d \<and> sizes_ok d xs"
  by (auto simp: sizes_ok_def)

lemma array_fill_index:
  "array_fill n data xs = Inr data' \<Longrightarrow> (k, v) \<in> set xs \<Longrightarrow> length k = 4 \<Longrightarrow>
     unat (from_le k :: u32) < n"
  by (induction xs arbitrary: data) (auto simp: array_index_Inr)

lemma fold_update_sizes:
  "sizes_ok d xs \<Longrightarrow> sizes_ok d al \<Longrightarrow> sizes_ok d (fold (\<lambda>(k, v). AList.update k v) xs al)"
proof (induction xs arbitrary: al)
  case (Cons x xs)
  obtain k v where "x = (k, v)" by force
  with Cons show ?case by (simp add: sizes_ok_update)
qed simp

lemma array_fill_spec:
  assumes "array_fill n data xs = Inr data'" "length data = n" "distinct (map fst xs)"
    and "\<forall>kv \<in> set xs. length (fst kv) = 4"
  shows "length data' = n
    \<and> set data' \<subseteq> set data \<union> snd ` set xs
    \<and> (\<forall>k. length k = 4 \<and> unat (from_le k :: u32) < n \<longrightarrow> data' ! unat (from_le k :: u32) =
        (case map_of xs k of Some v \<Rightarrow> v | None \<Rightarrow> data ! unat (from_le k :: u32)))"
  using assms
proof (induction xs arbitrary: data)
  case Nil
  then show ?case by simp
next
  case (Cons x xs)
  obtain k v where x: "x = (k, v)" by force
  let ?i = "unat (from_le k :: u32)"
  from Cons.prems x have i: "?i < n" and fill: "array_fill n (data[?i := v]) xs = Inr data'"
    and k4: "length k = 4"
    by (auto simp: array_index_Inr)
  have k: "map_of xs k = None" using Cons.prems(3) x by (auto simp: map_of_eq_None_iff)
  have len: "length (data[?i := v]) = n" "distinct (map fst xs)" "\<forall>kv \<in> set xs. length (fst kv) = 4"
    using Cons.prems by simp_all
  note IH = Cons.IH [OF fill len]
  have "data' ! unat (from_le k' :: u32) =
      (case map_of (x # xs) k' of Some v \<Rightarrow> v | None \<Rightarrow> data ! unat (from_le k' :: u32))"
    if "length k' = 4" "unat (from_le k' :: u32) < n" for k'
    using IH that i k k4 x Cons.prems(2) array_key_inj [OF that(1) k4]
    by (cases "k' = k") (simp_all split: option.split)
  moreover have "set (data[?i := v]) \<subseteq> insert v (set data)" by (rule set_update_subset_insert)
  ultimately show ?case using IH x by auto
qed

lemma lru_fill_spec:
  assumes "lru_fill xs (data, stamps, stamp_of, sq) = (data', stamps', stamp_of', sq')"
    and "stamps_ok data stamps stamp_of sq" "distinct (map fst xs)" "fst ` set xs \<inter> dom (map_of data) = {}"
  shows "data' = fold (\<lambda>(k, v). AList.update k v) xs data \<and> stamps_ok data' stamps' stamp_of' sq'"
  using assms
proof (induction xs arbitrary: data stamps stamp_of sq)
  case Nil
  then show ?case by simp
next
  case (Cons x xs)
  obtain k v where x: "x = (k, v)" by force
  have "map_of data k = None" using Cons.prems(4) x by auto
  then have so: "map_of stamp_of k = None"
    using Cons.prems(2) unfolding stamps_ok_def by (metis domIff)
  then have "k \<notin> fst ` set stamp_of" by (simp add: in_keys_iff)
  with so have "lru_touch stamps stamp_of sq k = (AList.update sq k stamps, AList.update k sq stamp_of, sq + 1)"
    by (simp add: lru_touch_def)
  from lru_touch_spec(1) [OF Cons.prems(2) dom_alist_update this]
  have ok: "stamps_ok (AList.update k v data) (AList.update sq k stamps) (AList.update k sq stamp_of) (sq + 1)" .
  have "fst ` set xs \<inter> dom (map_of (AList.update k v data)) = {}"
    using Cons.prems(3,4) x by (auto simp: alist_simps)
  moreover have "lru_fill xs (AList.update k v data, AList.update sq k stamps, AList.update k sq stamp_of, sq + 1)
      = (data', stamps', stamp_of', sq')" "distinct (map fst xs)"
    using Cons.prems x by simp_all
  ultimately have "data' = fold (\<lambda>(k, v). AList.update k v) xs (AList.update k v data)
      \<and> stamps_ok data' stamps' stamp_of' sq'"
    by (intro Cons.IH [OF _ ok])
  then show ?case by (simp add: x) auto
qed

lemma store_new_spec:
  assumes new: "store_new d = Inr s" and dist: "distinct (map fst (md_initial d))"
  shows "store_wf s \<and> map_desc_of s = d \<and>
    (\<forall>k. store_get s k = (case map_of (md_initial d) k of Some v \<Rightarrow> Some v
        | None \<Rightarrow> if length k = md_key_size d \<and> (md_type d = MArray \<longrightarrow> unat (from_le k :: u32) < md_max_entries d)
                   then store_blank s else None))"
proof -
  let ?xs = "md_initial d"
  let ?hash = "fold (\<lambda>(k, v). AList.update k v) ?xs []"
  from new have d: "desc_ok d" and sizes: "sizes_ok d ?xs" and len: "length ?xs \<le> md_max_entries d"
    and s: "(case md_type d of MHash \<Rightarrow> Inr (HashStore d ?hash)
       | MArray \<Rightarrow> bind_res (array_fill (md_max_entries d)
              (replicate (md_max_entries d) (replicate (md_value_size d) 0)) ?xs) (\<lambda>data. Inr (ArrayStore d data))
       | MLruArray \<Rightarrow> let (data, stamps, stamp_of, sq) = lru_fill ?xs ([], [], [], 0)
           in Inr (LruStore d data stamps stamp_of sq)) = Inr s"
    by (auto simp: store_new_def desc_ok_def initial_checked split: if_splits)
  note F = fold_update [OF dist, of "[]"] fold_update_sizes [OF sizes, of "[]"]
  show ?thesis
  proof (cases "md_type d")
    case MHash
    with s F d len show ?thesis by (auto simp: sizes_ok_def split: option.splits)
  next
    case MLruArray
    obtain data stamps stamp_of sq where l: "lru_fill ?xs ([], [], [], 0) = (data, stamps, stamp_of, sq)"
      by (metis prod_cases4)
    from lru_fill_spec [OF l _ dist] have "data = ?hash" "stamps_ok data stamps stamp_of sq"
      by (simp_all add: stamps_ok_def)
    with MLruArray s l F d len show ?thesis by (auto simp: sizes_ok_def split: option.splits)
  next
    case MArray
    then obtain data where fill: "array_fill (md_max_entries d)
              (replicate (md_max_entries d) (replicate (md_value_size d) 0)) ?xs = Inr data"
      and s': "s = ArrayStore d data" using s by auto
    have k4: "md_key_size d = 4" using d MArray by (simp add: desc_ok_def)
    have keys: "\<forall>kv \<in> set ?xs. length (fst kv) = 4" "\<forall>kv \<in> set ?xs. length (snd kv) = md_value_size d"
      using sizes k4 by (auto simp: sizes_ok_def)
    note A = array_fill_spec [OF fill _ dist keys(1)]
    have small: "unat (from_le k :: u32) < md_max_entries d" if "map_of ?xs k = Some v" for k v
      using array_fill_index [OF fill] keys(1) map_of_SomeD [OF that] by fastforce
    from A keys(2) have "\<forall>v \<in> set data. length v = md_value_size d" by fastforce
    moreover have "store_get s k = (case map_of ?xs k of Some v \<Rightarrow> Some v
        | None \<Rightarrow> if length k = 4 \<and> unat (from_le k :: u32) < md_max_entries d
                   then Some (replicate (md_value_size d) 0) else None)" for k
    proof (cases "map_of ?xs k")
      case (Some v)
      then have "length k = 4" using keys(1) map_of_SomeD [OF Some] by force
      with A Some small [OF Some] s' show ?thesis by simp
    qed (use A s' in auto)
    moreover have "store_wf s" "map_desc_of s = d" "store_blank s = Some (replicate (md_value_size d) 0)"
      using A d MArray s' calculation(1) by simp_all
    ultimately show ?thesis using MArray k4 by (auto split: option.split)
  qed
qed


section \<open>Recency\<close>

text \<open>The stored keys from the least to the most recently used.\<close>

definition keys_of :: "(nat \<times> key) list \<Rightarrow> key list" where
  "keys_of stamps = map (\<lambda>n. the (map_of stamps n)) (sorted_list_of_set (fst ` set stamps))"

fun lru_keys :: "map_store \<Rightarrow> key list" where
  "lru_keys (LruStore d data stamps stamp_of sq) = keys_of stamps"
| "lru_keys s = []"

lemma sorted_list_snoc:
  assumes "finite A" "\<forall>a \<in> A. a < (x :: nat)" "B = insert x A"
  shows "sorted_list_of_set B = sorted_list_of_set A @ [x]"
proof (rule sorted_distinct_set_unique)
  have "finite B" using assms by simp
  then have "set (sorted_list_of_set B) = B" by (rule set_sorted_list_of_set)
  then show "set (sorted_list_of_set B) = set (sorted_list_of_set A @ [x])" using assms(1,3) by simp
qed (use assms in \<open>auto simp: sorted_append less_imp_le simp del: sorted_list_of_set_insert_remove\<close>)

lemma sorted_list_Cons:
  assumes "finite A" "\<forall>a \<in> A. (x :: nat) < a" "B = insert x A"
  shows "sorted_list_of_set B = x # sorted_list_of_set A"
proof (rule sorted_distinct_set_unique)
  have "finite B" using assms by simp
  then have "set (sorted_list_of_set B) = B" by (rule set_sorted_list_of_set)
  then show "set (sorted_list_of_set B) = set (x # sorted_list_of_set A)" using assms(1,3) by simp
qed (use assms in \<open>auto simp: less_imp_le simp del: sorted_list_of_set_insert_remove\<close>)

lemma sorted_list_filter:
  "finite A \<Longrightarrow> sorted_list_of_set {a \<in> A. P a} = filter P (sorted_list_of_set (A :: nat set))"
  by (rule sorted_distinct_set_unique) (auto simp: sorted_wrt_filter)

lemma keys_of_filter:
  assumes "fst ` set stamps' = {n \<in> fst ` set stamps. map_of stamps n \<noteq> Some k}"
    and "\<And>n. n \<in> fst ` set stamps' \<Longrightarrow> map_of stamps' n = map_of stamps n"
  shows "keys_of stamps' = filter (\<lambda>x. x \<noteq> k) (keys_of stamps)"
proof -
  let ?D = "fst ` set stamps"
  have "map (\<lambda>n. the (map_of stamps' n)) (sorted_list_of_set (fst ` set stamps'))
      = map (\<lambda>n. the (map_of stamps n)) (filter (\<lambda>n. map_of stamps n \<noteq> Some k) (sorted_list_of_set ?D))"
    using assms by (simp add: sorted_list_filter)
  also have "\<dots> = map (\<lambda>n. the (map_of stamps n)) (filter (\<lambda>n. the (map_of stamps n) \<noteq> k) (sorted_list_of_set ?D))"
  proof (intro arg_cong [where f = "map _"] filter_cong refl)
    fix n
    assume "n \<in> set (sorted_list_of_set ?D)"
    then have "map_of stamps n \<noteq> None" using in_keys_iff [of n stamps] by simp
    then show "map_of stamps n \<noteq> Some k \<longleftrightarrow> the (map_of stamps n) \<noteq> k" by auto
  qed
  finally show ?thesis by (simp add: keys_of_def filter_map comp_def)
qed

lemma touch_keys:
  assumes ok: "stamps_ok data stamps stamp_of sq"
    and touch: "lru_touch stamps stamp_of sq k = (stamps', stamp_of', sq')"
  shows "keys_of stamps' = filter (\<lambda>x. x \<noteq> k) (keys_of stamps) @ [k]"
proof -
  define stamps1 where "stamps1 = (case map_of stamp_of k of Some old \<Rightarrow> AList.delete old stamps | None \<Rightarrow> stamps)"
  have st: "stamps' = AList.update sq k stamps1"
    using touch by (simp add: lru_touch_def Let_def stamps1_def)
  have inv: "map_of stamp_of k = Some n \<longleftrightarrow> map_of stamps n = Some k" for n
    using ok by (simp add: stamps_ok_def)
  have m1: "map_of stamps1 n = (if map_of stamps n = Some k then None else map_of stamps n)" for n
  proof (cases "map_of stamp_of k")
    case (Some old)
    then have "map_of stamps n = Some k \<longleftrightarrow> n = old" using inv option.inject by metis
    with Some show ?thesis by (simp add: stamps1_def alist_simps)
  qed (use inv in \<open>simp add: stamps1_def\<close>)
  have dom1: "fst ` set stamps1 = {n \<in> fst ` set stamps. map_of stamps n \<noteq> Some k}"
    by (auto simp only: set_eq_iff in_keys_iff m1 mem_Collect_eq split: if_splits)
  have "map_of stamps1 n = map_of stamps n" if "n \<in> fst ` set stamps1" for n
    using that in_keys_iff [of n stamps1] by (metis m1)
  with dom1 have k1: "keys_of stamps1 = filter (\<lambda>x. x \<noteq> k) (keys_of stamps)"
    by (rule keys_of_filter)
  have small: "n < sq" if "n \<in> fst ` set stamps" for n
    using ok that by (auto simp: stamps_ok_def dom_map_of_conv_image_fst)
  then have less: "\<forall>n \<in> fst ` set stamps1. n < sq" using dom1 by blast
  have "sorted_list_of_set (fst ` set stamps') = sorted_list_of_set (fst ` set stamps1) @ [sq]"
    using less by (intro sorted_list_snoc) (simp_all add: st AList.dom_update)
  moreover have "the (map_of stamps' n) = the (map_of stamps1 n)" if "n \<in> fst ` set stamps1" for n
    using that less by (auto simp: st alist_simps)
  ultimately have "keys_of stamps' = keys_of stamps1 @ [k]"
    by (simp add: keys_of_def st alist_simps)
  with k1 show ?thesis by simp
qed

lemma drop_keys:
  assumes "stamps_ok data stamps stamp_of sq" "map_of stamps m = Some k"
  shows "keys_of (AList.delete m stamps) = filter (\<lambda>x. x \<noteq> k) (keys_of stamps)"
proof (rule keys_of_filter)
  have inv: "map_of stamps n = Some k \<longleftrightarrow> n = m" for n
    using assms unfolding stamps_ok_def by (metis option.inject)
  show "fst ` set (AList.delete m stamps) = {n \<in> fst ` set stamps. map_of stamps n \<noteq> Some k}"
    unfolding inv by (auto simp: AList.delete_eq image_iff)
  show "map_of (AList.delete m stamps) n = map_of stamps n" if "n \<in> fst ` set (AList.delete m stamps)" for n
    using that in_keys_iff [of n "AList.delete m stamps"] by (auto simp: alist_simps)
qed

lemma set_keys_of:
  assumes "stamps_ok data stamps stamp_of sq"
  shows "set (keys_of stamps) = dom (map_of data)"
proof -
  have "k \<in> set (keys_of stamps) \<longleftrightarrow> k \<in> dom (map_of data)" for k
  proof -
    have "k \<in> set (keys_of stamps) \<longleftrightarrow> (\<exists>n \<in> fst ` set stamps. k = the (map_of stamps n))"
      by (auto simp: keys_of_def)
    also have "\<dots> \<longleftrightarrow> (\<exists>n. map_of stamps n = Some k)"
      by (simp only: Bex_def in_keys_iff) force
    also have "\<dots> \<longleftrightarrow> k \<in> dom (map_of stamp_of)"
      using assms unfolding stamps_ok_def dom_def by blast
    finally show ?thesis using assms by (simp add: stamps_ok_def)
  qed
  then show ?thesis by blast
qed

lemma evict_keys:
  assumes ok: "stamps_ok data stamps stamp_of sq" and m: "map_of stamps m = Some old"
    and least: "\<forall>n \<in> dom (map_of stamps). m \<le> n"
  shows "keys_of stamps = old # keys_of (AList.delete m stamps)"
proof -
  have "m \<in> fst ` set stamps" using m in_keys_iff by (metis option.discI)
  moreover have keys: "fst ` set (AList.delete m stamps) = fst ` set stamps - {m}"
    by (auto simp: AList.delete_eq image_iff)
  ultimately have D: "fst ` set stamps = insert m (fst ` set (AList.delete m stamps))"
    by (simp only: insert_Diff)
  have "\<forall>n \<in> fst ` set (AList.delete m stamps). m < n"
  proof
    fix n
    assume "n \<in> fst ` set (AList.delete m stamps)"
    then have "n \<in> dom (map_of stamps)" "n \<noteq> m" by (simp_all add: keys dom_map_of_conv_image_fst)
    with least show "m < n" by (metis le_neq_implies_less)
  qed
  then have "sorted_list_of_set (fst ` set stamps) = m # sorted_list_of_set (fst ` set (AList.delete m stamps))"
    by (rule sorted_list_Cons [OF finite_imageI [OF finite_set] _ D])
  moreover have "map_of (AList.delete m stamps) n = map_of stamps n"
    if "n \<in> fst ` set (AList.delete m stamps)" for n
    using that keys by (simp add: alist_simps)
  ultimately show ?thesis by (simp add: keys_of_def m)
qed


section \<open>Tables of stores and the hex codec\<close>

lemma place_stores_spec:
  assumes "place_stores table descs = Inr table'" "\<forall>d \<in> set descs. nat (md_fd d) < length table"
  shows "length table' = length table \<and> distinct (map md_fd descs)
    \<and> (\<forall>d \<in> set descs. 0 \<le> md_fd d \<and> table ! nat (md_fd d) = None \<and> is_ok (store_new d))
    \<and> (\<forall>i < length table. \<forall>s. table' ! i = Some s \<longleftrightarrow>
         table ! i = Some s \<or> (\<exists>d \<in> set descs. md_fd d = int i \<and> store_new d = Inr s))"
  using assms
proof (induction descs arbitrary: table)
  case Nil
  then show ?case by simp
next
  case (Cons d descs)
  from Cons.prems(1) obtain s where fd: "0 \<le> md_fd d" "table ! nat (md_fd d) = None"
    and s: "store_new d = Inr s"
    and rest: "place_stores (table[nat (md_fd d) := Some s]) descs = Inr table'"
    by (auto simp: Let_def split: if_splits)
  have len: "\<forall>d' \<in> set descs. nat (md_fd d') < length (table[nat (md_fd d) := Some s])"
    using Cons.prems(2) by simp
  note IH = Cons.IH [OF rest len]
  have ne: "md_fd d' \<noteq> md_fd d" "table ! nat (md_fd d') = None" if "d' \<in> set descs" for d'
    using IH that Cons.prems(2) by (metis list.set_intros(1) nth_list_update option.discI)+
  have "table' ! i = Some t \<longleftrightarrow> table ! i = Some t
      \<or> (\<exists>d' \<in> set (d # descs). md_fd d' = int i \<and> store_new d' = Inr t)" if "i < length table" for i t
  proof (cases "i = nat (md_fd d)")
    case True
    with IH that fd s ne(1) show ?thesis by auto
  next
    case False
    with IH that fd show ?thesis by auto
  qed
  moreover have "md_fd d \<notin> md_fd ` set descs" using ne(1) by (metis imageE)
  moreover have "length table' = length table" "distinct (map md_fd descs)"
    "\<forall>d \<in> set descs. 0 \<le> md_fd d \<and> is_ok (store_new d)"
    using IH by simp_all
  ultimately show ?case using fd s ne(2) by simp
qed

lemma hex_digit_round: "n < 16 \<Longrightarrow> hex_val (hex_digit n) = Some n"
proof -
  assume "n < 16"
  then have "unat n < 16" by (simp add: word_less_nat_alt)
  moreover have "list_all (\<lambda>i. hex_val (hex_digit (word_of_nat i)) = Some (word_of_nat i)) [0..<16]"
    by code_simp
  ultimately have "hex_val (hex_digit (word_of_nat (unat n))) = Some (word_of_nat (unat n))"
    unfolding list_all_iff by (metis atLeastLessThan_iff le0 set_upt)
  then show ?thesis by simp
qed

lemma nibbles: "drop_bit 4 (b :: u8) < 16" "b AND 0x0F < 16" "push_bit 4 (drop_bit 4 b) OR (b AND 0x0F) = b"
proof -
  have m: "(0x0F :: u8) = mask 4" by (simp add: mask_eq_exp_minus_1)
  have "unat (drop_bit 4 b) < 16"
    using unsigned_less [of b, where 'a = nat] by (simp add: drop_bit_eq_div unat_div)
  then show "drop_bit 4 b < 16" by (simp add: word_less_nat_alt)
  have "b AND 0x0F \<le> 0x0F" by (rule word_and_le1)
  then show "b AND 0x0F < 16" by (rule order_le_less_trans) simp
  show "push_bit 4 (drop_bit 4 b) OR (b AND 0x0F) = b"
    unfolding m by (rule bit_eqI) (auto simp: bit_simps)
qed


section \<open>Properties\<close>


definition sample_desc :: "map_type \<Rightarrow> map_desc" where
  "sample_desc t = \<lparr>md_fd = 3, md_type = t, md_key_size = 4, md_value_size = 1, md_max_entries = 2,
     md_initial = [([0, 0, 0, 0], [7])], md_name = None\<rparr>"




definition sample_lru :: map_store where
  "sample_lru = LruStore (sample_desc MLruArray) [([1, 0, 0, 0], [5]), ([2, 0, 0, 0], [6])]
     [(3, [1, 0, 0, 0]), (4, [2, 0, 0, 0])] [([1, 0, 0, 0], 3), ([2, 0, 0, 0], 4)] 5"


text \<open>
  an update succeeds exactly when its flags are known, key and value have the declared
  sizes, the flag agrees with the presence of the key, and a hash store has room; array slots
  are always present, and an LRU store always has room.
\<close>

theorem map_update_succeeds_iff:
  assumes "store_wf s"
  shows "is_ok (map_update s k v flags) \<longleftrightarrow>
    flags \<in> {0, 1, 2} \<and> length k = md_key_size (map_desc_of s) \<and> length v = md_value_size (map_desc_of s)
    \<and> (flags = 1 \<longrightarrow> store_get s k = None) \<and> (flags = 2 \<longrightarrow> store_get s k \<noteq> None)
    \<and> (store_get s k = None \<longrightarrow> md_type (map_desc_of s) = MLruArray
         \<or> md_type (map_desc_of s) = MHash \<and> store_len s < store_capacity s)"
proof (cases "flags_of flags")
  case (Inl e)
  then show ?thesis by (auto simp: is_ok_bind flags_of_def split: if_splits)
next
  case (Inr fl)
  have lens: "is_ok (bind_res (check_key s k) (\<lambda>_. bind_res (check_value s v) (\<lambda>_. r))) \<longleftrightarrow>
      length k = md_key_size (map_desc_of s) \<and> length v = md_value_size (map_desc_of s) \<and> is_ok r" for r :: "map_error + map_store"
    by (auto simp: is_ok_bind)
  have fl: "flags \<in> {0, 1, 2}" "flags = 1 \<longleftrightarrow> fl = NoExist" "flags = 2 \<longleftrightarrow> fl = Exist"
    using Inr by (auto simp: flags_of_def split: if_splits)
  show ?thesis
  proof (cases s)
    case (HashStore d data)
    with assms show ?thesis unfolding map_update.simps Inr bind_res.simps lens fl(2,3)
      using fl(1) by (cases "map_of data k"; cases fl) (auto simp: check_update_flags_def store_capacity_def)
  next
    case (ArrayStore d data)
    with assms show ?thesis unfolding map_update.simps Inr bind_res.simps lens fl(2,3)
      using fl(1) by (auto simp: is_ok_bind array_index_Inr desc_ok_def)
  next
    case (LruStore d data stamps stamp_of sq)
    with assms show ?thesis unfolding map_update.simps Inr bind_res.simps lens fl(2,3)
      using fl(1) by (cases "map_of data k"; cases fl)
        (auto simp: check_update_flags_def Let_def split: prod.splits)
  qed
qed

theorem map_update_succeeds_iff_witness:
  "\<not> is_ok (map_update (HashStore (sample_desc MHash) [([0, 0, 0, 0], [7])]) [0, 0, 0, 0] [1] 1)"
proof -
  have "store_wf (HashStore (sample_desc MHash) [([0, 0, 0, 0], [7])])"
    by (simp add: desc_ok_def sample_desc_def sizes_ok_def)
  from map_update_succeeds_iff [OF this] show ?thesis by (simp del: map_update.simps)
qed

text \<open>
  a store built from a descriptor is well formed and holds exactly the initial entries, with
  every other slot of an array zeroed.
\<close>

theorem store_new_content:
  assumes "store_new d = Inr s" "distinct (map fst (md_initial d))"
  shows "store_wf s \<and> map_desc_of s = d \<and>
    (\<forall>k. store_get s k = (case map_of (md_initial d) k of Some v \<Rightarrow> Some v
        | None \<Rightarrow> if length k = md_key_size d \<and> (md_type d = MArray \<longrightarrow> unat (from_le k :: u32) < md_max_entries d)
                   then store_blank s else None))"
  by (rule store_new_spec [OF assms])

theorem store_new_content_witness:
  "store_new (sample_desc MHash) = Inr (HashStore (sample_desc MHash) [([0, 0, 0, 0], [7])])
   \<and> store_wf (HashStore (sample_desc MHash) [([0, 0, 0, 0], [7])])"
proof -
  have s: "store_new (sample_desc MHash) = Inr (HashStore (sample_desc MHash) [([0, 0, 0, 0], [7])])"
    unfolding sample_desc_def by code_simp
  have "distinct (map fst (md_initial (sample_desc MHash)))" by (simp add: sample_desc_def)
  from store_new_content [OF s this] s show ?thesis by blast
qed

text \<open>
  the table built from a list of descriptors has at most \<open>MAX_MAP_FD + 1\<close> slots, the slot of
  each descriptor's fd holds the store built from it, every other slot is empty, and no two
  descriptors share an fd.
\<close>

theorem build_stores_table:
  assumes "build_stores descs = Inr table"
  shows "length table \<le> nat MAX_MAP_FD + 1 \<and> distinct (map md_fd descs)
    \<and> (\<forall>d \<in> set descs. 0 < md_fd d \<and> md_fd d < int (length table) \<and> is_ok (store_new d))
    \<and> (\<forall>i < length table. \<forall>s. table ! i = Some s \<longleftrightarrow>
         (\<exists>d \<in> set descs. md_fd d = int i \<and> store_new d = Inr s))"
proof (cases "descs = []")
  case True
  with assms show ?thesis by (simp add: build_stores_def)
next
  case False
  define mx where "mx = Max (md_fd ` set descs)"
  have max: "md_fd d \<le> mx" if "d \<in> set descs" for d using that unfolding mx_def by (intro Max_ge) auto
  from assms False have b: "0 < mx" "mx \<le> MAX_MAP_FD"
    and p: "place_stores (replicate (nat mx + 1) None) descs = Inr table"
    unfolding build_stores_def Let_def mx_def [symmetric] by (simp_all split: if_splits)
  have bound: "\<forall>d \<in> set descs. nat (md_fd d) < length (replicate (nat mx + 1) (None :: map_store option))"
    using max by (auto simp: less_Suc_eq_le simp del: nat_le_iff intro: nat_mono)
  note P = place_stores_spec [OF p bound]
  have pos: "0 < md_fd d" if "is_ok (store_new d)" for d
    using that by (auto simp: store_new_def split: if_splits)
  show ?thesis
  proof (intro conjI ballI allI impI)
    have len: "length table = nat mx + 1" using P by simp
    show "length table \<le> nat MAX_MAP_FD + 1" using len b(2) by (simp add: nat_mono)
    show "distinct (map md_fd descs)" using P by blast
    fix d
    assume d: "d \<in> set descs"
    then show ok: "is_ok (store_new d)" using P by blast
    then show "0 < md_fd d" by (rule pos)
    show "md_fd d < int (length table)" using max [OF d] b(1) len by simp
  next
    fix i s
    assume "i < length table"
    moreover have "replicate (nat mx + 1) (None :: map_store option) ! i = None"
      using \<open>i < length table\<close> P by (simp add: nth_replicate del: replicate_Suc)
    ultimately show "table ! i = Some s \<longleftrightarrow> (\<exists>d \<in> set descs. md_fd d = int i \<and> store_new d = Inr s)"
      using P by (simp del: replicate_Suc)
  qed
qed

theorem build_stores_table_witness:
  "build_stores [sample_desc MHash] =
     Inr [None, None, None, Some (HashStore (sample_desc MHash) [([0, 0, 0, 0], [7])])]
   \<and> distinct (map md_fd [sample_desc MHash])"
proof -
  have b: "build_stores [sample_desc MHash] =
     Inr [None, None, None, Some (HashStore (sample_desc MHash) [([0, 0, 0, 0], [7])])]"
    unfolding sample_desc_def by code_simp
  from build_stores_table [OF b] b show ?thesis by blast
qed

text \<open>
  Decoding the hex encoding of any bytes gives the bytes back.
\<close>

theorem hex_roundtrip: "from_hex (to_hex bytes) = Inr bytes"
proof -
  have "chunks2 (to_hex bytes) = map (\<lambda>b. (hex_digit (drop_bit 4 b), hex_digit (b AND 0x0F))) bytes"
    by (induction bytes) (simp_all add: to_hex_def)
  moreover have "length (to_hex bytes) = 2 * length bytes"
    by (induction bytes) (simp_all add: to_hex_def)
  moreover have "traverse (\<lambda>(a, b).
             bind_res (ok_or (hex_val a) (BadHex s)) (\<lambda>hi.
             bind_res (ok_or (hex_val b) (BadHex s)) (\<lambda>lo.
             Inr (push_bit 4 hi OR lo))))
         (map (\<lambda>b. (hex_digit (drop_bit 4 b), hex_digit (b AND 0x0F))) bytes) = Inr bytes" for s
    by (induction bytes) (simp_all add: hex_digit_round nibbles)
  ultimately show ?thesis by (simp add: from_hex_def)
qed

end
