(* ===== verification/Exec.thy ===== *)
theory Exec
  imports Codec Cfg Memory
begin

text \<open>
  The pre-resolved execution form of \<open>crates/ebpf-vm/src/exec.rs\<close>: \<open>ExecInsn\<close>, the slot table,
  jump resolution and \<open>load\<close>, with the trap and error types of the VM.  The sentinel
  \<open>usize::MAX\<close> of the reverse table is \<open>None\<close>; a target index (\<open>u32\<close>) is a natural.
\<close>


section \<open>Data\<close>

datatype trap_kind = OobJump int | BadEndWidth int | Illegal

datatype vm_error =
    IllegalInstruction nat
  | VmJumpOutOfBounds nat int
  | UnknownHelper u32
  | InvalidEndWidth nat int
  | StepsExceeded nat
  | MemFault mem_error

datatype exec_insn =
    AluReg width alu_op reg reg
  | AluImm width alu_op reg i32
  | XLoad mem_size reg reg i16
  | StoreReg mem_size reg i16 reg
  | StoreImm mem_size reg i16 i32
  | XLoadImm64 reg i64
  | JumpReg width jump_op reg reg nat
  | JumpImm width jump_op reg i32 nat
  | JumpAlways nat
  | XCall u32
  | XExit
  | Trap trap_kind

definition into_error :: "trap_kind \<Rightarrow> nat \<Rightarrow> vm_error" where
  "into_error kind pc = (case kind of
       OobJump target \<Rightarrow> VmJumpOutOfBounds pc target
     | BadEndWidth w \<Rightarrow> InvalidEndWidth pc w
     | Illegal \<Rightarrow> IllegalInstruction pc)"


section \<open>Lowering\<close>

text \<open>The first loop of \<open>slot_table\<close>, which repeats the widths of \<open>slot_width\<close>.\<close>

fun slot_push :: "nat \<Rightarrow> insn list \<Rightarrow> nat list \<times> nat" where
  "slot_push slot [] = ([], slot)"
| "slot_push slot (insn # insns) =
     (let (slots, total) = slot_push (slot + (case insn of LoadImm64 _ _ \<Rightarrow> 2 | _ \<Rightarrow> 1)) insns
      in (slot # slots, total))"

definition slot_table :: "insn list \<Rightarrow> nat list \<times> nat option list" where
  "slot_table insns =
     (let (slots, total) = slot_push 0 insns
      in (slots, fill_table Some slots (replicate total None)))"

definition resolve :: "nat \<Rightarrow> i16 \<Rightarrow> nat list \<Rightarrow> nat option list \<Rightarrow> trap_kind + nat" where
  "resolve i offset slots rtab =
     (let target = int (slots ! i) + 1 + sint offset in
      if target < 0 then Inl (OobJump target)
      else bind_res (ok_or (if nat target < length rtab then rtab ! nat target else None) (OobJump target))
             (\<lambda>decoded. if decoded < 2 ^ 32 then Inr decoded else Inl (OobJump target)))"

fun lower_one :: "nat \<Rightarrow> insn \<Rightarrow> nat list \<Rightarrow> nat option list \<Rightarrow> exec_insn" where
  "lower_one i (Alu w op dst src) slots rtab =
     (if is_end op then
        (case src of
           RegOp r \<Rightarrow> Trap Illegal
         | ImmOp k \<Rightarrow> if k \<noteq> 16 \<and> k \<noteq> 32 \<and> k \<noteq> 64 then Trap (BadEndWidth (sint k)) else AluImm w op dst k)
      else case src of RegOp r \<Rightarrow> AluReg w op dst r | ImmOp k \<Rightarrow> AluImm w op dst k)"
| "lower_one i (Load sz dst base off) slots rtab = XLoad sz dst base off"
| "lower_one i (Store sz base off src) slots rtab =
     (case src of RegOp r \<Rightarrow> StoreReg sz base off r | ImmOp k \<Rightarrow> StoreImm sz base off k)"
| "lower_one i (LoadImm64 dst k) slots rtab = XLoadImm64 dst k"
| "lower_one i (Jump w op dst src off) slots rtab =
     (case resolve i off slots rtab of
        Inl kind \<Rightarrow> Trap kind
      | Inr target \<Rightarrow>
          if op = Always then JumpAlways target
          else case src of RegOp r \<Rightarrow> JumpReg w op dst r target | ImmOp k \<Rightarrow> JumpImm w op dst k target)"
| "lower_one i (Call func) slots rtab = XCall func"
| "lower_one i Exit slots rtab = XExit"
| "lower_one i (Unknown raw) slots rtab = Trap Illegal"

definition load :: "insn list \<Rightarrow> exec_insn list" where
  "load insns =
     (let (slots, rtab) = slot_table insns
      in map (\<lambda>(i, insn). lower_one i insn slots rtab) (enumerate 0 insns))"


section \<open>Agreement with the control-flow graph\<close>

text \<open>Jump resolution of \<open>load\<close>, as a function of the program.\<close>

definition exec_resolve :: "insn list \<Rightarrow> nat \<Rightarrow> i16 \<Rightarrow> trap_kind + nat" where
  "exec_resolve insns i offset = (let (slots, rtab) = slot_table insns in resolve i offset slots rtab)"

lemma slot_push_scan: "slot_push s insns = slot_scan s insns"
  by (induction insns arbitrary: s) (simp_all add: slot_width_def)

definition rev_table :: "insn list \<Rightarrow> nat option list" where
  "rev_table insns = fill_table Some (map (slot_start insns) [0..<length insns])
     (replicate (slot_total insns) None)"

lemma slot_table_eq: "slot_table insns = (map (slot_start insns) [0..<length insns], rev_table insns)"
  by (simp add: slot_table_def slot_push_scan slot_scan rev_table_def)

lemma rev_table_length [simp]: "length (rev_table insns) = slot_total insns"
  by (simp add: rev_table_def)

lemma rev_table_start: "i < length insns \<Longrightarrow> rev_table insns ! slot_start insns i = Some i"
  using fill_table_key [OF slot_starts_distinct, of insns "replicate (slot_total insns) None" i Some]
    slot_starts_bounded [of insns]
  by (simp add: rev_table_def)

lemma rev_table_other:
  "t < slot_total insns \<Longrightarrow> t \<notin> slot_start insns ` {..<length insns} \<Longrightarrow> rev_table insns ! t = None"
  unfolding rev_table_def by (subst fill_table_other) auto

lemma exec_resolve_eq:
  assumes "i < length insns" "t = int (slot_start insns i) + 1 + sint offset"
  shows "exec_resolve insns i offset =
     (if t < 0 \<or> int (slot_total insns) \<le> t then Inl (OobJump t)
      else case rev_table insns ! nat t of None \<Rightarrow> Inl (OobJump t)
         | Some d \<Rightarrow> if d < 2 ^ 32 then Inr d else Inl (OobJump t))"
  using assms
  by (auto simp: exec_resolve_def slot_table_eq resolve_def Let_def ok_or_def nat_less_iff split: option.splits)

lemma start_lt_total: "i < length insns \<Longrightarrow> slot_start insns i < slot_total insns"
  by (simp add: slot_total_def slot_start_less)

lemma index_le_start: "i \<le> length insns \<Longrightarrow> i \<le> slot_start insns i"
proof (induction i)
  case (Suc i)
  then show ?case using slot_width_pos [of "insns ! i"] by (simp add: slot_start_Suc del: slot_width_pos)
qed simp

text \<open>The VM and the graph resolve a jump to the same instruction, or both refuse it.\<close>

lemma exec_resolve_cfg:
  assumes "i < length insns" "slot_total insns < 2 ^ 32"
  shows "exec_resolve insns i offset = Inr t \<longleftrightarrow> resolve_jump insns i offset = Inr t"
proof -
  define u where "u = int (slot_start insns i) + 1 + sint offset"
  note eqs = exec_resolve_eq [OF assms(1) u_def] resolve_jump_eq [OF assms(1) u_def]
  show ?thesis
  proof (cases "u < 0 \<or> int (slot_total insns) \<le> u")
    case False
    then have u: "nat u < slot_total insns" by auto
    show ?thesis
    proof (cases "nat u \<in> slot_start insns ` {..<length insns}")
      case True
      then obtain j where j: "j < length insns" "nat u = slot_start insns j" by auto
      have "j \<le> slot_start insns j" using j(1) by (simp add: index_le_start)
      with u j(2) assms(2) have "j < 2 ^ 32" by simp
      with False j show ?thesis
        unfolding eqs by (simp add: rev_table_start decoded_table_start)
    next
      case outside: False
      with False u show ?thesis
        unfolding eqs by (simp add: rev_table_other decoded_table_other)
    qed
  qed (simp add: eqs)
qed

lemma length_load [simp]: "length (load insns) = length insns"
  by (simp add: load_def slot_table_eq)

lemma load_nth:
  "i < length insns \<Longrightarrow> load insns ! i = lower_one i (insns ! i) (map (slot_start insns) [0..<length insns]) (rev_table insns)"
  by (simp add: load_def slot_table_eq nth_enumerate_eq)

lemma resolve_load:
  "resolve i offset (map (slot_start insns) [0..<length insns]) (rev_table insns) = exec_resolve insns i offset"
  by (simp add: exec_resolve_def slot_table_eq)

lemma exec_resolve_bound:
  assumes "exec_resolve insns i offset = Inr t" "i < length insns"
  shows "t < length insns"
proof -
  define u where "u = int (slot_start insns i) + 1 + sint offset"
  from assms have u: "nat u < slot_total insns" "rev_table insns ! nat u = Some t"
    unfolding exec_resolve_eq [OF assms(2) u_def] by (auto split: if_splits option.splits)
  then obtain j where j: "j < length insns" "nat u = slot_start insns j"
    using rev_table_other [OF u(1)] by auto
  with u(2) rev_table_start [OF j(1)] show ?thesis by simp
qed


section \<open>Well-formed streams\<close>

text \<open>
  What \<open>load\<close> guarantees of every instruction: valid registers, targets inside the program, and
  byte swaps only with a valid immediate width.
\<close>

fun exec_wf :: "nat \<Rightarrow> exec_insn \<Rightarrow> bool" where
  "exec_wf n (AluReg w op dst src) = (wf_reg dst \<and> wf_reg src \<and> \<not> is_end op)"
| "exec_wf n (AluImm w op dst k) = (wf_reg dst \<and> (is_end op \<longrightarrow> valid_end_width (scast k)))"
| "exec_wf n (XLoad sz dst base off) = (wf_reg dst \<and> wf_reg base)"
| "exec_wf n (StoreReg sz base off src) = (wf_reg base \<and> wf_reg src)"
| "exec_wf n (StoreImm sz base off k) = wf_reg base"
| "exec_wf n (XLoadImm64 dst k) = wf_reg dst"
| "exec_wf n (JumpReg w op dst src t) = (wf_reg dst \<and> wf_reg src \<and> t < n)"
| "exec_wf n (JumpImm w op dst k t) = (wf_reg dst \<and> t < n)"
| "exec_wf n (JumpAlways t) = (t < n)"
| "exec_wf n (XCall f) = True"
| "exec_wf n XExit = True"
| "exec_wf n (Trap k) = True"

lemma lower_one_wf:
  assumes "wf_insn insn" "i < length insns"
  shows "exec_wf (length insns) (lower_one i insn (map (slot_start insns) [0..<length insns]) (rev_table insns))"
proof (cases insn)
  case (Alu w op dst src)
  with assms show ?thesis by (cases src) (auto simp: valid_end_width_def)
next
  case (Jump w op dst src off)
  with assms show ?thesis
    by (cases src; cases "exec_resolve insns i off") (auto simp: resolve_load dest: exec_resolve_bound)
qed (use assms in \<open>auto split: operand.splits\<close>)


section \<open>Canonical form\<close>

lemma slot_width_canon [simp]: "slot_width (canon insn) = slot_width insn"
  by (cases insn) (simp_all add: slot_width_def)

lemma slot_start_canon [simp]: "slot_start (map canon insns) = slot_start insns"
  by (rule ext) (simp add: slot_start_def take_map comp_def)

lemma rev_table_canon [simp]: "rev_table (map canon insns) = rev_table insns"
  by (simp add: rev_table_def slot_total_def)

lemma lower_one_canon [simp]: "lower_one i (canon insn) slots rtab = lower_one i insn slots rtab"
  by (cases insn) (auto split: sum.split)

lemma load_canon: "load (map canon insns) = load insns"
  by (rule nth_equalityI) (simp_all add: load_nth)


section \<open>Properties\<close>

text \<open>
  C16: the VM and the control-flow graph agree on every jump: where the graph resolves it, the
  loaded instruction carries the same target, and where the graph reports an error, it is a trap.
\<close>

theorem load_agrees_with_cfg:
  assumes "i < length insns" "slot_total insns < 2 ^ 32" "insns ! i = Jump w op dst src off"
  shows "case resolve_jump insns i off of
      Inr t \<Rightarrow> load insns ! i = (if op = Always then JumpAlways t
         else case src of RegOp r \<Rightarrow> JumpReg w op dst r t | ImmOp k \<Rightarrow> JumpImm w op dst k t)
    | Inl e \<Rightarrow> \<exists>target. load insns ! i = Trap (OobJump target)"
proof (cases "resolve_jump insns i off")
  case (Inr t)
  then have "exec_resolve insns i off = Inr t" using exec_resolve_cfg [OF assms(1,2)] by simp
  with Inr assms show ?thesis by (simp add: load_nth resolve_load)
next
  case (Inl e)
  then obtain kind where k: "exec_resolve insns i off = Inl kind"
    using exec_resolve_cfg [OF assms(1,2), of off] by (cases "exec_resolve insns i off") auto
  then have "\<exists>target. kind = OobJump target"
    unfolding exec_resolve_eq [OF assms(1) refl] by (auto split: if_splits option.splits)
  with k Inl assms show ?thesis by (auto simp: load_nth resolve_load)
qed

theorem load_agrees_with_cfg_witness:
  "load loop_program ! 3 = JumpReg B64 Lt (Reg 1) (Reg 2) 2"
proof -
  have r: "resolve_jump loop_program 3 0xFFFE = Inr 2"
    by (simp only: resolve_jump_def loop_slots prod.case Let_def) (simp add: resolve_target_def)
  have "slot_total loop_program < 2 ^ 32" "loop_program ! 3 = Jump B64 Lt (Reg 1) (RegOp (Reg 2)) 0xFFFE"
    by (simp_all add: loop_program_def slot_total_def slot_start_def slot_width_def)
  from load_agrees_with_cfg [OF _ this] r show ?thesis by (simp add: loop_program_def)
qed

text \<open>
  loading never fails and yields a well-formed stream of the same length: registers are in
  range, every target is an instruction, and every byte swap has a valid width.
\<close>

theorem load_wf:
  assumes "list_all wf_insn insns"
  shows "length (load insns) = length insns \<and> list_all (exec_wf (length insns)) (load insns)"
  using assms by (simp add: list_all_length load_nth lower_one_wf)

theorem load_wf_witness: "list_all (exec_wf (length loop_program)) (load loop_program)"
proof -
  have "list_all wf_insn loop_program" by (simp add: loop_program_def wf_reg_def)
  from load_wf [OF this] show ?thesis by blast
qed

text \<open>
  C33: encoding a well-formed program to bytes and decoding it again gives a program that loads
  to the very same executable stream.
\<close>

theorem reencode_same_execution:
  assumes "list_all wf_insn insns" "encode_program insns = Inr bytes"
  shows "\<exists>insns'. decode_program bytes = Inr insns' \<and> load insns' = load insns"
proof -
  from assms(2) obtain raws where r: "encode_from 0 insns = Inr raws" "bytes = concat (map to_bytes raws)"
    by (auto simp: encode_program_def)
  from decode_encode_from [OF assms(1) r(1)] r(2) show ?thesis
    by (simp add: decode_program_def load_canon)
qed

theorem reencode_same_execution_witness:
  "\<exists>insns'. decode_program (projr (encode_program sample_program)) = Inr insns'
     \<and> load insns' = load sample_program"
proof -
  have wf: "list_all wf_insn sample_program" "list_all encodable sample_program"
    by (simp_all add: sample_program_def wf_reg_def)
  then obtain raws where "encode_from 0 sample_program = Inr raws" using encode_from_total by blast
  then have "encode_program sample_program = Inr (concat (map to_bytes raws))"
    by (simp add: encode_program_def)
  from reencode_same_execution [OF wf(1) this] this show ?thesis by simp
qed

end
