(* ===== verification/Vm.thy ===== *)
theory Vm
  imports Exec Maps
begin

text \<open>
  The interpreter of \<open>crates/ebpf-vm/src/lib.rs\<close>: the helper registry, the machine state, one
  step over the executable stream, the map helpers and the bounded run.  A helper function
  pointer is a value of \<open>helper\<close>: one of the three map helpers, or a helper the embedding
  program registered (\<open>HCustom\<close>), whose behaviour is an argument of \<open>step\<close>.  The outcome
  \<open>Panic\<close> is the \<open>unreachable!\<close> of a byte swap with an invalid width.
\<close>

definition NUM_REGS :: nat where "NUM_REGS = 11"


section \<open>Helper registry\<close>

record 'h registry =
  hr_low :: "'h option list"
  hr_high :: "(u32 \<times> 'h) list"

definition registry_empty :: "'h registry" where
  "registry_empty = \<lparr>hr_low = replicate 4 None, hr_high = []\<rparr>"

text \<open>\<open>binary_search_by_key\<close> on a slice sorted by distinct keys: the index of the key, or where
  to insert it.\<close>

definition binary_search :: "u32 \<Rightarrow> (u32 \<times> 'h) list \<Rightarrow> nat + nat" where
  "binary_search k xs =
     (let i = length (takeWhile (\<lambda>(k', _). k' < k) xs) in
      if i < length xs \<and> fst (xs ! i) = k then Inr i else Inl i)"

definition registry_get :: "'h registry \<Rightarrow> u32 \<Rightarrow> 'h option" where
  "registry_get r func =
     (if unat func < length (hr_low r) then hr_low r ! unat func
      else case binary_search func (hr_high r) of Inr i \<Rightarrow> Some (snd (hr_high r ! i)) | Inl i \<Rightarrow> None)"

definition registry_insert :: "u32 \<Rightarrow> 'h \<Rightarrow> 'h registry \<Rightarrow> 'h registry" where
  "registry_insert func h r =
     (if unat func < length (hr_low r) then r\<lparr>hr_low := (hr_low r)[unat func := Some h]\<rparr>
      else case binary_search func (hr_high r) of
          Inr i \<Rightarrow> r\<lparr>hr_high := (hr_high r)[i := (fst (hr_high r ! i), h)]\<rparr>
        | Inl i \<Rightarrow> r\<lparr>hr_high := take i (hr_high r) @ (func, h) # drop i (hr_high r)\<rparr>)"

datatype 'c helper = HLookup | HUpdate | HDelete | HCustom 'c

definition with_map_helpers :: "'c helper registry" where
  "with_map_helpers =
     registry_insert 3 HDelete (registry_insert 2 HUpdate (registry_insert 1 HLookup registry_empty))"


section \<open>Machine state\<close>

datatype step_result = Continue | SExit i64 | SError vm_error | Panic

record 'c vm =
  v_regs :: "i64 list"
  v_pc :: nat
  v_insns :: "insn list"
  v_exec :: "exec_insn list"
  v_memory :: memory
  v_helpers :: "'c helper registry"
  v_maps :: "map_store option list"

definition reg_get :: "i64 list \<Rightarrow> reg \<Rightarrow> i64" where
  "reg_get regs r = regs ! reg_index r"

definition reg_put :: "reg \<Rightarrow> i64 \<Rightarrow> i64 list \<Rightarrow> i64 list" where
  "reg_put r v regs = regs[reg_index r := v]"

definition zeroed_with_frame_pointer :: "i64 list" where
  "zeroed_with_frame_pointer = reg_put frame_ptr STACK_BASE (replicate NUM_REGS 0)"

definition vm_new :: "insn list \<Rightarrow> 'c vm" where
  "vm_new insns = \<lparr>v_regs = zeroed_with_frame_pointer, v_pc = 0, v_insns = insns, v_exec = load insns,
     v_memory = memory_default, v_helpers = registry_empty, v_maps = []\<rparr>"

definition vm_new_with_stores :: "insn list \<Rightarrow> map_store option list \<Rightarrow> 'c vm" where
  "vm_new_with_stores insns stores = \<lparr>v_regs = zeroed_with_frame_pointer, v_pc = 0, v_insns = insns,
     v_exec = load insns, v_memory = memory_default, v_helpers = with_map_helpers, v_maps = stores\<rparr>"

definition vm_new_with_maps :: "insn list \<Rightarrow> map_desc list \<Rightarrow> map_error + 'c vm" where
  "vm_new_with_maps insns descs =
     bind_res (build_stores descs) (\<lambda>stores. Inr (vm_new_with_stores insns stores))"

definition vm_from_exec :: "insn list \<Rightarrow> exec_insn list \<Rightarrow> 'c vm" where
  "vm_from_exec insns ex = \<lparr>v_regs = zeroed_with_frame_pointer, v_pc = 0, v_insns = insns,
     v_exec = ex, v_memory = memory_default, v_helpers = registry_empty, v_maps = []\<rparr>"

definition with_helpers :: "'c helper registry \<Rightarrow> 'c vm \<Rightarrow> 'c vm" where
  "with_helpers r vm = vm\<lparr>v_helpers := r\<rparr>"

definition XDP_CTX_REG :: reg where "XDP_CTX_REG = Reg 1"

definition install_xdp_packet :: "u8 list \<Rightarrow> 'c vm \<Rightarrow> 'c vm" where
  "install_xdp_packet packet vm =
     vm\<lparr>v_memory := set_packet packet (v_memory vm), v_regs := reg_put XDP_CTX_REG XDP_MD_BASE (v_regs vm)\<rparr>"

definition install_rodata :: "u8 list \<Rightarrow> 'c vm \<Rightarrow> 'c vm" where
  "install_rodata data vm = vm\<lparr>v_memory := set_rodata data (v_memory vm)\<rparr>"


section \<open>Map helpers\<close>

definition map_slot :: "'c vm \<Rightarrow> i64 \<Rightarrow> map_store option" where
  "map_slot vm fd =
     (if 0 \<le> sint fd \<and> nat (sint fd) < length (v_maps vm) then v_maps vm ! nat (sint fd) else None)"

text \<open>Writing back through \<open>map_store_mut\<close>.\<close>

definition put_map :: "i64 \<Rightarrow> map_store \<Rightarrow> 'c vm \<Rightarrow> 'c vm" where
  "put_map fd s vm = vm\<lparr>v_maps := (v_maps vm)[nat (sint fd) := Some s]\<rparr>"

definition ret :: "i64 \<Rightarrow> 'c vm \<Rightarrow> step_result \<times> 'c vm" where
  "ret v vm = (Continue, vm\<lparr>v_regs := reg_put (Reg 0) v (v_regs vm), v_pc := v_pc vm + 1\<rparr>)"

definition helper_map_lookup :: "'c vm \<Rightarrow> step_result \<times> 'c vm" where
  "helper_map_lookup vm =
     (let fd = reg_get (v_regs vm) (Reg 1);
          key_ptr = reg_get (v_regs vm) (Reg 2)
      in case map_slot vm fd of
           None \<Rightarrow> ret 0 vm
         | Some s \<Rightarrow>
             (case load_bytes (v_memory vm) key_ptr (md_key_size (map_desc_of s)) of
                Inl e \<Rightarrow> (SError (MemFault e), vm)
              | Inr k \<Rightarrow>
                  (case map_lookup s k of
                     Inr (Some v, s') \<Rightarrow>
                       ret MAP_SCRATCH_BASE
                         ((put_map fd s' vm)\<lparr>v_memory := set_map_scratch v (v_memory vm)\<rparr>)
                   | Inr (None, s') \<Rightarrow> ret 0 (put_map fd s' vm)
                   | Inl e \<Rightarrow> ret 0 vm)))"

definition helper_map_update :: "'c vm \<Rightarrow> step_result \<times> 'c vm" where
  "helper_map_update vm =
     (let fd = reg_get (v_regs vm) (Reg 1);
          key_ptr = reg_get (v_regs vm) (Reg 2);
          val_ptr = reg_get (v_regs vm) (Reg 3);
          flags = reg_get (v_regs vm) (Reg 4)
      in case map_slot vm fd of
           None \<Rightarrow> ret (- 1) vm
         | Some s \<Rightarrow>
             (case load_bytes (v_memory vm) key_ptr (md_key_size (map_desc_of s)) of
                Inl e \<Rightarrow> (SError (MemFault e), vm)
              | Inr k \<Rightarrow>
                  (case load_bytes (v_memory vm) val_ptr (md_value_size (map_desc_of s)) of
                     Inl e \<Rightarrow> (SError (MemFault e), vm)
                   | Inr v \<Rightarrow>
                       let flags' = (if 0 \<le> sint flags then flags else - 1) in
                       (case map_update s k v flags' of
                          Inr s' \<Rightarrow> ret 0 (put_map fd s' vm)
                        | Inl e \<Rightarrow> ret (- 1) vm))))"

definition helper_map_delete :: "'c vm \<Rightarrow> step_result \<times> 'c vm" where
  "helper_map_delete vm =
     (let fd = reg_get (v_regs vm) (Reg 1);
          key_ptr = reg_get (v_regs vm) (Reg 2)
      in case map_slot vm fd of
           None \<Rightarrow> ret (- 1) vm
         | Some s \<Rightarrow>
             (case load_bytes (v_memory vm) key_ptr (md_key_size (map_desc_of s)) of
                Inl e \<Rightarrow> (SError (MemFault e), vm)
              | Inr k \<Rightarrow>
                  (case map_delete s k of
                     Inr s' \<Rightarrow> ret 0 (put_map fd s' vm)
                   | Inl e \<Rightarrow> ret (- 1) vm)))"

fun run_helper :: "('c \<Rightarrow> 'c vm \<Rightarrow> step_result \<times> 'c vm) \<Rightarrow> 'c helper \<Rightarrow> 'c vm \<Rightarrow> step_result \<times> 'c vm" where
  "run_helper custom HLookup vm = helper_map_lookup vm"
| "run_helper custom HUpdate vm = helper_map_update vm"
| "run_helper custom HDelete vm = helper_map_delete vm"
| "run_helper custom (HCustom c) vm = custom c vm"

definition dispatch_helper ::
    "('c \<Rightarrow> 'c vm \<Rightarrow> step_result \<times> 'c vm) \<Rightarrow> u32 \<Rightarrow> 'c vm \<Rightarrow> step_result \<times> 'c vm" where
  "dispatch_helper custom func vm =
     (case registry_get (v_helpers vm) func of
        None \<Rightarrow> (SError (UnknownHelper func), vm)
      | Some h \<Rightarrow> run_helper custom h vm)"


section \<open>Jumps\<close>

fun jump_taken_64 :: "jump_op \<Rightarrow> i64 \<Rightarrow> i64 \<Rightarrow> bool" where
  "jump_taken_64 Always l r = True"
| "jump_taken_64 JEq l r = (l = r)"
| "jump_taken_64 Ne l r = (l \<noteq> r)"
| "jump_taken_64 Gt l r = (l > r)"
| "jump_taken_64 Ge l r = (l \<ge> r)"
| "jump_taken_64 Lt l r = (l < r)"
| "jump_taken_64 Le l r = (l \<le> r)"
| "jump_taken_64 Sgt l r = (sint l > sint r)"
| "jump_taken_64 Sge l r = (sint l \<ge> sint r)"
| "jump_taken_64 Slt l r = (sint l < sint r)"
| "jump_taken_64 Sle l r = (sint l \<le> sint r)"
| "jump_taken_64 JSet l r = (l AND r \<noteq> 0)"
| "jump_taken_64 JCall l r = False"
| "jump_taken_64 JExit l r = False"

fun jump_taken_low :: "jump_op \<Rightarrow> u32 \<Rightarrow> u32 \<Rightarrow> bool" where
  "jump_taken_low Always l r = True"
| "jump_taken_low JEq l r = (l = r)"
| "jump_taken_low Ne l r = (l \<noteq> r)"
| "jump_taken_low Gt l r = (l > r)"
| "jump_taken_low Ge l r = (l \<ge> r)"
| "jump_taken_low Lt l r = (l < r)"
| "jump_taken_low Le l r = (l \<le> r)"
| "jump_taken_low Sgt l r = (sint l > sint r)"
| "jump_taken_low Sge l r = (sint l \<ge> sint r)"
| "jump_taken_low Slt l r = (sint l < sint r)"
| "jump_taken_low Sle l r = (sint l \<le> sint r)"
| "jump_taken_low JSet l r = (l AND r \<noteq> 0)"
| "jump_taken_low JCall l r = False"
| "jump_taken_low JExit l r = False"

definition jump_taken_32 :: "jump_op \<Rightarrow> i64 \<Rightarrow> i64 \<Rightarrow> bool" where
  "jump_taken_32 op lhs rhs = jump_taken_low op (ucast lhs) (ucast rhs)"

definition jump_taken :: "jump_op \<Rightarrow> i64 \<Rightarrow> i64 \<Rightarrow> width \<Rightarrow> bool" where
  "jump_taken op lhs rhs w =
     (case w of B64 \<Rightarrow> jump_taken_64 op lhs rhs | B32 \<Rightarrow> jump_taken_32 op lhs rhs)"


section \<open>Step and run\<close>

text \<open>Writing a destination register: \<open>r10\<close> silently keeps the frame pointer.\<close>

definition write_dst :: "reg \<Rightarrow> i64 \<Rightarrow> 'c vm \<Rightarrow> 'c vm" where
  "write_dst dst v vm =
     (if is_frame_ptr dst then vm\<lparr>v_pc := v_pc vm + 1\<rparr>
      else vm\<lparr>v_regs := reg_put dst v (v_regs vm), v_pc := v_pc vm + 1\<rparr>)"

definition i64_or_max :: "nat \<Rightarrow> int" where
  "i64_or_max n = (if int n \<le> i64_max then int n else i64_max)"

fun step_insn :: "('c \<Rightarrow> 'c vm \<Rightarrow> step_result \<times> 'c vm) \<Rightarrow> exec_insn \<Rightarrow> 'c vm \<Rightarrow> step_result \<times> 'c vm" where
  "step_insn custom (AluReg w op dst src) vm =
     (case alu_apply op (reg_get (v_regs vm) dst) (reg_get (v_regs vm) src) w of
        None \<Rightarrow> (Panic, vm)
      | Some v \<Rightarrow> (Continue, write_dst dst v vm))"
| "step_insn custom (AluImm w op dst k) vm =
     (case alu_apply op (reg_get (v_regs vm) dst) (scast k) w of
        None \<Rightarrow> (Panic, vm)
      | Some v \<Rightarrow> (Continue, write_dst dst v vm))"
| "step_insn custom (XLoadImm64 dst k) vm = (Continue, write_dst dst k vm)"
| "step_insn custom (XLoad sz dst base off) vm =
     (case mem_load (v_memory vm) (reg_get (v_regs vm) base + scast off) sz of
        Inr v \<Rightarrow> (Continue, write_dst dst v vm)
      | Inl e \<Rightarrow> (SError (MemFault e), vm))"
| "step_insn custom (StoreReg sz base off src) vm =
     (case mem_store (v_memory vm) (reg_get (v_regs vm) base + scast off) sz (reg_get (v_regs vm) src) of
        Inr m \<Rightarrow> (Continue, vm\<lparr>v_memory := m, v_pc := v_pc vm + 1\<rparr>)
      | Inl e \<Rightarrow> (SError (MemFault e), vm))"
| "step_insn custom (StoreImm sz base off k) vm =
     (case mem_store (v_memory vm) (reg_get (v_regs vm) base + scast off) sz (scast k) of
        Inr m \<Rightarrow> (Continue, vm\<lparr>v_memory := m, v_pc := v_pc vm + 1\<rparr>)
      | Inl e \<Rightarrow> (SError (MemFault e), vm))"
| "step_insn custom (JumpReg w op dst src target) vm =
     (if op = Always then (Continue, vm\<lparr>v_pc := target\<rparr>)
      else if jump_taken op (reg_get (v_regs vm) dst) (reg_get (v_regs vm) src) w
      then (Continue, vm\<lparr>v_pc := target\<rparr>) else (Continue, vm\<lparr>v_pc := v_pc vm + 1\<rparr>))"
| "step_insn custom (JumpImm w op dst k target) vm =
     (if jump_taken op (reg_get (v_regs vm) dst) (scast k) w
      then (Continue, vm\<lparr>v_pc := target\<rparr>) else (Continue, vm\<lparr>v_pc := v_pc vm + 1\<rparr>))"
| "step_insn custom (JumpAlways target) vm = (Continue, vm\<lparr>v_pc := target\<rparr>)"
| "step_insn custom (XCall func) vm = dispatch_helper custom func vm"
| "step_insn custom XExit vm = (SExit (reg_get (v_regs vm) (Reg 0)), vm)"
| "step_insn custom (Trap kind) vm = (SError (into_error kind (v_pc vm)), vm)"

definition step :: "('c \<Rightarrow> 'c vm \<Rightarrow> step_result \<times> 'c vm) \<Rightarrow> 'c vm \<Rightarrow> step_result \<times> 'c vm" where
  "step custom vm =
     (if v_pc vm < length (v_exec vm) then step_insn custom (v_exec vm ! v_pc vm) vm
      else (SError (VmJumpOutOfBounds (v_pc vm) (i64_or_max (v_pc vm))), vm))"

text \<open>\<open>run\<close> with \<open>n\<close> of its \<open>max_steps\<close> iterations left; the outcome \<open>None\<close> is a panic.\<close>

fun run_loop :: "('c \<Rightarrow> 'c vm \<Rightarrow> step_result \<times> 'c vm) \<Rightarrow> nat \<Rightarrow> nat \<Rightarrow> 'c vm
    \<Rightarrow> (vm_error + i64) option \<times> 'c vm" where
  "run_loop custom limit 0 vm = (Some (Inl (StepsExceeded limit)), vm)"
| "run_loop custom limit (Suc n) vm =
     (case step custom vm of
        (Continue, vm') \<Rightarrow> run_loop custom limit n vm'
      | (SExit code, vm') \<Rightarrow> (Some (Inr code), vm')
      | (SError e, vm') \<Rightarrow> (Some (Inl e), vm')
      | (Panic, vm') \<Rightarrow> (None, vm'))"

definition run :: "('c \<Rightarrow> 'c vm \<Rightarrow> step_result \<times> 'c vm) \<Rightarrow> nat \<Rightarrow> 'c vm \<Rightarrow> (vm_error + i64) option \<times> 'c vm" where
  "run custom max_steps vm = run_loop custom max_steps max_steps vm"

definition run_bytes :: "('c \<Rightarrow> 'c vm \<Rightarrow> step_result \<times> 'c vm) \<Rightarrow> u8 list \<Rightarrow> nat
    \<Rightarrow> decode_error + (vm_error + i64) option" where
  "run_bytes custom bytes max_steps =
     bind_res (decode_program bytes) (\<lambda>insns. Inr (fst (run custom max_steps (vm_new insns))))"


section \<open>The registry is a lookup table\<close>

text \<open>What helper dispatch relies on.\<close>

locale lookup_table =
  fixes inv :: "'r \<Rightarrow> bool"
    and get :: "'r \<Rightarrow> 'k \<Rightarrow> 'h option"
    and insert :: "'k \<Rightarrow> 'h \<Rightarrow> 'r \<Rightarrow> 'r"
  assumes insert_inv: "inv r \<Longrightarrow> inv (insert k h r)"
    and get_insert: "inv r \<Longrightarrow> get (insert k h r) = (get r)(k \<mapsto> h)"
begin

lemma get_inserts: "inv r \<Longrightarrow> get (fold (\<lambda>(k, h). insert k h) khs r) = get r ++ map_of (rev khs)"
  by (induction khs arbitrary: r) (auto simp: get_insert insert_inv)

lemma insert_other: "inv r \<Longrightarrow> k' \<noteq> k \<Longrightarrow> get (insert k h r) k' = get r k'"
  by (simp add: get_insert)

end

definition registry_inv :: "'h registry \<Rightarrow> bool" where
  "registry_inv r \<longleftrightarrow> length (hr_low r) = 4 \<and> sorted_wrt (<) (map fst (hr_high r))
     \<and> (\<forall>(k, h) \<in> set (hr_high r). 4 \<le> unat k)"

lemma search_bounds:
  fixes k :: u32
  assumes "i = length (takeWhile (\<lambda>(k', _). k' < k) xs)"
  shows "j < i \<Longrightarrow> fst (xs ! j) < k" and "i < length xs \<Longrightarrow> k \<le> fst (xs ! i)" and "i \<le> length xs"
proof -
  show "j < i \<Longrightarrow> fst (xs ! j) < k"
    using assms nth_mem [of j "takeWhile (\<lambda>(k', _). k' < k) xs"] takeWhile_nth [of j "\<lambda>(k', _). k' < k" xs]
    by (auto dest!: set_takeWhileD split: prod.splits)
  show "i < length xs \<Longrightarrow> k \<le> fst (xs ! i)"
    using assms nth_length_takeWhile [of "\<lambda>(k', _). k' < k" xs]
    by (auto simp: not_less split: prod.splits)
  show "i \<le> length xs" using assms length_takeWhile_le by simp
qed

lemma search_found:
  "binary_search k xs = Inr i \<Longrightarrow> i < length xs \<and> fst (xs ! i) = k"
  by (auto simp: binary_search_def Let_def split: if_splits)

lemma search_missing:
  assumes "binary_search k xs = Inl i" "sorted_wrt (<) (map fst xs)"
  shows "i \<le> length xs \<and> (\<forall>x \<in> set (take i xs). fst x < k) \<and> (\<forall>x \<in> set (drop i xs). k < fst x)"
proof -
  from assms(1) have i: "i = length (takeWhile (\<lambda>(k', _). k' < k) xs)"
    and ne: "\<not> (i < length xs \<and> fst (xs ! i) = k)"
    by (auto simp: binary_search_def Let_def split: if_splits)
  note B = search_bounds [OF i]
  have "k < fst (xs ! j)" if "i \<le> j" "j < length xs" for j
  proof -
    have "k < fst (xs ! i)" using B(2) ne that by (auto simp: order.strict_iff_order)
    also have "fst (xs ! i) \<le> fst (xs ! j)"
      using assms(2) that by (cases "i = j") (auto simp: sorted_wrt_iff_nth_less less_imp_le)
    finally show ?thesis .
  qed
  then have "k < fst x" if "x \<in> set (drop i xs)" for x
    using that B(3) by (auto simp: in_set_conv_nth simp del: split_paired_All)
  moreover have "fst x < k" if "x \<in> set (take i xs)" for x
    using that B(1) by (auto simp: in_set_conv_nth)
  ultimately show ?thesis using B(3) by blast
qed

lemma search_map_of:
  assumes "sorted_wrt (<) (map fst xs)"
  shows "(case binary_search k xs of Inr i \<Rightarrow> Some (snd (xs ! i)) | Inl i \<Rightarrow> None) = map_of xs k"
proof -
  have d: "distinct (map fst xs)" using assms strict_sorted_iff by blast
  show ?thesis
  proof (cases "binary_search k xs")
    case (Inl i)
    have "k \<notin> fst ` set xs"
    proof
      assume "k \<in> fst ` set xs"
      then obtain x where x: "x \<in> set xs" "fst x = k" by auto
      have "set xs = set (take i xs) \<union> set (drop i xs)" by (metis append_take_drop_id set_append)
      with x search_missing [OF Inl assms] show False by force
    qed
    with Inl show ?thesis by (simp add: map_of_eq_None_iff [THEN iffD2])
  next
    case (Inr i)
    from search_found [OF Inr] have "(k, snd (xs ! i)) \<in> set xs" by (metis nth_mem prod.collapse)
    with d Inr show ?thesis by simp
  qed
qed

lemma registry_get_eq:
  "registry_inv r \<Longrightarrow> registry_get r k = (if unat k < 4 then hr_low r ! unat k else map_of (hr_high r) k)"
  by (simp add: registry_get_def registry_inv_def search_map_of)

lemma registry_insert_high:
  assumes "sorted_wrt (<) (map fst xs)"
  shows "case binary_search k xs of
      Inr i \<Rightarrow> map fst (xs[i := (fst (xs ! i), h)]) = map fst xs
         \<and> map_of (xs[i := (fst (xs ! i), h)]) = (map_of xs)(k \<mapsto> h)
    | Inl i \<Rightarrow> sorted_wrt (<) (map fst (take i xs @ (k, h) # drop i xs))
         \<and> map_of (take i xs @ (k, h) # drop i xs) = (map_of xs)(k \<mapsto> h)"
proof (cases "binary_search k xs")
  case (Inl i)
  note M = search_missing [OF Inl assms]
  have xs: "xs = take i xs @ drop i xs" by simp
  have "sorted_wrt (<) (map fst (take i xs @ drop i xs))" using assms by simp
  then have "sorted_wrt (<) (map fst (take i xs @ (k, h) # drop i xs))"
    using M unfolding map_append list.map sorted_wrt_append by auto
  moreover have k: "k \<notin> dom (map_of (take i xs))"
    using M by (auto simp: dom_map_of_conv_image_fst)
  have "map_of (take i xs @ (k, h) # drop i xs) = (map_of (drop i xs) ++ map_of (take i xs))(k \<mapsto> h)"
    using map_add_upd_left [OF k] by (simp only: map_of_append map_of.simps fst_conv snd_conv)
  moreover have "map_of (drop i xs) ++ map_of (take i xs) = map_of xs"
    by (metis append_take_drop_id map_of_append)
  ultimately show ?thesis using Inl by simp
next
  case (Inr i)
  note F = search_found [OF Inr]
  have d: "distinct (map fst xs)" using assms strict_sorted_iff by blast
  have fst: "map fst (xs[i := (k, h)]) = map fst xs"
    using F by (metis fst_conv list_update_id map_update nth_map)
  obtain v where "xs ! i = (k, v)" using F by (metis prod.collapse)
  then have xs: "xs = take i xs @ (k, v) # drop (Suc i) xs" using F by (metis id_take_nth_drop)
  have up: "xs[i := (k, h)] = take i xs @ (k, h) # drop (Suc i) xs" using F by (simp add: upd_conv_take_nth_drop)
  have "distinct (map fst (take i xs @ (k, v) # drop (Suc i) xs))" using d xs by simp
  then have k: "k \<notin> dom (map_of (take i xs))" by (simp add: dom_map_of_conv_image_fst)
  have "map_of (take i xs @ (k, y) # drop (Suc i) xs)
      = (map_of (drop (Suc i) xs) ++ map_of (take i xs))(k \<mapsto> y)" for y
    using map_add_upd_left [OF k] by (simp only: map_of_append map_of.simps fst_conv snd_conv)
  from this [of h] this [of v] have "map_of (xs[i := (k, h)]) = (map_of xs)(k \<mapsto> h)"
    unfolding up using xs by (metis fun_upd_upd)
  with fst F Inr show ?thesis by auto
qed


interpretation registry: lookup_table registry_inv registry_get registry_insert
proof unfold_locales
  fix r :: "'h registry" and k h
  assume r: "registry_inv r"
  then have low: "length (hr_low r) = 4" and sorted: "sorted_wrt (<) (map fst (hr_high r))"
    and big: "\<forall>(k, h) \<in> set (hr_high r). 4 \<le> unat k"
    by (simp_all add: registry_inv_def)
  note H = registry_insert_high [OF sorted, of k h]
  show inv: "registry_inv (registry_insert k h r)"
  proof (cases "unat k < 4")
    case True
    with r low show ?thesis by (simp add: registry_insert_def registry_inv_def)
  next
    case False
    show ?thesis
    proof (cases "binary_search k (hr_high r)")
      case (Inl i)
      with H low sorted big False show ?thesis
        by (auto simp: registry_insert_def registry_inv_def dest!: in_set_takeD in_set_dropD)
    next
      case (Inr i)
      from search_found [OF Inr] have F: "i < length (hr_high r)" "fst (hr_high r ! i) = k" by blast+
      have "set ((hr_high r)[i := (k, h)]) \<subseteq> Set.insert (k, h) (set (hr_high r))"
        by (rule set_update_subset_insert)
      with H Inr low sorted big False F show ?thesis
        by (auto simp: registry_insert_def registry_inv_def)
    qed
  qed
  show "registry_get (registry_insert k h r) = (registry_get r)(k \<mapsto> h)"
  proof
    fix k'
    have "unat k = unat k' \<longleftrightarrow> k = k'" by (auto intro: unsigned_word_eqI)
    then show "registry_get (registry_insert k h r) k' = ((registry_get r)(k \<mapsto> h)) k'"
      unfolding registry_get_eq [OF inv] fun_upd_apply registry_get_eq [OF r]
      using low H by (cases "unat k < 4"; cases "binary_search k (hr_high r)")
        (auto simp: registry_insert_def nth_list_update fun_eq_iff)
  qed
qed

lemma registry_empty_inv [simp]: "registry_inv registry_empty"
  by (simp add: registry_inv_def registry_empty_def)

lemma registry_empty_get: "registry_get registry_empty k = None"
proof -
  have "unat k < 4 \<Longrightarrow> replicate 4 None ! unat k = None" by simp
  then show ?thesis by (simp add: registry_get_eq) (simp add: registry_empty_def)
qed

lemma map_helpers_get:
  "registry_get with_map_helpers f =
     (if f = 1 then Some HLookup else if f = 2 then Some HUpdate else if f = 3 then Some HDelete else None)"
  unfolding with_map_helpers_def
  by (simp add: registry.get_insert registry.insert_inv registry_empty_get)


section \<open>The machine invariant\<close>

definition maps_ok :: "map_store option list \<Rightarrow> bool" where
  "maps_ok ms \<longleftrightarrow> (\<forall>s. Some s \<in> set ms \<longrightarrow> store_wf s \<and> md_value_size (map_desc_of s) < 0x10000)"

definition vm_inv :: "'c vm \<Rightarrow> bool" where
  "vm_inv vm \<longleftrightarrow> length (v_regs vm) = NUM_REGS \<and> reg_get (v_regs vm) frame_ptr = STACK_BASE
     \<and> list_all (exec_wf (length (v_exec vm))) (v_exec vm)
     \<and> mem_wf (v_memory vm) \<and> maps_ok (v_maps vm) \<and> v_pc vm \<le> length (v_exec vm)"

text \<open>
  The same program with an equal or later state: what every helper, registered ones included,
  must respect.  A registered helper that continues moves to the next instruction.
\<close>

definition custom_ok :: "('c \<Rightarrow> 'c vm \<Rightarrow> step_result \<times> 'c vm) \<Rightarrow> bool" where
  "custom_ok custom \<longleftrightarrow> (\<forall>c vm r vm'. vm_inv vm \<longrightarrow> v_pc vm < length (v_exec vm) \<longrightarrow> custom c vm = (r, vm') \<longrightarrow>
     vm_inv vm' \<and> v_exec vm' = v_exec vm \<and> v_insns vm' = v_insns vm
     \<and> r \<noteq> Panic \<and> (r = Continue \<longrightarrow> v_pc vm' = v_pc vm + 1))"

lemma reg_put_length [simp]: "length (reg_put r v regs) = length regs"
  by (simp add: reg_put_def)

lemma reg_get_put:
  "reg_index r < length regs \<Longrightarrow> reg_get (reg_put r v regs) r' = (if r = r' then v else reg_get regs r')"
  by (auto simp: reg_get_def reg_put_def nth_list_update reg_index_inj)

lemma reg0_index [simp]: "reg_index (Reg 0) = 0"
  by (simp add: reg_index_def)

lemma write_dst_inv:
  "vm_inv vm \<Longrightarrow> wf_reg dst \<Longrightarrow> v_pc vm < length (v_exec vm) \<Longrightarrow> vm_inv (write_dst dst v vm)"
  using wf_reg_index [of dst]
  by (auto simp: vm_inv_def write_dst_def NUM_REGS_def reg_get_put)

lemma write_dst_simps [simp]:
  "v_exec (write_dst dst v vm) = v_exec vm" "v_insns (write_dst dst v vm) = v_insns vm"
  "v_pc (write_dst dst v vm) = v_pc vm + 1" "v_memory (write_dst dst v vm) = v_memory vm"
  "v_maps (write_dst dst v vm) = v_maps vm" "v_helpers (write_dst dst v vm) = v_helpers vm"
  by (simp_all add: write_dst_def)

text \<open>The outcome of a map helper.\<close>

definition helper_good :: "'c vm \<Rightarrow> step_result \<times> 'c vm \<Rightarrow> bool" where
  "helper_good vm res \<longleftrightarrow> vm_inv (snd res) \<and> v_exec (snd res) = v_exec vm \<and> v_insns (snd res) = v_insns vm
     \<and> fst res \<noteq> Panic \<and> (fst res = Continue \<longrightarrow> v_pc (snd res) = v_pc vm + 1)"

lemma ret_good:
  assumes "vm_inv vm" "v_pc vm < length (v_exec vm)"
    and "v_regs vm' = v_regs vm" "v_exec vm' = v_exec vm" "v_insns vm' = v_insns vm" "v_pc vm' = v_pc vm"
    and "mem_wf (v_memory vm')" "maps_ok (v_maps vm')"
  shows "helper_good vm (ret v vm')"
proof -
  have "Reg 0 \<noteq> frame_ptr" by (simp add: frame_ptr_def)
  with assms show ?thesis
    by (auto simp: helper_good_def ret_def vm_inv_def NUM_REGS_def reg_get_put)
qed

lemma error_good: "vm_inv vm \<Longrightarrow> helper_good vm (SError e, vm)"
  by (simp add: helper_good_def)

lemma maps_ok_update: "maps_ok ms \<Longrightarrow> store_wf s \<Longrightarrow> md_value_size (map_desc_of s) < 0x10000 \<Longrightarrow>
    maps_ok (ms[i := Some s])"
  using set_update_subset_insert [of ms i "Some s"] by (auto simp: maps_ok_def)

lemma map_slot_ok: "maps_ok (v_maps vm) \<Longrightarrow> map_slot vm fd = Some s \<Longrightarrow>
    store_wf s \<and> md_value_size (map_desc_of s) < 0x10000"
  by (auto simp: maps_ok_def map_slot_def split: if_splits) (metis nth_mem)+

lemma lookup_desc: "map_lookup s k = Inr (r, s') \<Longrightarrow> map_desc_of s' = map_desc_of s"
  by (cases s) (auto simp: Let_def split: option.splits prod.splits)

lemma update_desc: "map_update s k v f = Inr s' \<Longrightarrow> map_desc_of s' = map_desc_of s"
  by (cases s) (auto simp: Let_def split: option.splits prod.splits if_splits)

lemma delete_desc: "map_delete s k = Inr s' \<Longrightarrow> map_desc_of s' = map_desc_of s"
  by (cases s) (auto simp: Let_def split: option.splits if_splits)

lemma get_value_size: "store_wf s \<Longrightarrow> store_get s k = Some v \<Longrightarrow> length v = md_value_size (map_desc_of s)"
  by (cases s) (auto simp: sizes_ok_def split: if_splits dest!: map_of_SomeD)


lemma put_map_simps [simp]:
  "v_regs (put_map fd s vm) = v_regs vm" "v_exec (put_map fd s vm) = v_exec vm"
  "v_insns (put_map fd s vm) = v_insns vm" "v_pc (put_map fd s vm) = v_pc vm"
  "v_memory (put_map fd s vm) = v_memory vm" "v_helpers (put_map fd s vm) = v_helpers vm"
  "v_maps (put_map fd s vm) = (v_maps vm)[nat (sint fd) := Some s]"
  by (simp_all add: put_map_def)

lemma vm_inv_parts: "vm_inv vm \<Longrightarrow> mem_wf (v_memory vm) \<and> maps_ok (v_maps vm)"
  by (simp add: vm_inv_def)

lemma stored_ok:
  assumes "maps_ok (v_maps vm)" "map_slot vm fd = Some s"
  shows "map_lookup s k = Inr (r, s') \<Longrightarrow> maps_ok ((v_maps vm)[i := Some s'])"
    and "map_update s k v f = Inr s' \<Longrightarrow> maps_ok ((v_maps vm)[i := Some s'])"
    and "map_delete s k = Inr s' \<Longrightarrow> maps_ok ((v_maps vm)[i := Some s'])"
  using map_slot_ok [OF assms] maps_ok_update [OF assms(1)]
    map_lookup_spec [of s k r s'] map_update_spec [of s k v f s'] map_delete_spec [of s k s']
    lookup_desc [of s k r s'] update_desc [of s k v f s'] delete_desc [of s k s']
  by metis+

lemma scratch_ok:
  assumes "vm_inv vm" "map_slot vm fd = Some s" "map_lookup s k = Inr (Some v, s')"
  shows "mem_wf (set_map_scratch v (v_memory vm))"
proof -
  note parts = vm_inv_parts [OF assms(1)]
  then have s: "store_wf s" "md_value_size (map_desc_of s) < 0x10000"
    using map_slot_ok [OF _ assms(2)] by blast+
  have "length v < 0x10000"
    using get_value_size [OF s(1), of k v] map_lookup_spec [OF s(1) assms(3)] s(2) by simp
  then show ?thesis using parts by (simp add: set_scratch_wf)
qed

lemma helper_lookup_good:
  assumes inv: "vm_inv vm" and pc: "v_pc vm < length (v_exec vm)"
  shows "helper_good vm (helper_map_lookup vm)"
proof -
  note parts = vm_inv_parts [OF inv] and good = ret_good [OF inv pc] error_good [OF inv]
  show ?thesis
    using parts stored_ok(1) scratch_ok [OF inv] unfolding helper_map_lookup_def Let_def
    by (auto intro!: good simp del: map_lookup.simps split: option.split sum.split)
qed

lemma helper_update_good:
  assumes inv: "vm_inv vm" and pc: "v_pc vm < length (v_exec vm)"
  shows "helper_good vm (helper_map_update vm)"
proof -
  note parts = vm_inv_parts [OF inv] and good = ret_good [OF inv pc] error_good [OF inv]
  define flags where "flags = (if 0 \<le> sint (reg_get (v_regs vm) (Reg 4)) then reg_get (v_regs vm) (Reg 4) else - 1)"
  note unfold = helper_map_update_def Let_def flags_def [symmetric]
  show ?thesis
  proof (cases "map_slot vm (reg_get (v_regs vm) (Reg 1))")
    case (Some s)
    have "maps_ok ((v_maps vm)[i := Some s'])" if "map_update s k v flags = Inr s'" for k v s' i
      by (rule stored_ok(2) [OF parts [THEN conjunct2] Some that])
    with Some parts show ?thesis
      unfolding unfold by (auto intro!: good simp del: map_update.simps split: sum.split)
  qed (use parts in \<open>auto simp: unfold intro!: good\<close>)
qed

lemma helper_delete_good:
  assumes inv: "vm_inv vm" and pc: "v_pc vm < length (v_exec vm)"
  shows "helper_good vm (helper_map_delete vm)"
proof -
  note parts = vm_inv_parts [OF inv] and good = ret_good [OF inv pc] error_good [OF inv]
  show ?thesis
    using parts stored_ok(3) unfolding helper_map_delete_def Let_def
    by (auto intro!: good simp del: map_delete.simps split: option.split sum.split)
qed

lemma dispatch_good:
  assumes "vm_inv vm" "v_pc vm < length (v_exec vm)" "custom_ok custom"
  shows "helper_good vm (dispatch_helper custom f vm)"
proof (cases "registry_get (v_helpers vm) f")
  case (Some h)
  then show ?thesis
  proof (cases h)
    case (HCustom c)
    obtain r vm' where c: "custom c vm = (r, vm')" by force
    from assms(3) [unfolded custom_ok_def, rule_format, OF assms(1,2) c] HCustom Some c show ?thesis
      by (simp add: dispatch_helper_def helper_good_def)
  qed (simp_all add: dispatch_helper_def helper_lookup_good helper_update_good helper_delete_good assms)
qed (simp add: dispatch_helper_def error_good assms)

text \<open>Where control can go from an executable instruction.\<close>

fun exec_targets :: "exec_insn \<Rightarrow> nat \<Rightarrow> nat set" where
  "exec_targets (JumpReg w op dst src t) pc = (if op = Always then {t} else {t, pc + 1})"
| "exec_targets (JumpImm w op dst k t) pc = (if op = Always then {t} else {t, pc + 1})"
| "exec_targets (JumpAlways t) pc = {t}"
| "exec_targets XExit pc = {}"
| "exec_targets (Trap k) pc = {}"
| "exec_targets e pc = {pc + 1}"

definition step_good :: "'c vm \<Rightarrow> exec_insn \<Rightarrow> step_result \<times> 'c vm \<Rightarrow> bool" where
  "step_good vm e res \<longleftrightarrow> vm_inv (snd res) \<and> v_exec (snd res) = v_exec vm \<and> v_insns (snd res) = v_insns vm
     \<and> fst res \<noteq> Panic \<and> (fst res = Continue \<longrightarrow> v_pc (snd res) \<in> exec_targets e (v_pc vm))"

lemma exec_wf_alu:
  "exec_wf n (AluReg w op dst src) \<Longrightarrow> alu_apply op l r w \<noteq> None"
  "exec_wf n (AluImm w op dst k) \<Longrightarrow> alu_apply op l (scast k) w \<noteq> None"
  by (auto simp: alu_apply_None is_end_def)

lemma next_pc_inv: "vm_inv vm \<Longrightarrow> v_pc vm < length (v_exec vm) \<Longrightarrow> vm_inv (vm\<lparr>v_pc := Suc (v_pc vm)\<rparr>)"
  by (simp add: vm_inv_def)

lemma jump_inv: "vm_inv vm \<Longrightarrow> t < length (v_exec vm) \<Longrightarrow> vm_inv (vm\<lparr>v_pc := t\<rparr>)"
  by (simp add: vm_inv_def)

lemma store_inv:
  "vm_inv vm \<Longrightarrow> v_pc vm < length (v_exec vm) \<Longrightarrow> mem_store (v_memory vm) a sz v = Inr m \<Longrightarrow>
     vm_inv (vm\<lparr>v_memory := m, v_pc := Suc (v_pc vm)\<rparr>)"
proof -
  assume inv: "vm_inv vm" "v_pc vm < length (v_exec vm)" and st: "mem_store (v_memory vm) a sz v = Inr m"
  have wf: "mem_wf (v_memory vm)" using inv by (simp add: vm_inv_def)
  from st obtain off where "sint a = sint (region_base (classify a)) + int off"
    unfolding mem_store_iff [OF wf] by blast
  from mem_store_view(3) [OF wf st this] inv show ?thesis by (simp add: vm_inv_def)
qed

lemma step_insn_good:
  assumes inv: "vm_inv vm" and pc: "v_pc vm < length (v_exec vm)" and custom: "custom_ok custom"
    and wf: "exec_wf (length (v_exec vm)) e"
  shows "step_good vm e (step_insn custom e vm)"
proof (cases e)
  case (AluReg w op dst src)
  then show ?thesis
    using exec_wf_alu(1) [OF wf [unfolded AluReg]] wf inv pc
    by (auto simp: step_good_def write_dst_inv split: option.split)
next
  case (AluImm w op dst k)
  then show ?thesis
    using exec_wf_alu(2) [OF wf [unfolded AluImm]] wf inv pc
    by (auto simp: step_good_def write_dst_inv split: option.split)
next
  case (XCall f)
  then show ?thesis
    using dispatch_good [OF inv pc custom, of f] by (simp add: step_good_def helper_good_def)
next
  case (XLoad sz dst base off)
  with inv pc wf show ?thesis by (auto simp: step_good_def write_dst_inv split: sum.split)
next
  case (StoreReg sz base off src)
  with inv pc wf show ?thesis by (auto simp: step_good_def store_inv split: sum.split)
next
  case (StoreImm sz base off k)
  with inv pc wf show ?thesis by (auto simp: step_good_def store_inv split: sum.split)
next
  case (JumpReg w op dst src t)
  with inv pc wf next_pc_inv [OF inv pc] show ?thesis by (auto simp: step_good_def jump_inv)
next
  case (JumpImm w op dst k t)
  have "op = Always \<Longrightarrow> jump_taken op l r w" for l r
    by (cases w) (simp_all add: jump_taken_def jump_taken_32_def)
  with JumpImm inv pc wf next_pc_inv [OF inv pc] show ?thesis by (auto simp: step_good_def jump_inv)
qed (use inv pc wf in \<open>auto simp: step_good_def write_dst_inv jump_inv\<close>)

lemma step_good:
  assumes "vm_inv vm" "custom_ok custom" "step custom vm = (r, vm')"
  shows "vm_inv vm' \<and> v_exec vm' = v_exec vm \<and> v_insns vm' = v_insns vm \<and> r \<noteq> Panic
    \<and> (r = Continue \<longrightarrow> v_pc vm < length (v_exec vm)
        \<and> v_pc vm' \<in> exec_targets (v_exec vm ! v_pc vm) (v_pc vm))"
proof (cases "v_pc vm < length (v_exec vm)")
  case True
  moreover have "exec_wf (length (v_exec vm)) (v_exec vm ! v_pc vm)"
    using assms(1) True by (simp add: vm_inv_def list_all_length)
  ultimately show ?thesis
    using step_insn_good [OF assms(1) True assms(2), of "v_exec vm ! v_pc vm"] assms(3)
    by (simp add: step_def step_good_def)
next
  case False
  with assms show ?thesis by (auto simp: step_def)
qed


section \<open>Reachable machines\<close>

inductive reachable :: "('c \<Rightarrow> 'c vm \<Rightarrow> step_result \<times> 'c vm) \<Rightarrow> 'c vm \<Rightarrow> 'c vm \<Rightarrow> bool"
  for custom :: "'c \<Rightarrow> 'c vm \<Rightarrow> step_result \<times> 'c vm" and start :: "'c vm" where
  reach_start: "reachable custom start start"
| reach_step: "reachable custom start vm \<Longrightarrow> step custom vm = (Continue, vm') \<Longrightarrow> reachable custom start vm'"

inductive_cases reachableE: "reachable custom start vm"

lemma reachable_inv:
  "reachable custom start vm \<Longrightarrow> vm_inv start \<Longrightarrow> custom_ok custom \<Longrightarrow>
     vm_inv vm \<and> v_exec vm = v_exec start \<and> v_insns vm = v_insns start"
proof (induction rule: reachable.induct)
  case (reach_step vm vm')
  with step_good [OF _ reach_step.prems(2) reach_step.hyps(2)] show ?case by simp
qed simp

lemma reachable_trans:
  "reachable custom vm vm' \<Longrightarrow> reachable custom start vm \<Longrightarrow> reachable custom start vm'"
  by (induction rule: reachable.induct) (auto intro: reachable.intros)

lemma start_regs: "length zeroed_with_frame_pointer = NUM_REGS"
  "reg_get zeroed_with_frame_pointer frame_ptr = STACK_BASE"
  by (simp_all add: zeroed_with_frame_pointer_def NUM_REGS_def reg_get_put reg_index_def frame_ptr_def)

lemma load_list_wf: "list_all wf_insn insns \<Longrightarrow> list_all (exec_wf (length insns)) (load insns)"
  by (simp add: list_all_length load_nth lower_one_wf)

lemma vm_new_with_stores_inv:
  "list_all wf_insn insns \<Longrightarrow> maps_ok stores \<Longrightarrow> vm_inv (vm_new_with_stores insns stores)"
  by (simp add: vm_inv_def vm_new_with_stores_def start_regs load_list_wf)

lemma vm_new_inv: "list_all wf_insn insns \<Longrightarrow> vm_inv (vm_new insns)"
  by (simp add: vm_inv_def vm_new_def start_regs load_list_wf maps_ok_def)

lemma install_packet_inv:
  "vm_inv vm \<Longrightarrow> length p < 0x10000 \<Longrightarrow> vm_inv (install_xdp_packet p vm)"
  by (auto simp: vm_inv_def install_xdp_packet_def set_packet_wf reg_get_put NUM_REGS_def
      frame_ptr_def XDP_CTX_REG_def reg_index_def)

text \<open>Executable targets are the control transfers the graph is built from.\<close>

lemma exec_targets_transfer:
  assumes "pc < length insns" "slot_total insns < 2 ^ 32"
    and "pc' \<in> exec_targets (load insns ! pc) pc" "pc' < length insns"
  shows "(pc, pc') \<in> step_rel insns"
proof (cases "insns ! pc")
  case (Jump w op dst src off)
  show ?thesis
  proof (cases "resolve_jump insns pc off")
    case (Inr t)
    then have "exec_resolve insns pc off = Inr t" using exec_resolve_cfg [OF assms(1,2)] by simp
    then have "load insns ! pc = (if op = Always then JumpAlways t
         else case src of RegOp r \<Rightarrow> JumpReg w op dst r t | ImmOp k \<Rightarrow> JumpImm w op dst k t)"
      using Jump assms(1) by (simp add: load_nth resolve_load)
    with assms(3) have "pc' = t \<or> op \<noteq> Always \<and> pc' = pc + 1"
      by (cases src) (auto split: if_splits)
    with Inr Jump assms(1,4) show ?thesis
      by (cases "op = Always") (auto simp: step_rel_def transfers_def)
  next
    case (Inl e)
    then obtain kind where "exec_resolve insns pc off = Inl kind"
      using exec_resolve_cfg [OF assms(1,2), of off] by (cases "exec_resolve insns pc off") auto
    with Jump assms(1,3) show ?thesis by (simp add: load_nth resolve_load)
  qed
qed (use assms in \<open>auto simp: step_rel_def transfers_def load_nth split: operand.splits if_splits\<close>)

lemma reachable_step_rel:
  assumes "reachable custom start vm" "vm_inv start" "custom_ok custom" "slot_total insns < 2 ^ 32"
    and "v_exec start = load insns" "v_pc start = 0" "v_pc vm < length insns"
  shows "(0, v_pc vm) \<in> (step_rel insns)\<^sup>*"
  using assms
proof (induction rule: reachable.induct)
  case (reach_step vm vm')
  note inv = reachable_inv [OF reach_step.hyps(1) reach_step.prems(1,2)]
  from step_good [OF _ reach_step.prems(2) reach_step.hyps(2)] inv reach_step.prems(4)
  have "v_pc vm < length insns" "v_pc vm' \<in> exec_targets (load insns ! v_pc vm) (v_pc vm)" by auto
  with exec_targets_transfer [OF this(1) reach_step.prems(3) this(2) reach_step.prems(6)] reach_step
  show ?case by (auto intro: rtrancl_into_rtrancl)
qed simp


section \<open>Bounded runs\<close>

lemma exit_keeps_state: "step custom vm = (SExit code, vm') \<Longrightarrow> custom_ok custom \<Longrightarrow> vm_inv vm \<Longrightarrow> vm_inv vm'"
  using step_good by blast

lemma run_loop_outcome:
  "vm_inv vm \<Longrightarrow> custom_ok custom \<Longrightarrow> run_loop custom limit n vm = (out, vm') \<Longrightarrow>
     vm_inv vm' \<and> out \<noteq> None \<and>
     (\<exists>last. reachable custom vm last \<and>
        (case the out of
           Inr code \<Rightarrow> step custom last = (SExit code, vm')
         | Inl e \<Rightarrow> step custom last = (SError e, vm') \<or> e = StepsExceeded limit \<and> last = vm'))"
proof (induction n arbitrary: vm)
  case 0
  then show ?case by (auto intro: reach_start)
next
  case (Suc n)
  obtain r vm1 where s: "step custom vm = (r, vm1)" by force
  note G = step_good [OF Suc.prems(1,2) s]
  show ?case
  proof (cases r)
    case Continue
    with Suc.prems s have "run_loop custom limit n vm1 = (out, vm')" by simp
    moreover from Continue s have "reachable custom vm vm1" by (auto intro: reachable.intros)
    ultimately show ?thesis
      using Suc.IH [of vm1] G Suc.prems(2) reachable_trans [of custom vm1] by blast
  qed (use Suc.prems s G in \<open>auto intro: reach_start\<close>)
qed

lemma run_loop_more:
  "run_loop custom limit n vm = (Some r, vm') \<Longrightarrow> r \<noteq> Inl (StepsExceeded limit) \<Longrightarrow> n \<le> m \<Longrightarrow>
     run_loop custom limit' m vm = (Some r, vm')"
proof (induction n arbitrary: vm m)
  case (Suc n)
  then obtain m' where "m = Suc m'" "n \<le> m'" by (cases m) auto
  with Suc show ?case by (auto split: prod.splits step_result.splits)
qed simp


section \<open>What a lookup hands out\<close>

lemma scratch_read:
  assumes wf: "mem_wf (set_map_scratch v m)"
  shows "load_bytes (set_map_scratch v m) MAP_SCRATCH_BASE (length v) = Inr v"
proof -
  have c: "classify MAP_SCRATCH_BASE = RMapScratch" by (simp add: classify_def layout_defs)
  have "mem_byte (set_map_scratch v m) (MAP_SCRATCH_BASE + word_of_nat k) = Some (v ! k)"
    if "k < length v" for k
    using that mem_byte_view [OF wf, of MAP_SCRATCH_BASE 0 k]
    by (simp add: c region_base_def region_view_def set_map_scratch_def)
  then show ?thesis unfolding load_bytes_eq_slow [OF wf] load_slow_iff [OF wf] by simp
qed

lemma lookup_error:
  "map_lookup s k = Inl e \<Longrightarrow> store_wf s \<and> B \<Longrightarrow> length k = md_key_size (map_desc_of s) \<Longrightarrow> store_get s k = None"
  by (cases s) (auto simp: check_key_def array_index_def desc_ok_def Let_def
      split: if_splits option.splits prod.splits)

lemma put_slot:
  "map_slot vm fd = Some s0 \<Longrightarrow> v_maps vm' = (v_maps vm)[nat (sint fd) := Some s] \<Longrightarrow> map_slot vm' fd = Some s"
  by (auto simp: map_slot_def split: if_splits)


section \<open>Properties\<close>

text \<open>No registered helper: the machines of the command line.\<close>

definition no_custom :: "'c \<Rightarrow> 'c vm \<Rightarrow> step_result \<times> 'c vm" where
  "no_custom c vm = (SExit 0, vm)"

lemma no_custom_ok: "custom_ok no_custom"
  by (auto simp: custom_ok_def no_custom_def)

definition sample_stores :: "map_store option list" where
  "sample_stores = [None, Some (HashStore (sample_desc MHash) [([0, 0, 0, 0], [7])])]"

lemma sample_stores_ok: "maps_ok sample_stores"
  by (auto simp: maps_ok_def sample_stores_def sample_desc_def desc_ok_def sizes_ok_def)

lemma loop_program_wf: "list_all wf_insn loop_program"
  by (simp add: loop_program_def wf_reg_def)

definition return_program :: "insn list" where
  "return_program = [Alu B64 Mov (Reg 0) (ImmOp 7), Exit]"

lemma return_program_wf: "list_all wf_insn return_program"
  by (simp add: return_program_def wf_reg_def is_end_def)

lemma return_program_run:
  "fst (run_loop custom limit (Suc (Suc 0)) (vm_new return_program)) = Some (Inr 7)"
proof -
  have "load return_program = [AluImm B64 Mov (Reg 0) 7, XExit]"
    by (rule nth_equalityI) (auto simp: load_nth return_program_def nth_Cons less_Suc_eq is_end_def)
  then show ?thesis
    by (simp add: vm_new_def step_def write_dst_def is_frame_ptr_def frame_ptr_def reg_get_put
        zeroed_with_frame_pointer_def NUM_REGS_def alu_apply_def)
qed

text \<open>
  C3: a machine over a decoded program, with well-formed maps and helpers that keep its
  invariant, never panics, never loses the frame pointer in \<open>r10\<close>, and keeps its memory and
  maps well formed, whatever it executes.
\<close>

theorem vm_safe:
  assumes "list_all wf_insn insns" "maps_ok stores" "custom_ok custom"
    and "reachable custom (vm_new_with_stores insns stores) vm"
  shows "fst (step custom vm) \<noteq> Panic \<and> reg_get (v_regs vm) frame_ptr = STACK_BASE
    \<and> mem_wf (v_memory vm) \<and> maps_ok (v_maps vm) \<and> v_pc vm \<le> length insns"
proof -
  have inv: "vm_inv vm" "v_exec vm = load insns"
    using reachable_inv [OF assms(4) vm_new_with_stores_inv [OF assms(1,2)] assms(3)]
    by (simp_all add: vm_new_with_stores_def)
  obtain r vm' where "step custom vm = (r, vm')" by force
  with step_good [OF inv(1) assms(3) this] inv show ?thesis by (simp add: vm_inv_def)
qed

theorem vm_safe_witness:
  "fst (step no_custom (vm_new_with_stores loop_program sample_stores :: unit vm)) \<noteq> Panic"
  using vm_safe [OF loop_program_wf sample_stores_ok no_custom_ok reach_start] by blast

text \<open>
  C4: every instruction the machine reaches is reached along the control transfers the
  control-flow graph is built from; so its block is in the graph's reverse post-order, the
  order the verifier explores.
\<close>

theorem vm_follows_cfg:
  assumes "list_all wf_insn insns" "maps_ok stores" "custom_ok custom" "slot_total insns < 2 ^ 32"
    and "reachable custom (vm_new_with_stores insns stores) vm" "v_pc vm < length insns"
    and "build_cfg po insns = Some (Inr cfg)" "post_order_spec po (c_graph cfg)"
  shows "(0, v_pc vm) \<in> (step_rel insns)\<^sup>* \<and> block_at cfg (v_pc vm) \<in> set (c_rpo cfg)"
proof -
  have "(0, v_pc vm) \<in> (step_rel insns)\<^sup>*"
    by (rule reachable_step_rel [OF assms(5) vm_new_with_stores_inv [OF assms(1,2)] assms(3,4) _ _ assms(6)])
      (simp_all add: vm_new_with_stores_def)
  with rpo_covers_reachable_aux [OF assms(7,8) this] show ?thesis by blast
qed

theorem vm_follows_cfg_witness:
  "block_at loop_cfg (v_pc (vm_new_with_stores loop_program sample_stores :: unit vm)) \<in> set (c_rpo loop_cfg)"
proof -
  have "slot_total loop_program < 2 ^ 32"
    by (simp add: loop_program_def slot_total_def slot_start_def slot_width_def)
  moreover have "v_pc (vm_new_with_stores loop_program sample_stores :: unit vm) < length loop_program"
    by (simp add: vm_new_with_stores_def loop_program_def)
  ultimately show ?thesis
    using vm_follows_cfg [OF loop_program_wf sample_stores_ok no_custom_ok _ reach_start _
        build_loop_cfg loop_post_order_spec] by blast
qed



text \<open>
  bytes that decode always run to a value or an error, never a panic.
\<close>

theorem run_bytes_no_panic:
  assumes "custom_ok custom" "run_bytes custom bytes n = Inr out"
  shows "out \<noteq> None"
proof -
  from assms(2) obtain insns where d: "decode_program bytes = Inr insns"
    and out: "out = fst (run custom n (vm_new insns))"
    by (auto simp: run_bytes_def)
  have wf: "list_all wf_insn insns" using d decode_from_image by (simp add: decode_program_def)
  obtain vm' where "run_loop custom n n (vm_new insns) = (out, vm')"
    using out by (cases "run_loop custom n n (vm_new insns)") (auto simp: run_def)
  from run_loop_outcome [OF vm_new_inv [OF wf] assms(1) this] show ?thesis by blast
qed

theorem run_bytes_no_panic_witness:
  "\<exists>out. run_bytes (no_custom :: unit \<Rightarrow> _) [0x95, 0, 0, 0, 0, 0, 0, 0] 1 = Inr out \<and> out \<noteq> None"
proof -
  have "decode_program [0x95, 0, 0, 0, 0, 0, 0, 0] = Inr [Exit]"
    by (simp add: decode_program_def decode_from.simps from_bytes_def decode_defs)
  then obtain out where "run_bytes (no_custom :: unit \<Rightarrow> _) [0x95, 0, 0, 0, 0, 0, 0, 0] 1 = Inr out"
    by (simp add: run_bytes_def)
  with run_bytes_no_panic [OF no_custom_ok this] show ?thesis by blast
qed

text \<open>
  C19: a map lookup that hits hands the program a pointer whose bytes are exactly the value
  stored in the map, and one that misses hands it a null pointer.
\<close>

theorem helper_lookup_result:
  assumes inv: "vm_inv vm" and slot: "map_slot vm (reg_get (v_regs vm) (Reg 1)) = Some s"
    and key: "load_bytes (v_memory vm) (reg_get (v_regs vm) (Reg 2)) (md_key_size (map_desc_of s)) = Inr k"
  shows "\<exists>vm'. helper_map_lookup vm = (Continue, vm') \<and>
    (case store_get s k of
       Some v \<Rightarrow> reg_get (v_regs vm') (Reg 0) = MAP_SCRATCH_BASE
          \<and> load_bytes (v_memory vm') MAP_SCRATCH_BASE (length v) = Inr v
     | None \<Rightarrow> reg_get (v_regs vm') (Reg 0) = 0)
    \<and> map_option store_get (map_slot vm' (reg_get (v_regs vm) (Reg 1))) = Some (store_get s)"
proof -
  note parts = vm_inv_parts [OF inv] and wf = map_slot_ok [OF conjunct2 [OF vm_inv_parts [OF inv]] slot]
  have regs: "length (v_regs vm) = 11" using inv by (simp add: vm_inv_def NUM_REGS_def)
  have len: "length k = md_key_size (map_desc_of s)"
    using key load_bytes_eq_slow load_slow_iff parts by metis
  note unfold = helper_map_lookup_def Let_def slot key option.case sum.case prod.case
  show ?thesis
  proof (cases "map_lookup s k")
    case (Inl e)
    then have "store_get s k = None" using wf len by (rule lookup_error)
    moreover have "map_slot (snd (ret 0 vm)) fd = map_slot vm fd" for fd by (simp add: ret_def map_slot_def)
    ultimately show ?thesis unfolding unfold Inl using slot regs by (auto simp: ret_def reg_get_put)
  next
    case (Inr r)
    then obtain v s' where r: "map_lookup s k = Inr (v, s')" by (cases r) auto
    note L = map_lookup_spec [OF conjunct1 [OF wf] r]
    note put = put_slot [OF slot, where s = s']
    show ?thesis
    proof (cases v)
      case None
      with L regs show ?thesis unfolding unfold r None by (simp add: ret_def reg_get_put put)
    next
      case (Some bytes)
      then have get: "store_get s k = Some bytes" using L by simp
      show ?thesis
        using scratch_read [OF scratch_ok [OF inv slot r [unfolded Some]]] L regs
        unfolding unfold r Some get by (simp add: ret_def reg_get_put put)
    qed
  qed
qed

definition lookup_machine :: "unit vm" where
  "lookup_machine = (let vm = install_xdp_packet [0, 0, 0, 0] (vm_new_with_stores return_program sample_stores)
     in vm\<lparr>v_regs := reg_put (Reg 2) PACKET_BASE (reg_put (Reg 1) 1 (v_regs vm))\<rparr>)"

lemma lookup_machine_inv: "vm_inv lookup_machine"
proof -
  have "vm_inv (install_xdp_packet [0, 0, 0, 0] (vm_new_with_stores return_program sample_stores :: unit vm))"
    by (rule install_packet_inv [OF vm_new_with_stores_inv [OF return_program_wf sample_stores_ok]]) simp
  then show ?thesis
    by (simp add: lookup_machine_def Let_def vm_inv_def NUM_REGS_def reg_get_put reg_index_def frame_ptr_def)
qed

theorem helper_lookup_result_witness:
  "\<exists>vm'. helper_map_lookup lookup_machine = (Continue, vm')
     \<and> load_bytes (v_memory vm') MAP_SCRATCH_BASE 1 = Inr [7]"
proof -
  define s where "s = HashStore (sample_desc MHash) [([0, 0, 0, 0], [7])]"
  have regs: "reg_get (v_regs lookup_machine) (Reg 1) = 1" "reg_get (v_regs lookup_machine) (Reg 2) = PACKET_BASE"
    by (simp_all add: lookup_machine_def Let_def reg_get_put reg_index_def install_xdp_packet_def
        vm_new_with_stores_def zeroed_with_frame_pointer_def NUM_REGS_def)
  have slot: "map_slot lookup_machine 1 = Some s"
    by (simp add: map_slot_def lookup_machine_def Let_def install_xdp_packet_def vm_new_with_stores_def
        sample_stores_def s_def)
  have mem: "v_memory lookup_machine = set_packet [0, 0, 0, 0] memory_default"
    by (simp add: lookup_machine_def Let_def install_xdp_packet_def vm_new_with_stores_def)
  have key: "load_bytes (set_packet [0, 0, 0, 0] memory_default) PACKET_BASE (md_key_size (map_desc_of s))
      = Inr [0, 0, 0, 0]"
    unfolding s_def by code_simp
  from helper_lookup_result [of lookup_machine s "[0, 0, 0, 0]", unfolded regs mem, OF lookup_machine_inv slot key]
  show ?thesis by (auto simp: s_def)
qed

end
