(* ===== verification/Xdp.thy ===== *)
theory Xdp
  imports Vm
begin

text \<open>
  The XDP driver of \<open>crates/ebpf-vm/src/xdp.rs\<close>: action codes, the Ethernet and IPv4 header
  parsers, the packet-load annotations of the trace and \<open>run_xdp\<close>.  An IPv4 address is the list
  of its four octets.
\<close>

datatype xdp_action = Aborted | Drop | Pass | Tx | Redirect | Unknown i64

definition from_code :: "i64 \<Rightarrow> xdp_action" where
  "from_code code =
     (if code = 0 then Aborted else if code = 1 then Drop else if code = 2 then Pass
      else if code = 3 then Tx else if code = 4 then Redirect else Unknown code)"

fun action_code :: "xdp_action \<Rightarrow> i64" where
  "action_code Aborted = 0"
| "action_code Drop = 1"
| "action_code Pass = 2"
| "action_code Tx = 3"
| "action_code Redirect = 4"
| "action_code (Unknown c) = c"

record eth_header =
  eth_dst :: "u8 list"
  eth_src :: "u8 list"
  ethertype :: u16

definition ETHERTYPE_IPV4 :: u16 where "ETHERTYPE_IPV4 = 0x0800"

definition from_be_bytes :: "u8 \<Rightarrow> u8 \<Rightarrow> u16" where
  "from_be_bytes hi lo = push_bit 8 (ucast hi) OR ucast lo"

definition parse_eth :: "u8 list \<Rightarrow> eth_header option" where
  "parse_eth bytes =
     (if length bytes < 14 then None
      else Some \<lparr>eth_dst = take 6 bytes, eth_src = take 6 (drop 6 bytes),
                 ethertype = from_be_bytes (bytes ! 12) (bytes ! 13)\<rparr>)"

record ipv4_header =
  ip_src :: "u8 list"
  ip_dst :: "u8 list"
  ip_protocol :: u8
  ip_total_len :: u16

definition parse_ipv4 :: "u8 list \<Rightarrow> ipv4_header option" where
  "parse_ipv4 bytes =
     (if length bytes < 20 then None
      else if drop_bit 4 (bytes ! 0) \<noteq> 4 then None
      else if bytes ! 0 AND 0x0F < 5 then None
      else Some \<lparr>ip_src = take 4 (drop 12 bytes), ip_dst = take 4 (drop 16 bytes),
                 ip_protocol = bytes ! 9, ip_total_len = from_be_bytes (bytes ! 2) (bytes ! 3)\<rparr>)"

definition annotate_packet_load :: "u8 list \<Rightarrow> i64 \<Rightarrow> u8 \<Rightarrow> string option" where
  "annotate_packet_load packet offset w =
     (if w = 2 \<and> offset = 12
      then (case parse_eth packet of
              None \<Rightarrow> None
            | Some eth \<Rightarrow> Some (if ethertype eth = ETHERTYPE_IPV4 then ''ethertype=IPv4''
                               else ''ethertype=non-IPv4''))
      else if w = 1 \<and> offset = 23
      then (if length packet < 14 then None
            else case parse_ipv4 (drop 14 packet) of
              None \<Rightarrow> None
            | Some ip \<Rightarrow> Some (if ip_protocol ip = 6 then ''ip.proto=TCP''
                              else if ip_protocol ip = 17 then ''ip.proto=UDP''
                              else ''ip.proto=other''))
      else None)"

text \<open>\<open>map\<close> over the run outcome; \<open>None\<close> stays the panic.\<close>

definition map_outcome :: "(vm_error + i64) option \<Rightarrow> (vm_error + xdp_action) option" where
  "map_outcome out =
     (case out of None \<Rightarrow> None | Some (Inl e) \<Rightarrow> Some (Inl e) | Some (Inr c) \<Rightarrow> Some (Inr (from_code c)))"

definition run_xdp :: "('c \<Rightarrow> 'c vm \<Rightarrow> step_result \<times> 'c vm) \<Rightarrow> insn list \<Rightarrow> u8 list
    \<Rightarrow> map_store option list \<Rightarrow> nat \<Rightarrow> (vm_error + xdp_action) option" where
  "run_xdp custom insns packet stores max_steps =
     (let vm = (if list_all (\<lambda>s. s = None) stores then vm_new insns else vm_new_with_stores insns stores);
          vm = vm\<lparr>v_memory := set_packet packet (v_memory vm)\<rparr>;
          vm = vm\<lparr>v_regs := reg_put (Reg 1) XDP_MD_BASE (v_regs vm)\<rparr>
      in map_outcome (fst (run custom max_steps vm)))"

definition saturating_add :: "int \<Rightarrow> int \<Rightarrow> int" where
  "saturating_add x y = saturate_i64 (x + y)"

definition xdp_data_addrs :: "nat \<Rightarrow> int \<times> int" where
  "xdp_data_addrs n =
     (sint PACKET_BASE, saturating_add (sint PACKET_BASE) (i64_or_max n))"

definition action_of :: "vm_error + i64 \<Rightarrow> xdp_action option" where
  "action_of outcome = (case outcome of Inl e \<Rightarrow> None | Inr c \<Rightarrow> Some (from_code c))"


section \<open>Actions\<close>

lemma action_code_from_code [simp]: "action_code (from_code c) = c"
  by (simp add: from_code_def)

lemma from_code_inj: "from_code c = from_code c' \<longleftrightarrow> c = c'"
  by (metis action_code_from_code)

lemma run_xdp_machine:
  "run_xdp custom insns packet stores n =
     map_outcome (fst (run custom n (install_xdp_packet packet
       (if list_all (\<lambda>s. s = None) stores then vm_new insns else vm_new_with_stores insns stores))))"
  by (simp add: run_xdp_def install_xdp_packet_def XDP_CTX_REG_def Let_def)

text \<open>A big-endian header field, as the bytes of the wire.\<close>

lemma from_be_bytes_le: "from_be_bytes hi lo = from_le [lo, hi]"
  by (simp add: from_be_bytes_def or.commute)


section \<open>Annotations against the memory model\<close>

lemma packet_half: "mem_load (set_packet p m) (PACKET_BASE + 12) SzH =
    (if length p < 14 then Inl (OutOfBounds (PACKET_BASE + 12) 2) else Inr (from_le [p ! 12, p ! 13]))"
proof -
  have "classify (PACKET_BASE + 12) = RPacket" by (simp add: classify_def layout_defs)
  moreover have "byte_slice 12 2 p = [p ! 12, p ! 13]" if "14 \<le> length p"
    using that by (simp add: byte_slice_def numeral_2_eq_2 Cons_nth_drop_Suc [symmetric] take_Suc_Cons)
  ultimately show ?thesis
    by (simp add: mem_load_def set_packet_def Let_def packet_load_def region_load_def region_off_def
        layout_defs i64_bounds checked_i64_def check_alignment_if_def check_alignment_def)
qed

lemma packet_byte: "mem_load (set_packet p m) (PACKET_BASE + 23) SzB =
    (if length p < 24 then Inl (OutOfBounds (PACKET_BASE + 23) 1) else Inr (ucast (p ! 23)))"
proof -
  have "classify (PACKET_BASE + 23) = RPacket" by (simp add: classify_def layout_defs)
  moreover have "byte_slice 23 1 p = [p ! 23]" if "24 \<le> length p"
    using that by (simp add: byte_slice_def Cons_nth_drop_Suc [symmetric] take_Suc_Cons)
  ultimately show ?thesis
    by (simp add: mem_load_def set_packet_def Let_def packet_load_def region_load_def region_off_def
        layout_defs i64_bounds checked_i64_def check_alignment_if_def check_alignment_def)
qed

lemma be16_field: "endian_swap (from_le [a, b]) 16 BE = Some (ucast (from_be_bytes a b))"
proof -
  have mask: "(0xFFFF :: i64) = mask 16" by (simp add: mask_eq_exp_minus_1)
  have "ucast ((from_le [a, b] :: i64) AND 0xFFFF) = (from_le [a, b] :: u16)"
    unfolding mask by (rule bit_eqI) (simp add: bit_simps bit_from_le del: from_le.simps)
  moreover have "to_le 2 (from_le [a, b] :: u16) = [a, b]"
    using to_le_from_le [of "[a, b]", where 'a = 16] by (simp add: numeral_2_eq_2)
  ultimately show ?thesis
    by (simp add: endian_swap_def swap_bytes_def from_be_bytes_le del: from_le.simps)
qed

lemma unat_ucast_widen:
  fixes x :: "'a::len word"
  assumes "LENGTH('a) \<le> LENGTH('b::len)"
  shows "unat (ucast x :: 'b word) = unat x"
proof -
  have "unat x < 2 ^ LENGTH('b)"
    by (rule order.strict_trans2 [OF unsigned_less]) (simp add: assms)
  then show ?thesis by (simp add: unsigned_ucast_eq take_bit_nat_eq_self)
qed

lemma be16_ethertype:
  "endian_swap (from_le [a, b]) 16 BE = Some 0x0800 \<longleftrightarrow> from_be_bytes a b = ETHERTYPE_IPV4"
proof -
  have "ucast x = (0x0800 :: i64) \<longleftrightarrow> x = 0x0800" for x :: u16
    by (simp add: word_unat_eq_iff unat_ucast_widen)
  then show ?thesis by (simp add: be16_field ETHERTYPE_IPV4_def del: from_le.simps)
qed


section \<open>Properties\<close>



text \<open>
  C39: The annotation of an EtherType load states what the program computes: it says IPv4 exactly when
  the half-word the VM loads at offset 12, swapped to host order, is \<open>0x0800\<close>; and the annotation of
  the protocol byte names the byte the VM loads at offset 23.
\<close>

theorem annotation_matches_load:
  "(annotate_packet_load p 12 2 = Some ''ethertype=IPv4'' \<longleftrightarrow>
     (\<exists>v. mem_load (set_packet p m) (PACKET_BASE + 12) SzH = Inr v \<and> endian_swap v 16 BE = Some 0x0800))
   \<and> (\<forall>s. annotate_packet_load p 23 1 = Some s \<longrightarrow>
     (\<exists>v. mem_load (set_packet p m) (PACKET_BASE + 23) SzB = Inr v
       \<and> (s = ''ip.proto=TCP'' \<longleftrightarrow> v = 6) \<and> (s = ''ip.proto=UDP'' \<longleftrightarrow> v = 17)))"
proof
  show "annotate_packet_load p 12 2 = Some ''ethertype=IPv4'' \<longleftrightarrow>
     (\<exists>v. mem_load (set_packet p m) (PACKET_BASE + 12) SzH = Inr v \<and> endian_swap v 16 BE = Some 0x0800)"
    unfolding packet_half
    by (simp add: annotate_packet_load_def parse_eth_def be16_ethertype del: from_le.simps)
  have "ucast b = (6 :: i64) \<longleftrightarrow> b = 6" "ucast b = (17 :: i64) \<longleftrightarrow> b = 17" for b :: u8
    by (simp_all add: word_unat_eq_iff unat_ucast_widen)
  then show "\<forall>s. annotate_packet_load p 23 1 = Some s \<longrightarrow>
     (\<exists>v. mem_load (set_packet p m) (PACKET_BASE + 23) SzB = Inr v
       \<and> (s = ''ip.proto=TCP'' \<longleftrightarrow> v = 6) \<and> (s = ''ip.proto=UDP'' \<longleftrightarrow> v = 17))"
    unfolding packet_byte
    by (auto simp: annotate_packet_load_def parse_ipv4_def split: if_splits)
qed

definition sample_frame :: "u8 list" where
  "sample_frame = replicate 12 0 @ [8, 0, 0x45] @ replicate 8 0 @ [6] @ replicate 10 0"

theorem annotation_matches_load_witness:
  "annotate_packet_load sample_frame 23 1 = Some ''ip.proto=TCP''
   \<and> mem_load (set_packet sample_frame memory_default) (PACKET_BASE + 23) SzB = Inr 6"
proof -
  have "annotate_packet_load sample_frame 23 1 = Some ''ip.proto=TCP''"
    unfolding sample_frame_def by code_simp
  with annotation_matches_load [of sample_frame memory_default] show ?thesis by auto
qed

end
