(* ===== verification/VRange.thy ===== *)
theory VRange
  imports Vm
begin

text \<open>
  The interval domain of \<open>crates/ebpf-verifier/src/state.rs\<close> (\<open>Range\<close>) and the branch refinement
  of \<open>refine.rs\<close>.  The bounds of an interval are integers within the range of \<open>i64\<close>; checked,
  saturating and wrapping arithmetic is written out.  A register value is an \<open>i64\<close> word, read
  through \<open>sint\<close>; \<open>gamma_range r\<close> is the set of values the range stands for.

  What every abstract domain of the verifier promises to the worklist is the locale
  \<open>abs_domain\<close>: join and widening are upper bounds, and a widening that changes anything climbs a
  bounded height.
\<close>


section \<open>Ranges\<close>

datatype range = Bottom | Interval int int | Top

definition exact :: "int \<Rightarrow> range" where
  "exact v = Interval v v"

fun range_join :: "range \<Rightarrow> range \<Rightarrow> range" where
  "range_join Bottom r = r"
| "range_join r Bottom = r"
| "range_join Top r = Top"
| "range_join r Top = Top"
| "range_join (Interval l1 h1) (Interval l2 h2) = Interval (min l1 l2) (max h1 h2)"

fun range_meet :: "range \<Rightarrow> range \<Rightarrow> range" where
  "range_meet Bottom r = Bottom"
| "range_meet r Bottom = Bottom"
| "range_meet Top r = r"
| "range_meet r Top = r"
| "range_meet (Interval l1 h1) (Interval l2 h2) =
     (let lo = max l1 l2; hi = min h1 h2 in if lo \<le> hi then Interval lo hi else Bottom)"

fun range_widen :: "range \<Rightarrow> range \<Rightarrow> range" where
  "range_widen Bottom r = r"
| "range_widen r Bottom = r"
| "range_widen Top r = Top"
| "range_widen r Top = Top"
| "range_widen (Interval l1 h1) (Interval l2 h2) =
     (let lo = (if l2 < l1 then i64_min else l1);
          hi = (if h2 > h1 then i64_max else h1)
      in if lo = i64_min \<and> hi = i64_max then Top else Interval lo hi)"

text \<open>Reading an integer bound as the 64-bit word it is in the code, and back.\<close>

definition as_word :: "int \<Rightarrow> i64" where
  "as_word x = word_of_int x"

fun trunc32 :: "range \<Rightarrow> range" where
  "trunc32 (Interval lo hi) =
     (let lo' = sint (as_word lo AND 0xFFFFFFFF);
          hi' = sint (as_word hi AND 0xFFFFFFFF)
      in if lo' \<le> hi' then Interval lo' hi' else Top)"
| "trunc32 r = r"

fun range_sar :: "range \<Rightarrow> range \<Rightarrow> range" where
  "range_sar Bottom r = Bottom"
| "range_sar r Bottom = Bottom"
| "range_sar r s = Top"

fun range_add :: "range \<Rightarrow> range \<Rightarrow> range" where
  "range_add Bottom r = Bottom"
| "range_add r Bottom = Bottom"
| "range_add Top r = Top"
| "range_add r Top = Top"
| "range_add (Interval l1 h1) (Interval l2 h2) =
     (case (checked_i64 (l1 + l2), checked_i64 (h1 + h2)) of
        (Some lo, Some hi) \<Rightarrow> Interval lo hi | _ \<Rightarrow> Top)"

fun range_sub :: "range \<Rightarrow> range \<Rightarrow> range" where
  "range_sub Bottom r = Bottom"
| "range_sub r Bottom = Bottom"
| "range_sub Top r = Top"
| "range_sub r Top = Top"
| "range_sub (Interval l1 h1) (Interval l2 h2) =
     (case (checked_i64 (l1 - h2), checked_i64 (h1 - l2)) of
        (Some lo, Some hi) \<Rightarrow> Interval lo hi | _ \<Rightarrow> Top)"

fun range_and :: "range \<Rightarrow> range \<Rightarrow> range" where
  "range_and Bottom r = Bottom"
| "range_and r Bottom = Bottom"
| "range_and Top r = Top"
| "range_and r Top = Top"
| "range_and (Interval l1 h1) (Interval l2 h2) =
     (let lo = sint (as_word l1 AND as_word l2);
          hi = sint (as_word h1 AND as_word h2)
      in if lo \<le> hi then Interval lo hi else Top)"

fun range_or :: "range \<Rightarrow> range \<Rightarrow> range" where
  "range_or Bottom r = Bottom"
| "range_or r Bottom = Bottom"
| "range_or Top r = Top"
| "range_or r Top = Top"
| "range_or (Interval l1 h1) (Interval l2 h2) =
     (let lo = sint (as_word l1 OR as_word l2);
          hi = sint (as_word h1 OR as_word h2)
      in if lo \<le> hi then Interval lo hi else Top)"

fun range_xor :: "range \<Rightarrow> range \<Rightarrow> range" where
  "range_xor Bottom r = Bottom"
| "range_xor r Bottom = Bottom"
| "range_xor r s = Top"

text \<open>
  \<open>checked_shl\<close> only checks the shift amount: a shift below 64 drops the bits shifted out.  The
  amounts are converted to \<open>u32\<close>, which fails for a negative upper amount.
\<close>

definition checked_shl :: "int \<Rightarrow> nat \<Rightarrow> int option" where
  "checked_shl x s = (if s < 64 then Some (sint (push_bit s (as_word x))) else None)"

definition unwrap_or :: "'a option \<Rightarrow> 'a \<Rightarrow> 'a" where
  "unwrap_or x d = (case x of None \<Rightarrow> d | Some y \<Rightarrow> y)"

fun range_shl :: "range \<Rightarrow> range \<Rightarrow> range" where
  "range_shl Bottom r = Bottom"
| "range_shl r Bottom = Bottom"
| "range_shl (Interval lo hi) (Interval s sh) =
     (if lo \<ge> 0 \<and> hi \<ge> 0 \<and> s \<ge> 0 \<and> sh \<le> 63
      then if sh < 0 \<or> 2 ^ 32 \<le> s then Top
           else let lo' = unwrap_or (checked_shl lo (nat s)) i64_max;
                    hi' = unwrap_or (checked_shl hi (nat sh)) i64_max
                in if lo' \<le> hi' then Interval lo' hi' else Top
      else Top)"
| "range_shl r s = Top"

fun range_shr :: "range \<Rightarrow> range \<Rightarrow> range" where
  "range_shr Bottom r = Bottom"
| "range_shr r Bottom = Bottom"
| "range_shr (Interval lo hi) (Interval s_lo s_hi) =
     (if s_lo = s_hi \<and> 0 \<le> s_lo \<and> s_lo < 64
      then Interval (sint (drop_bit (nat s_lo) (as_word lo))) (sint (drop_bit (nat s_lo) (as_word hi)))
      else Top)"
| "range_shr r s = Top"


section \<open>Branch refinement\<close>

definition normalize_cmp :: "jump_op \<Rightarrow> bool \<Rightarrow> jump_op \<times> bool" where
  "normalize_cmp op taken =
     (case op of
        Ne \<Rightarrow> (JEq, \<not> taken) | Ge \<Rightarrow> (Lt, \<not> taken) | Gt \<Rightarrow> (Le, \<not> taken)
      | Sge \<Rightarrow> (Slt, \<not> taken) | Sgt \<Rightarrow> (Sle, \<not> taken) | _ \<Rightarrow> (op, taken))"

definition refine :: "range \<Rightarrow> jump_op \<Rightarrow> int \<Rightarrow> bool \<Rightarrow> range" where
  "refine r op k taken =
     (let (op, taken) = normalize_cmp op taken in
      if op = JEq \<and> taken then range_meet r (exact k)
      else if (op = Lt \<or> op = Slt) \<and> taken then range_meet r (Interval i64_min (saturate_i64 (k - 1)))
      else if op = Lt \<or> op = Slt then range_meet r (Interval k i64_max)
      else if (op = Le \<or> op = Sle) \<and> taken then range_meet r (Interval i64_min k)
      else if op = Le \<or> op = Sle then range_meet r (Interval (saturate_i64 (k + 1)) i64_max)
      else r)"


section \<open>Meaning\<close>

fun gamma_range :: "range \<Rightarrow> i64 set" where
  "gamma_range Bottom = {}"
| "gamma_range (Interval lo hi) = {v. lo \<le> sint v \<and> sint v \<le> hi}"
| "gamma_range Top = UNIV"

text \<open>\<open>lo \<le> hi\<close> by construction, both \<open>i64\<close>.\<close>

fun range_wf :: "range \<Rightarrow> bool" where
  "range_wf (Interval lo hi) \<longleftrightarrow> lo \<le> hi \<and> in_i64 lo \<and> in_i64 hi"
| "range_wf r \<longleftrightarrow> True"

fun range_height :: "range \<Rightarrow> nat" where
  "range_height Bottom = 0"
| "range_height (Interval lo hi) = 1 + (if lo = i64_min then 1 else 0) + (if hi = i64_max then 1 else 0)"
| "range_height Top = 4"

lemma sint_i64 [simp]: "i64_min \<le> sint (v :: i64)" "sint (v :: i64) \<le> i64_max"
  using sint_in_i64 [of v] by (auto simp: in_i64_def)

lemma sint_as_word: "in_i64 x \<Longrightarrow> sint (as_word x) = x"
  by (simp add: as_word_def in_i64_def i64_min_def i64_max_def signed_of_int signed_take_bit_int_eq_self)

lemma sint_inj: "sint (v :: i64) = sint w \<longleftrightarrow> v = w"
  by (metis signed_word_eqI)

lemma gamma_exact [simp]: "v \<in> gamma_range (exact k) \<longleftrightarrow> sint v = k"
  by (auto simp: exact_def)

lemma gamma_range_nonempty: "range_wf r \<Longrightarrow> r \<noteq> Bottom \<Longrightarrow> gamma_range r \<noteq> {}"
proof (cases r)
  case (Interval lo hi)
  assume "range_wf r"
  with Interval have "as_word lo \<in> gamma_range r" by (simp add: sint_as_word)
  then show ?thesis by blast
qed simp_all

lemma in_join: "v \<in> gamma_range a \<or> v \<in> gamma_range b \<Longrightarrow> v \<in> gamma_range (range_join a b)"
  by (cases a; cases b) auto

lemma in_widen: "v \<in> gamma_range a \<or> v \<in> gamma_range b \<Longrightarrow> v \<in> gamma_range (range_widen a b)"
  by (cases a; cases b) (auto simp: Let_def)

lemma gamma_meet: "gamma_range (range_meet a b) = gamma_range a \<inter> gamma_range b"
  by (cases a; cases b) (auto simp: Let_def)

lemma interval_subset:
  assumes "range_wf (Interval l h)" "gamma_range (Interval l h) \<subseteq> gamma_range (Interval l' h')"
  shows "l' \<le> l \<and> h \<le> h'"
proof -
  have "as_word l \<in> gamma_range (Interval l h)" "as_word h \<in> gamma_range (Interval l h)"
    using assms(1) by (simp_all add: sint_as_word)
  then have "as_word l \<in> gamma_range (Interval l' h')" "as_word h \<in> gamma_range (Interval l' h')"
    using assms(2) by blast+
  with assms(1) show ?thesis by (simp add: sint_as_word)
qed

lemma join_least:
  assumes "range_wf a" "range_wf b" "gamma_range a \<subseteq> gamma_range c" "gamma_range b \<subseteq> gamma_range c"
  shows "gamma_range (range_join a b) \<subseteq> gamma_range c"
proof (cases a)
  case a: (Interval l1 h1)
  show ?thesis
  proof (cases b)
    case b: (Interval l2 h2)
    show ?thesis
    proof (cases c)
      case Bottom
      with assms gamma_range_nonempty [of a] a show ?thesis by simp
    next
      case c: (Interval l h)
      with assms a b have "l \<le> l1 \<and> h1 \<le> h" "l \<le> l2 \<and> h2 \<le> h"
        using interval_subset by blast+
      with a b c show ?thesis by auto
    qed simp
  qed (use assms a in auto)
qed (use assms in \<open>cases b; simp\<close>)+

lemma range_wf_join: "range_wf a \<Longrightarrow> range_wf b \<Longrightarrow> range_wf (range_join a b)"
  by (cases a; cases b) (auto simp: min_def max_def)

lemma range_wf_meet: "range_wf a \<Longrightarrow> range_wf b \<Longrightarrow> range_wf (range_meet a b)"
  by (cases a; cases b) (auto simp: min_def max_def Let_def)

lemma range_wf_widen: "range_wf a \<Longrightarrow> range_wf b \<Longrightarrow> range_wf (range_widen a b)"
  by (cases a; cases b) (auto simp: Let_def in_i64_def i64_min_def i64_max_def)

lemma range_wf_exact [simp]: "range_wf (exact k) \<longleftrightarrow> in_i64 k"
  by (auto simp: exact_def)

lemma widen_progress: "range_widen a b \<noteq> a \<Longrightarrow> range_height a < range_height (range_widen a b)"
  by (cases a; cases b) (auto simp: Let_def i64_min_def i64_max_def split: if_splits)

lemma range_height_le: "range_height r \<le> 4"
  by (cases r) auto


section \<open>What an abstract domain promises\<close>

text \<open>
  \<open>step\<close> is a join or a widening, by a flag: the worklist joins up to a threshold and then widens.
\<close>

locale abs_domain =
  fixes wf :: "'a \<Rightarrow> bool"
    and gamma :: "'a \<Rightarrow> 'c set"
    and join :: "'a \<Rightarrow> 'a \<Rightarrow> 'a"
    and widen :: "'a \<Rightarrow> 'a \<Rightarrow> 'a"
    and height :: "'a \<Rightarrow> nat"
    and bound :: nat
  assumes wf_join: "wf a \<Longrightarrow> wf b \<Longrightarrow> wf (join a b)"
    and wf_widen: "wf a \<Longrightarrow> wf b \<Longrightarrow> wf (widen a b)"
    and join_upper: "wf a \<Longrightarrow> wf b \<Longrightarrow> gamma a \<union> gamma b \<subseteq> gamma (join a b)"
    and widen_upper: "wf a \<Longrightarrow> wf b \<Longrightarrow> gamma a \<union> gamma b \<subseteq> gamma (widen a b)"
    and widen_climbs: "wf a \<Longrightarrow> wf b \<Longrightarrow> widen a b \<noteq> a \<Longrightarrow> height a < height (widen a b)"
    and height_bound: "wf a \<Longrightarrow> height a \<le> bound"
begin

definition merge :: "bool \<Rightarrow> 'a \<Rightarrow> 'a \<Rightarrow> 'a" where
  "merge widening a b = (if widening then widen a b else join a b)"

lemma merge_wf: "wf a \<Longrightarrow> wf b \<Longrightarrow> wf (merge w a b)"
  by (simp add: merge_def wf_join wf_widen)

lemma merge_upper: "wf a \<Longrightarrow> wf b \<Longrightarrow> gamma a \<union> gamma b \<subseteq> gamma (merge w a b)"
  using join_upper [of a b] widen_upper [of a b] by (cases w) (simp_all add: merge_def)

text \<open>How many more changes a sequence of widenings can make.\<close>

definition slack :: "'a \<Rightarrow> nat" where
  "slack a = bound - height a"

lemma widen_slack: "wf a \<Longrightarrow> wf b \<Longrightarrow> widen a b \<noteq> a \<Longrightarrow> slack (widen a b) < slack a"
  using widen_climbs [of a b] height_bound [of "widen a b"] wf_widen [of a b] by (simp add: slack_def)

lemma slack_le: "slack a \<le> bound"
  by (simp add: slack_def)

text \<open>Any sequence of widenings is constant from some point on.\<close>

lemma widen_chain_changes:
  assumes "wf (x 0)" "\<And>n. wf (y n)" "\<And>n. x (Suc n) = widen (x n) (y n)"
  shows "wf (x n) \<and> slack (x n) + card {i. i < n \<and> x (Suc i) \<noteq> x i} \<le> slack (x 0)"
proof (induction n)
  case 0
  then show ?case using assms by simp
next
  case (Suc n)
  have split: "{i. i < Suc n \<and> x (Suc i) \<noteq> x i} =
      (if x (Suc n) = x n then {} else {n}) \<union> {i. i < n \<and> x (Suc i) \<noteq> x i}"
    by (auto simp: less_Suc_eq)
  show ?case
  proof (cases "x (Suc n) = x n")
    case True
    with Suc split show ?thesis by simp
  next
    case False
    with widen_slack [of "x n" "y n"] Suc assms(2,3) have "slack (x (Suc n)) < slack (x n)" by simp
    moreover have "wf (x (Suc n))" using Suc assms wf_widen by simp
    moreover have "card {i. i < Suc n \<and> x (Suc i) \<noteq> x i} = Suc (card {i. i < n \<and> x (Suc i) \<noteq> x i})"
      using False by (simp add: split)
    ultimately show ?thesis using Suc by simp
  qed
qed

end

interpretation range: abs_domain range_wf gamma_range range_join range_widen range_height 4
  by unfold_locales (auto intro: in_join in_widen widen_progress range_height_le range_wf_join range_wf_widen)


section \<open>Which operations are sound\<close>

lemma sint_sub_i64: "in_i64 (sint v - sint w) \<Longrightarrow> sint (v - w :: i64) = sint v - sint w"
  by (simp add: sint_word_ariths(2) signed_take_bit_int_eq_self i64_bounds)

lemma range_add_sound: "v \<in> gamma_range a \<Longrightarrow> w \<in> gamma_range b \<Longrightarrow> v + w \<in> gamma_range (range_add a b)"
proof (cases a; cases b)
  fix l1 h1 l2 h2
  assume *: "v \<in> gamma_range a" "w \<in> gamma_range b" "a = Interval l1 h1" "b = Interval l2 h2"
  show ?thesis
  proof (cases "in_i64 (l1 + l2) \<and> in_i64 (h1 + h2)")
    case True
    with * have "in_i64 (sint v + sint w)" by (auto simp: in_i64_def)
    with True * show ?thesis by (auto simp: sint_add_i64 checked_i64_def)
  qed (use * in \<open>auto simp: checked_i64_def\<close>)
qed auto

lemma range_sub_sound: "v \<in> gamma_range a \<Longrightarrow> w \<in> gamma_range b \<Longrightarrow> v - w \<in> gamma_range (range_sub a b)"
proof (cases a; cases b)
  fix l1 h1 l2 h2
  assume *: "v \<in> gamma_range a" "w \<in> gamma_range b" "a = Interval l1 h1" "b = Interval l2 h2"
  show ?thesis
  proof (cases "in_i64 (l1 - h2) \<and> in_i64 (h1 - l2)")
    case True
    with * have "in_i64 (sint v - sint w)" by (auto simp: in_i64_def)
    with True * show ?thesis by (auto simp: sint_sub_i64 checked_i64_def)
  qed (use * in \<open>auto simp: checked_i64_def\<close>)
qed auto

lemma range_xor_sound: "v \<in> gamma_range a \<Longrightarrow> w \<in> gamma_range b \<Longrightarrow> u \<in> gamma_range (range_xor a b)"
  by (cases a; cases b) auto

lemma range_sar_sound: "v \<in> gamma_range a \<Longrightarrow> w \<in> gamma_range b \<Longrightarrow> u \<in> gamma_range (range_sar a b)"
  by (cases a; cases b) auto

lemma range_wf_add: "range_wf a \<Longrightarrow> range_wf b \<Longrightarrow> range_wf (range_add a b)"
  by (cases a; cases b) (auto simp: checked_i64_def)

lemma range_wf_sub: "range_wf a \<Longrightarrow> range_wf b \<Longrightarrow> range_wf (range_sub a b)"
  by (cases a; cases b) (auto simp: checked_i64_def)

text \<open>The comparisons an interval of signed values can carry.\<close>

definition signed_cmp :: "jump_op \<Rightarrow> bool" where
  "signed_cmp op \<longleftrightarrow> op \<notin> {Lt, Le, Gt, Ge}"

lemma uint_nonneg: "0 \<le> sint (v :: i64) \<Longrightarrow> uint v = sint v"
  using sint_lt [of v] by (simp add: uint_sint take_bit_int_eq_self)

lemma word_less_sint: "0 \<le> sint (v :: i64) \<Longrightarrow> 0 \<le> sint w \<Longrightarrow> (v < w \<longleftrightarrow> sint v < sint w) \<and> (v \<le> w \<longleftrightarrow> sint v \<le> sint w)"
  by (simp add: word_less_def word_le_def uint_nonneg)

lemma refine_sound_aux:
  assumes "v \<in> gamma_range r" "in_i64 k" "jump_taken_64 op v (as_word k) = taken"
    and "signed_cmp op \<or> 0 \<le> k \<and> 0 \<le> sint v"
  shows "v \<in> gamma_range (refine r op k taken)"
proof -
  have k: "sint (as_word k) = k" using assms(2) by (rule sint_as_word)
  have w: "0 \<le> k \<Longrightarrow> 0 \<le> sint v \<Longrightarrow> (v < as_word k \<longleftrightarrow> sint v < k) \<and> (v \<le> as_word k \<longleftrightarrow> sint v \<le> k)
      \<and> (as_word k < v \<longleftrightarrow> k < sint v) \<and> (as_word k \<le> v \<longleftrightarrow> k \<le> sint v)"
    using word_less_sint [of v "as_word k"] word_less_sint [of "as_word k" v] k by simp
  have eq: "v = as_word k \<longleftrightarrow> sint v = k" using k sint_inj by metis
  have sat: "sint v < k \<Longrightarrow> sint v \<le> saturate_i64 (k - 1)" "k < sint v \<Longrightarrow> saturate_i64 (k + 1) \<le> sint v"
    using sint_i64 [of v] by (auto simp: saturate_i64_def)
  show ?thesis
    using assms w eq sat
    by (cases op; cases taken)
      (auto simp: refine_def normalize_cmp_def gamma_meet signed_cmp_def k not_less not_le)
qed


subsection \<open>Shifts\<close>

fun is_exact :: "range \<Rightarrow> bool" where
  "is_exact (Interval lo hi) = (lo = hi)"
| "is_exact r = False"

fun shl_fits :: "range \<Rightarrow> range \<Rightarrow> bool" where
  "shl_fits (Interval lo hi) (Interval s sh) = (0 \<le> lo \<and> s = sh \<and> hi * 2 ^ nat s \<le> i64_max)"
| "shl_fits l r = False"

fun shr_fits :: "range \<Rightarrow> bool" where
  "shr_fits (Interval lo hi) = (0 \<le> lo \<and> hi \<le> i64_max)"
| "shr_fits r = False"

lemma as_word_sint: "sint v = x \<Longrightarrow> as_word x = v"
  by (auto simp: as_word_def)

lemma shift_amount: "sint (w :: i64) = s \<Longrightarrow> 0 \<le> s \<Longrightarrow> s < 64 \<Longrightarrow> unat (ucast w AND 63 :: u32) = nat s"
proof -
  assume s: "sint w = s" "0 \<le> s" "s < 64"
  then have "uint w = s" by (simp add: uint_nonneg)
  moreover have "(63 :: u32) = mask 6" by (simp add: mask_eq_exp_minus_1)
  then have "(ucast w AND 63 :: u32) = take_bit 6 (ucast w)" by (simp only: take_bit_eq_mask)
  ultimately have "uint (ucast w AND 63 :: u32) = s"
    using s by (simp add: unsigned_take_bit_eq unsigned_ucast_eq take_bit_int_eq_self)
  then show ?thesis by (metis unat_eq_nat_uint)
qed

lemma shl_value: "0 \<le> x \<Longrightarrow> x * 2 ^ k \<le> i64_max \<Longrightarrow> sint (push_bit k (as_word x)) = x * 2 ^ k"
proof -
  assume x: "0 \<le> x" "x * 2 ^ k \<le> i64_max"
  have "push_bit k (as_word x) = as_word (x * 2 ^ k)" by (simp add: as_word_def push_bit_eq_mult)
  moreover have "in_i64 (x * 2 ^ k)" proof -
    have "0 \<le> x * 2 ^ k" using x(1) by simp
    moreover have "i64_min \<le> 0" by (simp add: i64_min_def)
    ultimately have "i64_min \<le> x * 2 ^ k" by linarith
    then show ?thesis using x(2) by (simp add: in_i64_def)
  qed
  ultimately show ?thesis by (simp add: sint_as_word)
qed

lemma shr_value: "0 \<le> sint (v :: i64) \<Longrightarrow> sint (drop_bit k v) = sint v div 2 ^ k"
proof -
  assume v: "0 \<le> sint v"
  have u: "uint (drop_bit k v) = sint v div 2 ^ k" using v sint_lt [of v]
    unfolding unsigned_drop_bit_eq by (simp add: uint_nonneg drop_bit_eq_div take_bit_int_eq_self)
  moreover have "0 \<le> sint v div 2 ^ k" "sint v div 2 ^ k \<le> sint v"
    using v zdiv_mono2 [of "sint v" 1 "2 ^ k"] by (simp_all add: pos_imp_zdiv_nonneg_iff)
  moreover have "sint v < 2 ^ 63" using sint_lt [of v] by simp
  ultimately show ?thesis by (simp add: sint_uint signed_take_bit_int_eq_self)
qed

lemma shl_sound:
  assumes "l \<in> gamma_range lr" "r \<in> gamma_range rr" "lr = Top \<or> rr = Top \<or> is_exact lr \<and> is_exact rr \<or> shl_fits lr rr"
  shows "push_bit (unat (ucast r AND 63 :: u32)) l \<in> gamma_range (range_shl lr rr)"
proof (cases "\<exists>lo hi s. lr = Interval lo hi \<and> rr = Interval s s \<and> 0 \<le> lo \<and> 0 \<le> hi \<and> 0 \<le> s \<and> s \<le> 63")
  case True
  then obtain lo hi s where I: "lr = Interval lo hi" "rr = Interval s s" "0 \<le> lo" "0 \<le> s" "s \<le> 63" by blast
  have k: "unat (ucast r AND 63 :: u32) = nat s" using assms(2) I by (intro shift_amount) auto
  have shl: "checked_shl x (nat s) = Some (sint (push_bit (nat s) (as_word x)))" for x
    using I by (simp add: checked_shl_def)
  show ?thesis
  proof (cases "lo = hi")
    case True
    then have "as_word lo = l" using assms(1) I by (intro as_word_sint) auto
    then show ?thesis using True I k by (simp add: shl Let_def unwrap_or_def)
  next
    case False
    then have fits: "hi * 2 ^ nat s \<le> i64_max" using assms(3) I by simp
    have b: "lo \<le> sint l" "sint l \<le> hi" using assms(1) I by simp_all
    then have m: "lo * 2 ^ nat s \<le> sint l * 2 ^ nat s" "sint l * 2 ^ nat s \<le> hi * 2 ^ nat s" by simp_all
    have "sint (push_bit (nat s) (as_word x)) = x * 2 ^ nat s" if "0 \<le> x" "x * 2 ^ nat s \<le> hi * 2 ^ nat s" for x
      using that(1) order_trans [OF that(2) fits] by (rule shl_value)
    from this [of lo] this [of hi] this [of "sint l"] m b I show ?thesis
      by (simp add: k shl Let_def unwrap_or_def as_word_sint [OF refl])
  qed
next
  case False
  then show ?thesis
    using assms by (cases lr; cases rr) (auto simp: Let_def split: if_splits)
qed

lemma shr_sound:
  assumes "l \<in> gamma_range lr" "r \<in> gamma_range rr" "lr = Top \<or> rr = Top \<or> is_exact lr \<and> is_exact rr \<or> shr_fits lr"
  shows "drop_bit (unat (ucast r AND 63 :: u32)) l \<in> gamma_range (range_shr lr rr)"
proof (cases "\<exists>lo hi s. lr = Interval lo hi \<and> rr = Interval s s \<and> 0 \<le> s \<and> s < 64")
  case True
  then obtain lo hi s where I: "lr = Interval lo hi" "rr = Interval s s" "0 \<le> s" "s < 64" by blast
  have k: "unat (ucast r AND 63 :: u32) = nat s" using assms(2) I by (intro shift_amount) auto
  show ?thesis
  proof (cases "lo = hi")
    case True
    then have "as_word lo = l" using assms(1) I by (intro as_word_sint) auto
    then show ?thesis using True I k by simp
  next
    case False
    then have lo: "0 \<le> lo" using assms(3) I by simp
    have b: "lo \<le> sint l" "sint l \<le> hi" "hi \<le> i64_max" using assms(1,3) I False by simp_all
    have "sint (drop_bit (nat s) (as_word x)) = x div 2 ^ nat s" if "0 \<le> x" "x \<le> hi" for x
      using that b(3) by (subst shr_value) (simp_all add: sint_as_word in_i64_def i64_bounds)
    from this [of lo] this [of hi] this [of "sint l"] lo b I k show ?thesis
      by (simp add: as_word_sint [OF refl] zdiv_mono1)
  qed
next
  case False
  then show ?thesis
    using assms by (cases lr; cases rr) (auto split: if_splits)
qed


section \<open>Properties\<close>

text \<open>
  The lattice operations are the best ones: a meet stands for exactly the common values, and a
  join of proper intervals is below every range that contains both.
\<close>

theorem range_lattice:
  "gamma_range (range_meet a b) = gamma_range a \<inter> gamma_range b
   \<and> gamma_range a \<union> gamma_range b \<subseteq> gamma_range (range_join a b)
   \<and> (range_wf a \<and> range_wf b \<and> gamma_range a \<union> gamma_range b \<subseteq> gamma_range c \<longrightarrow>
        gamma_range (range_join a b) \<subseteq> gamma_range c)"
  using gamma_meet in_join join_least [of a b c] by blast

theorem range_lattice_witness:
  "gamma_range (range_join (Interval 1 2) (Interval 5 7)) \<subseteq> gamma_range (Interval 0 9)"
proof -
  have wf: "range_wf (Interval 1 2) \<and> range_wf (Interval 5 7)" by (simp add: i64_bounds)
  have "gamma_range (Interval 1 2) \<union> gamma_range (Interval 5 7) \<subseteq> gamma_range (Interval 0 9)"
    unfolding gamma_range.simps by (rule subsetI) (elim UnE CollectE, simp_all)
  with wf range_lattice [of "Interval 1 2" "Interval 5 7" "Interval 0 9"] show ?thesis by argo
qed

text \<open>
  C32: Widening is an upper bound, and any sequence of widenings of one range changes it at most four
  times, whatever it is widened by.
\<close>

theorem range_widen_stabilises:
  assumes "range_wf (x 0)" "\<And>n. range_wf (y n)" "\<And>n. x (Suc n) = range_widen (x n) (y n)"
  shows "gamma_range (x n) \<union> gamma_range (y n) \<subseteq> gamma_range (x (Suc n))
    \<and> card {i. i < n \<and> x (Suc i) \<noteq> x i} \<le> 4"
proof -
  have "card {i. i < n \<and> x (Suc i) \<noteq> x i} \<le> range.slack (x 0)"
    using range.widen_chain_changes [where x = x and y = y and n = n, OF assms] by linarith
  moreover have "gamma_range (x n) \<union> gamma_range (y n) \<subseteq> gamma_range (x (Suc n))"
    unfolding assms(3) by (rule range.widen_upper [OF conjunct1 [OF range.widen_chain_changes [where x = x and y = y, OF assms]] assms(2)])
  ultimately show ?thesis using range.slack_le [of "x 0"] by linarith
qed

theorem range_widen_stabilises_witness:
  "gamma_range (exact 0) \<union> gamma_range (exact 1) \<subseteq> gamma_range (Interval 0 i64_max)"
proof -
  define x where "x = (\<lambda>i :: nat. if i = 0 then exact 0 else Interval 0 i64_max)"
  have "range_wf (x 0)" "range_wf (exact 1)" by (simp_all add: x_def i64_bounds)
  moreover have "x (Suc i) = range_widen (x i) (exact 1)" for i
    by (simp add: x_def exact_def i64_bounds)
  ultimately have "gamma_range (x 0) \<union> gamma_range (exact 1) \<subseteq> gamma_range (x (Suc 0))"
    using range_widen_stabilises [where x = x and y = "\<lambda>_. exact 1" and n = 0] by blast
  then show ?thesis unfolding x_def by simp
qed

text \<open>
  C30: Addition, subtraction, exclusive or and arithmetic shift of ranges contain every result of the
  machine operation on contained operands, overflow included.
\<close>

theorem range_ops_sound:
  assumes "v \<in> gamma_range a" "w \<in> gamma_range b"
  shows "v + w \<in> gamma_range (range_add a b) \<and> v - w \<in> gamma_range (range_sub a b)
    \<and> v XOR w \<in> gamma_range (range_xor a b) \<and> (\<forall>u. u \<in> gamma_range (range_sar a b))"
  by (intro conjI allI range_add_sound range_sub_sound range_xor_sound [of v a w b] range_sar_sound [of v a w b] assms)

theorem range_ops_sound_witness:
  "(7 :: i64) + - 3 \<in> gamma_range (range_add (Interval 0 9) (Interval (- 5) 5))"
proof -
  have "(7 :: i64) \<in> gamma_range (Interval 0 9)" "(- 3 :: i64) \<in> gamma_range (Interval (- 5) 5)" by simp_all
  from range_ops_sound [OF this] show ?thesis by blast
qed

text \<open>
  The remaining operations are not: bounds computed end by end do not contain every result.  Each
  line is a pair of contained operands whose machine result lies outside.
\<close>

theorem range_ops_unsound:
  "(3 :: i64) \<in> gamma_range (Interval 0 4) \<and> 3 AND 3 \<notin> gamma_range (range_and (Interval 0 4) (exact 3))
   \<and> (2 :: i64) \<in> gamma_range (Interval 1 4) \<and> 2 OR 2 \<notin> gamma_range (range_or (Interval 1 4) (exact 2))
   \<and> (1 :: i64) \<in> gamma_range (Interval 0 (2 ^ 62)) \<and> push_bit 2 1 \<notin> gamma_range (range_shl (Interval 0 (2 ^ 62)) (exact 2))
   \<and> (1 :: i64) \<in> gamma_range (Interval (- 1) 1) \<and> drop_bit 1 1 \<notin> gamma_range (range_shr (Interval (- 1) 1) (exact 1))
   \<and> (1 :: i64) \<in> gamma_range (Interval 0 (2 ^ 32)) \<and> 1 AND 0xFFFFFFFF \<notin> gamma_range (trunc32 (Interval 0 (2 ^ 32)))"
proof -
  have "range_and (Interval 0 4) (exact 3) = Interval 0 0" "range_or (Interval 1 4) (exact 2) = Interval 3 6"
    "range_shl (Interval 0 (2 ^ 62)) (exact 2) = Interval 0 0" "trunc32 (Interval 0 (2 ^ 32)) = Interval 0 0"
    "range_shr (Interval (- 1) 1) (exact 1) = Interval i64_max 0"
    by code_simp+
  then show ?thesis by (simp add: i64_max_def)
qed



text \<open>
  The side condition is needed: a negative register value passes an unsigned comparison that
  its refinement excludes.
\<close>

theorem refine_unsigned_unsound:
  "jump_taken Lt (- 1) 5 B64 = False \<and> (- 1 :: i64) \<in> gamma_range Top
   \<and> (- 1 :: i64) \<notin> gamma_range (refine Top Lt 5 False)"
  by (simp add: jump_taken_def refine_def normalize_cmp_def)

end
