(* ===== verification/VState.thy ===== *)
theory VState
  imports VRange
begin

text \<open>
  The abstract machine state of \<open>crates/ebpf-verifier/src/state.rs\<close>: register kinds, the stack
  initialisation bitset, the shared configuration, and the joins and widenings of the worklist.
  Offsets from \<open>r10\<close> and map descriptors' numbers are integers within \<open>i32\<close> and \<open>i64\<close>.  A shared
  \<open>Rc\<close> table is its value: the pointer-equality shortcuts of \<open>join_maps\<close> and \<open>adopt_maps\<close> return
  what the comparison of the tables returns.
\<close>

datatype reg_type =
    NotInit
  | Scalar range
  | StackPtr int
  | MapPtr int
  | MaybeMapPtr int
  | XdpMdPtr
  | PacketPtr range
  | DataPtr range

fun reg_join :: "reg_type \<Rightarrow> reg_type \<Rightarrow> reg_type" where
  "reg_join NotInit b = NotInit"
| "reg_join a NotInit = NotInit"
| "reg_join (Scalar r1) (Scalar r2) = Scalar (range_join r1 r2)"
| "reg_join (StackPtr o1) (StackPtr o2) = (if o1 = o2 then StackPtr o1 else Scalar Top)"
| "reg_join (MapPtr f1) (MapPtr f2) = (if f1 = f2 then MapPtr f1 else Scalar Top)"
| "reg_join (MaybeMapPtr f1) (MaybeMapPtr f2) = (if f1 = f2 then MaybeMapPtr f1 else Scalar Top)"
| "reg_join (MapPtr f1) (MaybeMapPtr f2) = (if f1 = f2 then MaybeMapPtr f1 else Scalar Top)"
| "reg_join (MaybeMapPtr f2) (MapPtr f1) = (if f1 = f2 then MaybeMapPtr f1 else Scalar Top)"
| "reg_join XdpMdPtr XdpMdPtr = XdpMdPtr"
| "reg_join (PacketPtr o1) (PacketPtr o2) = PacketPtr (range_join o1 o2)"
| "reg_join (DataPtr o1) (DataPtr o2) = DataPtr (range_join o1 o2)"
| "reg_join a b = Scalar Top"

text \<open>The widening of one register, shared by \<open>widen\<close> and \<open>widen_assign\<close>.\<close>

fun reg_widen :: "reg_type \<Rightarrow> reg_type \<Rightarrow> reg_type" where
  "reg_widen (Scalar r1) (Scalar r2) = Scalar (range_widen r1 r2)"
| "reg_widen (PacketPtr o1) (PacketPtr o2) = PacketPtr (range_widen o1 o2)"
| "reg_widen (DataPtr o1) (DataPtr o2) = DataPtr (range_widen o1 o2)"
| "reg_widen a b = reg_join a b"

text \<open>\<open>RegType::join_assign\<close>: the new value and whether it changed.\<close>

definition reg_join_assign :: "reg_type \<Rightarrow> reg_type \<Rightarrow> reg_type \<times> bool" where
  "reg_join_assign a b = (let joined = reg_join a b in if a = joined then (a, False) else (joined, True))"

definition STACK_SLOTS :: nat where "STACK_SLOTS = 64"
definition STACK_BYTES :: nat where "STACK_BYTES = 512"
definition STACK_BYTES_I32 :: int where "STACK_BYTES_I32 = 512"

record verifier_state =
  vs_regs :: "reg_type list"
  vs_stack_init :: "u64 list"
  vs_maps :: "map_desc option list"
  vs_packet_len :: "nat option"
  vs_data_len :: "nat option"

definition initial_with_maps :: "map_desc option list \<Rightarrow> verifier_state" where
  "initial_with_maps maps =
     \<lparr>vs_regs = (replicate 11 NotInit)[10 := StackPtr 0], vs_stack_init = replicate 8 0,
      vs_maps = maps, vs_packet_len = None, vs_data_len = None\<rparr>"

definition vs_initial :: verifier_state where
  "vs_initial = initial_with_maps []"

definition initial_xdp :: "nat option \<Rightarrow> map_desc option list \<Rightarrow> verifier_state" where
  "initial_xdp plen maps =
     \<lparr>vs_regs = (replicate 11 NotInit)[1 := XdpMdPtr, 10 := StackPtr 0], vs_stack_init = replicate 8 0,
      vs_maps = maps, vs_packet_len = plen, vs_data_len = None\<rparr>"

definition mark_stack_byte :: "nat \<Rightarrow> verifier_state \<Rightarrow> verifier_state" where
  "mark_stack_byte byte st =
     st\<lparr>vs_stack_init := (vs_stack_init st)[drop_bit 6 byte :=
          vs_stack_init st ! drop_bit 6 byte OR push_bit (byte AND 63) 1]\<rparr>"

definition mark_stack_range :: "nat \<Rightarrow> nat \<Rightarrow> verifier_state \<Rightarrow> verifier_state" where
  "mark_stack_range lo hi st = fold mark_stack_byte [lo..<Suc hi] st"

definition stack_range_init :: "verifier_state \<Rightarrow> nat \<Rightarrow> nat \<Rightarrow> bool" where
  "stack_range_init st lo hi \<longleftrightarrow>
     list_all (\<lambda>byte. (vs_stack_init st ! drop_bit 6 byte) AND push_bit (byte AND 63) 1 \<noteq> 0) [lo..<Suc hi]"

definition clear_stack_init :: "verifier_state \<Rightarrow> verifier_state" where
  "clear_stack_init st = st\<lparr>vs_stack_init := replicate 8 0\<rparr>"

definition get_desc :: "map_desc option list \<Rightarrow> nat \<Rightarrow> map_desc option" where
  "get_desc maps i = (if i < length maps then maps ! i else None)"

definition join_maps :: "map_desc option list \<Rightarrow> map_desc option list \<Rightarrow> map_desc option list" where
  "join_maps a b =
     (if a = [] \<and> b = [] then a
      else map (\<lambda>i. case (get_desc a i, get_desc b i) of
                      (Some x, Some y) \<Rightarrow> if x = y then Some x else None
                    | _ \<Rightarrow> None) [0..<max (length a) (length b)])"

definition adopt_maps :: "verifier_state \<Rightarrow> map_desc option list \<Rightarrow> verifier_state \<times> bool" where
  "adopt_maps st maps = (if maps = vs_maps st then (st, False) else (st\<lparr>vs_maps := maps\<rparr>, True))"

definition join_len :: "nat option \<Rightarrow> nat option \<Rightarrow> nat option" where
  "join_len a b = (if a = b then a else None)"

definition state_join :: "verifier_state \<Rightarrow> verifier_state \<Rightarrow> verifier_state" where
  "state_join a b =
     \<lparr>vs_regs = map (\<lambda>i. reg_join (vs_regs a ! i) (vs_regs b ! i)) [0..<11],
      vs_stack_init = map (\<lambda>i. (vs_stack_init a ! i) AND (vs_stack_init b ! i)) [0..<8],
      vs_maps = join_maps (vs_maps a) (vs_maps b),
      vs_packet_len = join_len (vs_packet_len a) (vs_packet_len b),
      vs_data_len = join_len (vs_data_len a) (vs_data_len b)\<rparr>"

definition state_widen :: "verifier_state \<Rightarrow> verifier_state \<Rightarrow> verifier_state" where
  "state_widen old new =
     \<lparr>vs_regs = map (\<lambda>i. reg_widen (vs_regs old ! i) (vs_regs new ! i)) [0..<11],
      vs_stack_init = map (\<lambda>i. (vs_stack_init old ! i) AND (vs_stack_init new ! i)) [0..<8],
      vs_maps = join_maps (vs_maps old) (vs_maps new),
      vs_packet_len = join_len (vs_packet_len old) (vs_packet_len new),
      vs_data_len = join_len (vs_data_len old) (vs_data_len new)\<rparr>"

text \<open>
  The in-place versions: each loop over \<open>iter_mut().zip\<close> updates one component and or-s its change
  flag in; \<open>assign_loop\<close> is that loop for an update \<open>f a b\<close> that reports \<open>(value, changed)\<close>.
\<close>

fun assign_loop :: "('a \<Rightarrow> 'b \<Rightarrow> 'a \<times> bool) \<Rightarrow> 'a list \<Rightarrow> 'b list \<Rightarrow> bool \<Rightarrow> 'a list \<times> bool" where
  "assign_loop f (a # as) (b # bs) changed =
     (let (a', c) = f a b; (as', changed') = assign_loop f as bs (changed \<or> c) in (a' # as', changed'))"
| "assign_loop f as bs changed = (as, changed)"

definition word_assign :: "u64 \<Rightarrow> u64 \<Rightarrow> u64 \<times> bool" where
  "word_assign a b = (let nxt = a AND b in if nxt \<noteq> a then (nxt, True) else (a, False))"

definition reg_widen_assign :: "reg_type \<Rightarrow> reg_type \<Rightarrow> reg_type \<times> bool" where
  "reg_widen_assign a b = (let nxt = reg_widen a b in if a \<noteq> nxt then (nxt, True) else (a, False))"

definition assign_rest :: "verifier_state \<Rightarrow> verifier_state \<Rightarrow> bool \<Rightarrow> verifier_state \<times> bool" where
  "assign_rest self other changed =
     (let (init, changed) = assign_loop word_assign (vs_stack_init self) (vs_stack_init other) changed;
          self = self\<lparr>vs_stack_init := init\<rparr>;
          (self, c) = adopt_maps self (join_maps (vs_maps self) (vs_maps other));
          changed = (changed \<or> c);
          (self, changed) = (if vs_packet_len self \<noteq> vs_packet_len other \<and> vs_packet_len self \<noteq> None
                             then (self\<lparr>vs_packet_len := None\<rparr>, True) else (self, changed));
          (self, changed) = (if vs_data_len self \<noteq> vs_data_len other \<and> vs_data_len self \<noteq> None
                             then (self\<lparr>vs_data_len := None\<rparr>, True) else (self, changed))
      in (self, changed))"

definition join_assign :: "verifier_state \<Rightarrow> verifier_state \<Rightarrow> verifier_state \<times> bool" where
  "join_assign self other =
     (let (regs, changed) = assign_loop reg_join_assign (vs_regs self) (vs_regs other) False
      in assign_rest (self\<lparr>vs_regs := regs\<rparr>) other changed)"

definition widen_assign :: "verifier_state \<Rightarrow> verifier_state \<Rightarrow> verifier_state \<times> bool" where
  "widen_assign self other =
     (let (regs, changed) = assign_loop reg_widen_assign (vs_regs self) (vs_regs other) False
      in assign_rest (self\<lparr>vs_regs := regs\<rparr>) other changed)"


section \<open>In place is the same as join and widen\<close>

definition state_wf :: "nat \<Rightarrow> verifier_state \<Rightarrow> bool" where
  "state_wf n st \<longleftrightarrow> length (vs_regs st) = 11 \<and> length (vs_stack_init st) = 8 \<and> length (vs_maps st) = n"

lemma assign_loop_eq:
  assumes "\<And>a b. f a b = (g a b, g a b \<noteq> a)" "length as = length bs"
  shows "assign_loop f as bs c = (map2 g as bs, c \<or> map2 g as bs \<noteq> as)"
  using assms(2)
proof (induction as bs arbitrary: c rule: list_induct2)
  case Nil
  then show ?case by simp
next
  case (Cons a as b bs)
  then show ?case by (auto simp: assms(1))
qed

lemma assign_parts:
  "reg_join_assign a b = (reg_join a b, reg_join a b \<noteq> a)"
  "reg_widen_assign a b = (reg_widen a b, reg_widen a b \<noteq> a)"
  "word_assign x y = (x AND y, x AND y \<noteq> x)"
  by (auto simp: reg_join_assign_def reg_widen_assign_def word_assign_def Let_def)

lemma map2_upt: "length xs = n \<Longrightarrow> length ys = n \<Longrightarrow> map (\<lambda>i. f (xs ! i) (ys ! i)) [0..<n] = map2 f xs ys"
  by (intro nth_equalityI) simp_all

lemma adopt_maps_eq: "adopt_maps st maps = (st\<lparr>vs_maps := maps\<rparr>, maps \<noteq> vs_maps st)"
  by (auto simp: adopt_maps_def)

lemma assign_rest_eq:
  assumes "length (vs_stack_init self) = 8" "length (vs_stack_init other) = 8"
  shows "assign_rest self other changed =
    (let new = self\<lparr>vs_stack_init := map2 (AND) (vs_stack_init self) (vs_stack_init other),
                    vs_maps := join_maps (vs_maps self) (vs_maps other),
                    vs_packet_len := join_len (vs_packet_len self) (vs_packet_len other),
                    vs_data_len := join_len (vs_data_len self) (vs_data_len other)\<rparr>
     in (new, changed \<or> new \<noteq> self))"
proof -
  have loop: "assign_loop word_assign (vs_stack_init self) (vs_stack_init other) changed =
     (map2 (AND) (vs_stack_init self) (vs_stack_init other),
      changed \<or> map2 (AND) (vs_stack_init self) (vs_stack_init other) \<noteq> vs_stack_init self)"
    by (rule assign_loop_eq) (simp_all add: assign_parts assms)
  show ?thesis
    unfolding assign_rest_def loop adopt_maps_eq Let_def prod.case
    by (cases self) (auto simp: join_len_def)
qed

lemma assign_eq:
  assumes "state_wf n self" "state_wf n' other"
  shows "join_assign self other = (state_join self other, state_join self other \<noteq> self)"
    and "widen_assign self other = (state_widen self other, state_widen self other \<noteq> self)"
proof -
  have len: "length (vs_regs self) = 11" "length (vs_regs other) = 11"
    "length (vs_stack_init self) = 8" "length (vs_stack_init other) = 8"
    using assms by (simp_all add: state_wf_def)
  have loop: "assign_loop reg_join_assign (vs_regs self) (vs_regs other) False =
       (map2 reg_join (vs_regs self) (vs_regs other), map2 reg_join (vs_regs self) (vs_regs other) \<noteq> vs_regs self)"
    "assign_loop reg_widen_assign (vs_regs self) (vs_regs other) False =
       (map2 reg_widen (vs_regs self) (vs_regs other), map2 reg_widen (vs_regs self) (vs_regs other) \<noteq> vs_regs self)"
    by (subst assign_loop_eq, rule assign_parts, simp_all add: len)+
  show "join_assign self other = (state_join self other, state_join self other \<noteq> self)"
    unfolding join_assign_def loop Let_def prod.case state_join_def map2_upt [OF len(1,2)] map2_upt [OF len(3,4)]
    by (subst assign_rest_eq) (use len in \<open>cases self; auto simp: Let_def\<close>)+
  show "widen_assign self other = (state_widen self other, state_widen self other \<noteq> self)"
    unfolding widen_assign_def loop Let_def prod.case state_widen_def map2_upt [OF len(1,2)] map2_upt [OF len(3,4)]
    by (subst assign_rest_eq) (use len in \<open>cases self; auto simp: Let_def\<close>)+
qed


section \<open>Meaning\<close>

text \<open>
  \<open>gamma_reg maps len k\<close> is the set of values a register of kind \<open>k\<close> can hold when the map scratch
  area holds \<open>len\<close> bytes: a proven map pointer also says that the area holds a whole value.
\<close>

definition fd_desc :: "map_desc option list \<Rightarrow> int \<Rightarrow> map_desc option" where
  "fd_desc maps fd = (if 0 \<le> fd then get_desc maps (nat fd) else None)"

definition value_fits :: "map_desc option list \<Rightarrow> nat \<Rightarrow> int \<Rightarrow> bool" where
  "value_fits maps len fd \<longleftrightarrow> (case fd_desc maps fd of None \<Rightarrow> True | Some d \<Rightarrow> md_value_size d \<le> len)"

fun gamma_reg :: "map_desc option list \<Rightarrow> nat \<Rightarrow> reg_type \<Rightarrow> i64 set" where
  "gamma_reg maps len NotInit = UNIV"
| "gamma_reg maps len (Scalar r) = gamma_range r"
| "gamma_reg maps len (StackPtr off) = {STACK_BASE + word_of_int off}"
| "gamma_reg maps len (MapPtr fd) = {v. v = MAP_SCRATCH_BASE \<and> value_fits maps len fd}"
| "gamma_reg maps len (MaybeMapPtr fd) = {v. v = 0 \<or> v = MAP_SCRATCH_BASE \<and> value_fits maps len fd}"
| "gamma_reg maps len XdpMdPtr = {XDP_MD_BASE}"
| "gamma_reg maps len (PacketPtr r) = {v. v - PACKET_BASE \<in> gamma_range r}"
| "gamma_reg maps len (DataPtr r) = {v. v - RODATA_BASE \<in> gamma_range r}"

text \<open>The staged packet and data agree with the configured lengths.\<close>

definition packet_agrees :: "memory \<Rightarrow> nat option \<Rightarrow> bool" where
  "packet_agrees m plen \<longleftrightarrow> (case plen of None \<Rightarrow> True | Some n \<Rightarrow> \<exists>p. m_packet m = Some p \<and> length p = n
     \<and> m_xdp_md m = to_le 4 (word_of_nat 0x20000 :: u32) @ to_le 4 (word_of_nat (0x20000 + n) :: u32))"

definition data_agrees :: "memory \<Rightarrow> nat option \<Rightarrow> bool" where
  "data_agrees m dlen \<longleftrightarrow> (case dlen of None \<Rightarrow> True | Some n \<Rightarrow> \<exists>d. m_rodata m = Some d \<and> length d = n)"

text \<open>Every configured descriptor has its store in the machine, reached through the map helpers.\<close>

definition fd_slot :: "'c vm \<Rightarrow> int \<Rightarrow> map_store option" where
  "fd_slot vm fd = (if 0 \<le> fd \<and> nat fd < length (v_maps vm) then v_maps vm ! nat fd else None)"

definition maps_agree :: "'c vm \<Rightarrow> map_desc option list \<Rightarrow> bool" where
  "maps_agree vm maps \<longleftrightarrow> (\<forall>fd d. fd_desc maps fd = Some d \<longrightarrow>
     v_helpers vm = with_map_helpers \<and> (\<exists>s. fd_slot vm fd = Some s \<and> map_desc_of s = d))"

definition gamma_state :: "verifier_state \<Rightarrow> 'c vm set" where
  "gamma_state st = {vm.
     (\<forall>i < 11. v_regs vm ! i \<in> gamma_reg (vs_maps st) (length (m_scratch (v_memory vm))) (vs_regs st ! i))
   \<and> (\<forall>j < STACK_BYTES. byte_init (vs_stack_init st) j \<longrightarrow> byte_init (st_init (m_stack (v_memory vm))) j)
   \<and> packet_agrees (v_memory vm) (vs_packet_len st) \<and> data_agrees (v_memory vm) (vs_data_len st)
   \<and> maps_agree vm (vs_maps st)}"

definition reg_height :: "reg_type \<Rightarrow> nat" where
  "reg_height k = (case k of
       NotInit \<Rightarrow> 10 | Scalar r \<Rightarrow> 5 + range_height r | PacketPtr r \<Rightarrow> range_height r
     | DataPtr r \<Rightarrow> range_height r | MaybeMapPtr fd \<Rightarrow> 1 | _ \<Rightarrow> 0)"

definition word_height :: "u64 \<Rightarrow> nat" where
  "word_height w = card {i. i < 64 \<and> \<not> bit w i}"

definition option_height :: "'a option \<Rightarrow> nat" where
  "option_height x = (case x of None \<Rightarrow> 1 | Some _ \<Rightarrow> 0)"

definition state_height :: "verifier_state \<Rightarrow> nat" where
  "state_height st = (\<Sum>i<11. reg_height (vs_regs st ! i)) + (\<Sum>i<8. word_height (vs_stack_init st ! i))
     + sum_list (map option_height (vs_maps st))
     + option_height (vs_packet_len st) + option_height (vs_data_len st)"

definition state_bound :: "nat \<Rightarrow> nat" where
  "state_bound n = 624 + n"


subsection \<open>Joins go up\<close>

lemma join_maps_desc: "fd_desc (join_maps a b) fd = Some d \<Longrightarrow> fd_desc a fd = Some d \<and> fd_desc b fd = Some d"
  by (auto simp: fd_desc_def join_maps_def get_desc_def split: if_splits option.splits)

lemma value_fits_join:
  "value_fits a len fd \<or> value_fits b len fd \<Longrightarrow> value_fits (join_maps a b) len fd"
  using join_maps_desc [of a b fd] by (auto simp: value_fits_def split: option.splits)

lemma gamma_reg_maps:
  "v \<in> gamma_reg a len k \<or> v \<in> gamma_reg b len k \<Longrightarrow> v \<in> gamma_reg (join_maps a b) len k"
  using value_fits_join by (cases k) auto

lemma in_reg_join:
  "v \<in> gamma_reg maps len a \<or> v \<in> gamma_reg maps len b \<Longrightarrow> v \<in> gamma_reg maps len (reg_join a b)"
  by (cases a; cases b) (auto intro: in_join)

lemma in_reg_widen:
  "v \<in> gamma_reg maps len a \<or> v \<in> gamma_reg maps len b \<Longrightarrow> v \<in> gamma_reg maps len (reg_widen a b)"
  using in_reg_join [of v maps len a b] by (cases a; cases b) (auto intro: in_widen)

lemma byte_init_and:
  "j < 512 \<Longrightarrow> byte_init (map (\<lambda>i. (xs ! i) AND (ys ! i)) [0..<8]) j \<longleftrightarrow> byte_init xs j \<and> byte_init ys j"
  by (simp add: byte_init_def bit_and_iff less_mult_imp_div_less)

lemma join_len_agrees:
  "packet_agrees m a \<or> packet_agrees m b \<Longrightarrow> packet_agrees m (join_len a b)"
  "data_agrees m a \<or> data_agrees m b \<Longrightarrow> data_agrees m (join_len a b)"
  by (auto simp: join_len_def packet_agrees_def data_agrees_def)

lemma join_maps_agree: "maps_agree vm a \<or> maps_agree vm b \<Longrightarrow> maps_agree vm (join_maps a b)"
  using join_maps_desc [of a b] by (auto simp: maps_agree_def)

lemma gamma_merge:
  assumes "\<And>v len x y. v \<in> gamma_reg (join_maps (vs_maps a) (vs_maps b)) len x
             \<or> v \<in> gamma_reg (join_maps (vs_maps a) (vs_maps b)) len y
       \<Longrightarrow> v \<in> gamma_reg (join_maps (vs_maps a) (vs_maps b)) len (f x y)"
    and "c = \<lparr>vs_regs = map (\<lambda>i. f (vs_regs a ! i) (vs_regs b ! i)) [0..<11],
      vs_stack_init = map (\<lambda>i. (vs_stack_init a ! i) AND (vs_stack_init b ! i)) [0..<8],
      vs_maps = join_maps (vs_maps a) (vs_maps b),
      vs_packet_len = join_len (vs_packet_len a) (vs_packet_len b),
      vs_data_len = join_len (vs_data_len a) (vs_data_len b)\<rparr>"
  shows "gamma_state a \<union> gamma_state b \<subseteq> (gamma_state c :: 'c vm set)"
proof
  fix vm :: "'c vm"
  assume vm: "vm \<in> gamma_state a \<union> gamma_state b"
  have "v_regs vm ! i \<in> gamma_reg (vs_maps c) (length (m_scratch (v_memory vm))) (vs_regs c ! i)" if "i < 11" for i
    using vm that unfolding assms(2)
    by (auto simp: gamma_state_def intro!: assms(1)) (metis gamma_reg_maps)+
  moreover have "byte_init (vs_stack_init c) j \<longrightarrow> byte_init (st_init (m_stack (v_memory vm))) j"
    if "j < STACK_BYTES" for j
    using vm that unfolding assms(2) by (auto simp: gamma_state_def byte_init_and STACK_BYTES_def)
  ultimately show "vm \<in> gamma_state c"
    using vm by (auto simp: gamma_state_def assms(2) intro: join_len_agrees join_maps_agree)
qed

lemma gamma_state_join: "gamma_state a \<union> gamma_state b \<subseteq> gamma_state (state_join a b)"
  by (rule gamma_merge [where f = reg_join, OF in_reg_join]) (simp_all only: state_join_def)

lemma gamma_state_widen: "gamma_state a \<union> gamma_state b \<subseteq> gamma_state (state_widen a b)"
  by (rule gamma_merge [where f = reg_widen, OF in_reg_widen]) (simp_all only: state_widen_def)



subsection \<open>Widenings climb\<close>

lemma range_height_bounds: "range_height r < 9" "r \<noteq> Top \<Longrightarrow> range_height r < 4" "range_height r \<le> 10"
  "range_height r \<le> 5" "range_height r < 5" "range_height r < 10"
  by (cases r; simp)+

lemma reg_widen_climbs: "reg_widen a b \<noteq> a \<Longrightarrow> reg_height a < reg_height (reg_widen a b)"
  by (cases a; cases b)
    (auto simp: reg_height_def widen_progress range_height_bounds split: if_splits)

lemma reg_height_le: "reg_height a \<le> 10"
  by (cases a) (simp_all add: reg_height_def range_height_bounds)

lemma reg_height_widen: "reg_height a \<le> reg_height (reg_widen a b)"
  using reg_widen_climbs [of a b] by (cases "reg_widen a b = a") auto

lemma word_height_le: "word_height w \<le> 64"
  unfolding word_height_def by (rule order_trans [OF card_mono [of "{i. i < 64}"]]) auto

lemma word_height_and: "word_height w \<le> word_height (w AND u)"
  unfolding word_height_def by (rule card_mono) (auto simp: bit_and_iff)

lemma word_height_climbs: "w AND u \<noteq> w \<Longrightarrow> word_height w < word_height (w AND u)"
proof -
  assume "w AND u \<noteq> w"
  then obtain i where "bit w i" "\<not> bit u i" by (auto simp: bit_eq_iff bit_and_iff)
  moreover from this have "i < 64" using bit_imp_le_length [of w i] by simp
  ultimately show ?thesis
    unfolding word_height_def by (intro psubset_card_mono) (auto simp: bit_and_iff)
qed

lemma join_maps_height:
  assumes "length a = length b"
  shows "sum_list (map option_height a) \<le> sum_list (map option_height (join_maps a b))"
    and "join_maps a b \<noteq> a \<Longrightarrow> sum_list (map option_height a) < sum_list (map option_height (join_maps a b))"
proof -
  let ?j = "join_maps a b"
  have len: "length ?j = length a" using assms by (auto simp: join_maps_def)
  have at: "?j ! i = (if a ! i = b ! i then a ! i else None)" if "i < length a" for i
    using that assms by (auto simp: join_maps_def get_desc_def split: option.split)
  have sum: "sum_list (map option_height xs) = (\<Sum>i<length xs. option_height (xs ! i))" for xs :: "map_desc option list"
    by (simp add: sum_list_sum_nth atLeast0LessThan)
  have le: "option_height (a ! i) \<le> option_height (?j ! i)" if "i < length a" for i
    using at [OF that] by (auto simp: option_height_def split: option.split)
  show "sum_list (map option_height a) \<le> sum_list (map option_height ?j)"
    unfolding sum len by (rule sum_mono) (simp add: le)
  assume "?j \<noteq> a"
  then obtain i where i: "i < length a" "?j ! i \<noteq> a ! i" using len nth_equalityI by metis
  then have "option_height (a ! i) < option_height (?j ! i)"
    using at [OF i(1)] by (cases "a ! i") (auto simp: option_height_def split: if_splits)
  then show "sum_list (map option_height a) < sum_list (map option_height ?j)"
    unfolding sum len by (intro sum_strict_mono_ex1) (use i le in auto)
qed

lemma join_len_height:
  "option_height a \<le> option_height (join_len a b)"
  "join_len a b \<noteq> a \<Longrightarrow> option_height a < option_height (join_len a b)"
  by (cases a; auto simp: join_len_def option_height_def split: if_splits)+

lemma state_wf_merge:
  "state_wf n a \<Longrightarrow> state_wf n b \<Longrightarrow> state_wf n (state_join a b)"
  "state_wf n a \<Longrightarrow> state_wf n b \<Longrightarrow> state_wf n (state_widen a b)"
  by (auto simp: state_wf_def state_join_def state_widen_def join_maps_def)

lemma state_widen_climbs:
  assumes "state_wf n a" "state_wf n b" "state_widen a b \<noteq> a"
  shows "state_height a < state_height (state_widen a b)"
proof -
  let ?w = "state_widen a b"
  have len: "length (vs_regs a) = 11" "length (vs_stack_init a) = 8" "length (vs_maps a) = length (vs_maps b)"
    using assms by (simp_all add: state_wf_def)
  have regs: "vs_regs ?w ! i = reg_widen (vs_regs a ! i) (vs_regs b ! i)" if "i < 11" for i
    using that by (simp add: state_widen_def)
  have init: "vs_stack_init ?w ! i = (vs_stack_init a ! i) AND (vs_stack_init b ! i)" if "i < 8" for i
    using that by (simp add: state_widen_def)
  have rest: "vs_maps ?w = join_maps (vs_maps a) (vs_maps b)"
    "vs_packet_len ?w = join_len (vs_packet_len a) (vs_packet_len b)"
    "vs_data_len ?w = join_len (vs_data_len a) (vs_data_len b)"
    by (simp_all add: state_widen_def)
  have r: "(\<Sum>i<11. reg_height (vs_regs a ! i)) \<le> (\<Sum>i<11. reg_height (vs_regs ?w ! i))"
    by (rule sum_mono) (simp add: regs reg_height_widen)
  have s: "(\<Sum>i<8. word_height (vs_stack_init a ! i)) \<le> (\<Sum>i<8. word_height (vs_stack_init ?w ! i))"
    by (rule sum_mono) (simp add: init word_height_and)
  note m = join_maps_height [OF len(3)] and p = join_len_height [of "vs_packet_len a" "vs_packet_len b"]
    and d = join_len_height [of "vs_data_len a" "vs_data_len b"]
  have lenw: "length (vs_regs ?w) = 11" "length (vs_stack_init ?w) = 8" by (simp_all add: state_widen_def)
  consider "\<exists>i < 11. vs_regs ?w ! i \<noteq> vs_regs a ! i" | "\<exists>i < 8. vs_stack_init ?w ! i \<noteq> vs_stack_init a ! i"
    | "vs_maps ?w \<noteq> vs_maps a" | "vs_packet_len ?w \<noteq> vs_packet_len a" | "vs_data_len ?w \<noteq> vs_data_len a"
  proof -
    assume *: "\<exists>i < 11. vs_regs ?w ! i \<noteq> vs_regs a ! i \<Longrightarrow> thesis"
      "\<exists>i < 8. vs_stack_init ?w ! i \<noteq> vs_stack_init a ! i \<Longrightarrow> thesis" "vs_maps ?w \<noteq> vs_maps a \<Longrightarrow> thesis"
      "vs_packet_len ?w \<noteq> vs_packet_len a \<Longrightarrow> thesis" "vs_data_len ?w \<noteq> vs_data_len a \<Longrightarrow> thesis"
    show thesis
    proof (rule ccontr)
      assume "\<not> thesis"
      have "vs_regs ?w = vs_regs a" by (rule nth_equalityI) (use * \<open>\<not> thesis\<close> len lenw in auto)
      moreover have "vs_stack_init ?w = vs_stack_init a"
        by (rule nth_equalityI) (use * \<open>\<not> thesis\<close> len lenw in auto)
      moreover have "vs_maps ?w = vs_maps a" "vs_packet_len ?w = vs_packet_len a" "vs_data_len ?w = vs_data_len a"
        using * \<open>\<not> thesis\<close> by blast+
      ultimately have "?w = a" by (cases a; cases ?w) simp
      with assms(3) show False by simp
    qed
  qed
  then show ?thesis
  proof cases
    case 1
    then obtain i where "i < 11" "reg_height (vs_regs a ! i) < reg_height (vs_regs ?w ! i)"
      using regs reg_widen_climbs by metis
    then have "(\<Sum>i<11. reg_height (vs_regs a ! i)) < (\<Sum>i<11. reg_height (vs_regs ?w ! i))"
      by (intro sum_strict_mono_ex1) (auto simp: regs reg_height_widen)
    then show ?thesis using s m(1) p(1) d(1) by (simp add: state_height_def rest)
  next
    case 2
    then obtain i where "i < 8" "word_height (vs_stack_init a ! i) < word_height (vs_stack_init ?w ! i)"
      using init word_height_climbs by metis
    then have "(\<Sum>i<8. word_height (vs_stack_init a ! i)) < (\<Sum>i<8. word_height (vs_stack_init ?w ! i))"
      by (intro sum_strict_mono_ex1) (auto simp: init word_height_and)
    then show ?thesis using r m(1) p(1) d(1) by (simp add: state_height_def rest)
  qed (use r s m p d in \<open>simp_all add: state_height_def rest\<close>)
qed

lemma state_height_le: "state_wf n a \<Longrightarrow> state_height a \<le> state_bound n"
proof -
  assume "state_wf n a"
  moreover have "(\<Sum>i<11. reg_height (vs_regs a ! i)) \<le> (\<Sum>i<(11::nat). 10)"
    by (rule sum_mono) (rule reg_height_le)
  moreover have "(\<Sum>i<8. word_height (vs_stack_init a ! i)) \<le> (\<Sum>i<(8::nat). 64)"
    by (rule sum_mono) (rule word_height_le)
  moreover have "sum_list (map option_height xs) \<le> length xs" for xs :: "map_desc option list"
    by (induction xs) (auto simp: option_height_def split: option.split)
  then have "sum_list (map option_height (vs_maps a)) \<le> length (vs_maps a)" .
  moreover have "option_height x \<le> 1" for x :: "nat option" by (simp add: option_height_def split: option.split)
  then have "option_height (vs_packet_len a) \<le> 1" "option_height (vs_data_len a) \<le> 1" by blast+
  ultimately show ?thesis by (simp add: state_height_def state_bound_def state_wf_def)
qed

interpretation vstate: abs_domain "state_wf table" "gamma_state :: verifier_state \<Rightarrow> 'c vm set"
  state_join state_widen state_height "state_bound table" for table
  using state_wf_merge gamma_state_join gamma_state_widen state_widen_climbs state_height_le
  by unfold_locales blast+



section \<open>Properties\<close>

text \<open>
  C29: Merging in place computes the join (or the widening) of the two states, and reports a change
  exactly when the stored state changed.
\<close>

theorem assign_exact:
  assumes "state_wf n self" "state_wf n' other"
  shows "join_assign self other = (state_join self other, state_join self other \<noteq> self)
    \<and> widen_assign self other = (state_widen self other, state_widen self other \<noteq> self)"
  using assign_eq [OF assms] by blast

lemma initial_wf: "state_wf (length maps) (initial_with_maps maps)" "state_wf (length maps) (initial_xdp plen maps)"
  by (simp_all add: state_wf_def initial_with_maps_def initial_xdp_def)

theorem assign_exact_witness:
  "snd (join_assign vs_initial (initial_xdp None [])) = (state_join vs_initial (initial_xdp None []) \<noteq> vs_initial)"
  using assign_exact [OF initial_wf(1) initial_wf(2), of "[]" None "[]"] by (simp add: vs_initial_def)

text \<open>
  C8: The merged state describes every machine either state described; and at a program point whose
  state is only widened, whatever arrives changes it at most \<open>state_bound n\<close> times, so the analysis
  of a loop ends.
\<close>

theorem state_merge_sound_and_stable:
  fixes x :: "nat \<Rightarrow> verifier_state"
  assumes "state_wf n (x 0)" "\<And>i. state_wf n (y i)" "\<And>i. x (Suc i) = fst (widen_assign (x i) (y i))"
  shows "gamma_state (x i) \<union> gamma_state (y i) \<subseteq> gamma_state (fst (join_assign (x i) (y i)))
    \<and> gamma_state (x i) \<union> gamma_state (y i) \<subseteq> (gamma_state (x (Suc i)) :: 'c vm set)
    \<and> card {j. j < i \<and> x (Suc j) \<noteq> x j} \<le> state_bound n"
proof -
  have wf: "state_wf n (x i)" for i
    by (induction i) (simp_all add: assms(1,3) assign_eq(2) [OF _ assms(2)] state_wf_merge(2) assms(2))
  have step: "x (Suc i) = state_widen (x i) (y i)" for i
    unfolding assms(3) assign_eq(2) [OF wf assms(2)] by simp
  have "card {j. j < i \<and> x (Suc j) \<noteq> x j} \<le> vstate.slack n (x 0)"
    using vstate.widen_chain_changes [where x = x and y = y and n = i, OF assms(1,2) step] by linarith
  then show ?thesis
    using vstate.slack_le [where table = n and a = "x 0"] gamma_state_join gamma_state_widen
    unfolding assign_eq(1) [OF wf assms(2)] step fst_conv by (intro conjI) simp_all
qed

theorem state_merge_sound_and_stable_witness:
  "gamma_state vs_initial \<subseteq> (gamma_state (state_widen vs_initial vs_initial) :: unit vm set)"
proof -
  define x where "x = (\<lambda>i. ((\<lambda>s. state_widen s vs_initial) ^^ i) vs_initial)"
  have wf: "state_wf 0 vs_initial" using initial_wf(1) [of "[]"] by (simp add: vs_initial_def)
  have wfx: "state_wf 0 (x i)" for i
    by (induction i) (simp_all add: x_def wf state_wf_merge(2))
  have "x (Suc i) = fst (widen_assign (x i) vs_initial)" for i
    unfolding assign_eq(2) [OF wfx wf] by (simp add: x_def)
  from state_merge_sound_and_stable [where x = x and y = "\<lambda>_. vs_initial" and i = 0, OF wfx wf this]
  have "gamma_state (x 0) \<subseteq> (gamma_state (x (Suc 0)) :: unit vm set)" by blast
  then show ?thesis by (simp add: x_def)
qed

end
