(* ===== verification/VTransfer.thy ===== *)
theory VTransfer
  imports VState Cfg
begin

text \<open>
  The transfer functions of \<open>crates/ebpf-verifier/src/verify.rs\<close>: its errors and configuration, the
  helper signatures, the bounds and alignment checks, the ALU transfer with its pointer fast path,
  \<open>check_and_transfer\<close> and the refinement of branch edges.  A function that mutates the state in
  place returns it; one that returns early is an early branch.
\<close>

datatype verify_error =
    UninitRegister nat u8
  | TypeMismatch nat u8 string string
  | VStackOverflow nat
  | UninitStackRead nat int
  | VUnknownHelper nat u32
  | BadMapFd nat int
  | UnboundedLoop nat
  | LoopBudgetExceeded nat nat nat
  | NullMapPtrAccess nat u8 int
  | MapValueOutOfBounds nat int int nat nat
  | PacketOutOfBounds nat int nat nat
  | NoPacketContext nat
  | DataOutOfBounds nat int nat nat
  | NoDataContext nat
  | MisalignedAccess nat int nat
  | VInvalidEndWidth nat int
  | VIllegalInstruction nat

record verify_config =
  vc_widening_threshold :: nat
  vc_maps :: "map_desc list"
  vc_packet_len :: "nat option"
  vc_data_len :: "nat option"
  vc_max_loop_steps :: "nat option"

definition config_default :: verify_config where
  "config_default = \<lparr>vc_widening_threshold = 16, vc_maps = [], vc_packet_len = None, vc_data_len = None,
     vc_max_loop_steps = None\<rparr>"

definition config_with_maps :: "map_desc list \<Rightarrow> verify_config" where
  "config_with_maps maps = \<lparr>vc_widening_threshold = 16, vc_maps = maps, vc_packet_len = None, vc_data_len = None,
     vc_max_loop_steps = None\<rparr>"

definition config_with_packet_len :: "nat \<Rightarrow> verify_config" where
  "config_with_packet_len n = \<lparr>vc_widening_threshold = 16, vc_maps = [], vc_packet_len = Some n,
     vc_data_len = None, vc_max_loop_steps = None\<rparr>"

definition config_with_data_len :: "nat \<Rightarrow> verify_config" where
  "config_with_data_len n = \<lparr>vc_widening_threshold = 16, vc_maps = [], vc_packet_len = None,
     vc_data_len = Some n, vc_max_loop_steps = None\<rparr>"

definition config_with_loop_steps :: "nat \<Rightarrow> verify_config" where
  "config_with_loop_steps n = \<lparr>vc_widening_threshold = 16, vc_maps = [], vc_packet_len = None,
     vc_data_len = None, vc_max_loop_steps = Some n\<rparr>"


text \<open>\<open>cyclic\<close> is petgraph's \<open>is_cyclic_directed\<close>.\<close>

definition has_back_edge :: "(graph \<Rightarrow> bool) \<Rightarrow> cfg \<Rightarrow> bool" where
  "has_back_edge cyclic cfg = cyclic (c_graph cfg)"


section \<open>Registers\<close>

definition vs_reg :: "verifier_state \<Rightarrow> reg \<Rightarrow> reg_type" where
  "vs_reg st r = vs_regs st ! reg_index r"

definition set_reg :: "reg \<Rightarrow> reg_type \<Rightarrow> verifier_state \<Rightarrow> verifier_state" where
  "set_reg r k st = st\<lparr>vs_regs := (vs_regs st)[reg_index r := k]\<rparr>"

text \<open>\<open>r10\<close> is read-only: a write keeps the frame pointer.\<close>

definition write_reg :: "reg \<Rightarrow> reg_type \<Rightarrow> verifier_state \<Rightarrow> verifier_state" where
  "write_reg r k st = (if is_frame_ptr r then st else set_reg r k st)"

fun scalar_range :: "reg_type \<Rightarrow> range" where
  "scalar_range (Scalar r) = r"
| "scalar_range NotInit = Bottom"
| "scalar_range k = Top"

fun stack_offset :: "reg_type \<Rightarrow> int option" where
  "stack_offset (StackPtr off) = Some off"
| "stack_offset k = None"

definition ensure_init :: "verifier_state \<Rightarrow> reg \<Rightarrow> nat \<Rightarrow> verify_error + unit" where
  "ensure_init st r pc =
     (if vs_reg st r = NotInit then Inl (UninitRegister pc (reg_num r)) else Inr ())"

definition ensure_stack_ptr :: "verifier_state \<Rightarrow> reg \<Rightarrow> nat \<Rightarrow> verify_error + unit" where
  "ensure_stack_ptr st r pc =
     (let mismatch = (\<lambda>found. Inl (TypeMismatch pc (reg_num r) ''stack pointer'' found)) in
      case vs_reg st r of
        StackPtr off \<Rightarrow> Inr ()
      | NotInit \<Rightarrow> Inl (UninitRegister pc (reg_num r))
      | Scalar rg \<Rightarrow> mismatch ''scalar''
      | MapPtr fd \<Rightarrow> mismatch ''map pointer''
      | MaybeMapPtr fd \<Rightarrow> mismatch ''nullable map pointer''
      | XdpMdPtr \<Rightarrow> mismatch ''xdp context pointer''
      | PacketPtr rg \<Rightarrow> mismatch ''packet pointer''
      | DataPtr rg \<Rightarrow> mismatch ''data pointer'')"


section \<open>Bounds and alignment\<close>

definition checked_i32 :: "int \<Rightarrow> int option" where
  "checked_i32 x = (if - (2 ^ 31) \<le> x \<and> x < 2 ^ 31 then Some x else None)"

definition i32_or_max :: "int \<Rightarrow> int" where
  "i32_or_max x = unwrap_or (checked_i32 x) (2 ^ 31 - 1)"

definition byte_range :: "int \<Rightarrow> int \<Rightarrow> nat \<Rightarrow> nat \<Rightarrow> verify_error + (int \<times> nat \<times> nat)" where
  "byte_range base_off offset width pc =
     bind_res (ok_or (checked_i32 (base_off + offset)) (VStackOverflow pc)) (\<lambda>start.
     bind_res (ok_or (checked_i32 (start + int width)) (VStackOverflow pc)) (\<lambda>end_off.
       let bytes = int STACK_BYTES in
       if start < - bytes \<or> end_off > 0 then Inl (VStackOverflow pc)
       else if start + bytes < 0 \<or> end_off - 1 + bytes < 0 then Inl (VStackOverflow pc)
       else Inr (start, nat (start + bytes), nat (end_off - 1 + bytes))))"

definition misaligned :: "int \<Rightarrow> nat \<Rightarrow> bool" where
  "misaligned addr width \<longleftrightarrow> 1 < width \<and> addr mod int width \<noteq> 0"

definition check_mem_access ::
    "verifier_state \<Rightarrow> reg \<Rightarrow> i16 \<Rightarrow> mem_size \<Rightarrow> nat \<Rightarrow> verify_error + (int \<times> nat \<times> nat)" where
  "check_mem_access st base offset sz pc =
     bind_res (ensure_stack_ptr st base pc) (\<lambda>_.
       let base_off = unwrap_or (stack_offset (vs_reg st base)) 0 in
       bind_res (byte_range base_off (sint offset) (mem_bytes sz) pc) (\<lambda>(start, lo, hi).
         if misaligned (base_off + sint offset) (mem_bytes sz)
         then Inl (MisalignedAccess pc start (mem_bytes sz)) else Inr (start, lo, hi)))"

definition check_map_align :: "i16 \<Rightarrow> mem_size \<Rightarrow> nat \<Rightarrow> verify_error + unit" where
  "check_map_align offset sz pc =
     (if misaligned (sint offset) (mem_bytes sz)
      then Inl (MisalignedAccess pc (sint offset) (mem_bytes sz)) else Inr ())"

definition check_map_value_bounds ::
    "verifier_state \<Rightarrow> int \<Rightarrow> i16 \<Rightarrow> mem_size \<Rightarrow> nat \<Rightarrow> verify_error + unit" where
  "check_map_value_bounds st fd offset sz pc =
     bind_res (ok_or (fd_desc (vs_maps st) fd) (BadMapFd pc fd)) (\<lambda>desc.
       let width = mem_bytes sz;
           out_of_bounds = MapValueOutOfBounds pc fd (sint offset) width (md_value_size desc)
       in if sint offset < 0 then Inl out_of_bounds
          else if nat (sint offset) + width > md_value_size desc then Inl out_of_bounds
          else check_map_align offset sz pc)"

definition check_ctx_load :: "verifier_state \<Rightarrow> i16 \<Rightarrow> mem_size \<Rightarrow> nat \<Rightarrow> verify_error + reg_type" where
  "check_ctx_load st offset sz pc =
     (case vs_packet_len st of
        None \<Rightarrow> Inl (NoPacketContext pc)
      | Some len \<Rightarrow>
          let width = mem_bytes sz;
              out_of_bounds = PacketOutOfBounds pc (sint offset) width len
          in if sint offset < 0 then Inl out_of_bounds
             else if nat (sint offset) + width > XDP_MD_LEN then Inl out_of_bounds
             else if misaligned (sint offset) width then Inl (MisalignedAccess pc (sint offset) width)
             else if offset = 0 \<and> sz = SzW then Inr (PacketPtr (exact 0))
             else if offset = 4 \<and> sz = SzW
             then Inr (Scalar (exact (saturate_i64 (sint PACKET_BASE + i64_or_max len))))
             else Inr (Scalar Top))"

text \<open>
  The bounds of a packet or staged-data load, which only differ in the error constructor: the
  checks of \<open>check_packet_bounds\<close> and \<open>check_data_bounds\<close> after the configured length is known.
\<close>

definition check_span ::
    "range \<Rightarrow> int \<Rightarrow> nat \<Rightarrow> nat \<Rightarrow> nat \<Rightarrow> verify_error \<Rightarrow> verify_error + unit" where
  "check_span base_off imm width len pc out_of_bounds =
     (if base_off = Bottom then Inr ()
      else
        let (lo, hi) = (case base_off of Interval lo hi \<Rightarrow> (lo, hi) | _ \<Rightarrow> (i64_min, i64_max)) in
        bind_res (ok_or (checked_i64 (lo + imm)) out_of_bounds) (\<lambda>start_lo.
        bind_res (ok_or (checked_i64 (hi + imm)) out_of_bounds) (\<lambda>start_hi.
        bind_res (ok_or (checked_i64 (start_hi + int width)) out_of_bounds) (\<lambda>end_hi.
        bind_res (ok_or (checked_i64 (int len)) out_of_bounds) (\<lambda>len_i64.
          if start_lo < 0 \<or> end_hi > len_i64 then Inl out_of_bounds
          else if 1 < width \<and> (start_lo \<noteq> start_hi \<or> start_lo mod int width \<noteq> 0)
          then Inl (MisalignedAccess pc (i32_or_max start_lo) width)
          else Inr ())))))"

definition check_packet_bounds ::
    "verifier_state \<Rightarrow> range \<Rightarrow> i16 \<Rightarrow> mem_size \<Rightarrow> nat \<Rightarrow> verify_error + unit" where
  "check_packet_bounds st base_off offset sz pc =
     (case vs_packet_len st of
        None \<Rightarrow> Inl (NoPacketContext pc)
      | Some len \<Rightarrow> check_span base_off (sint offset) (mem_bytes sz) len pc
          (PacketOutOfBounds pc (sint offset) (mem_bytes sz) len))"

definition check_data_bounds ::
    "verifier_state \<Rightarrow> range \<Rightarrow> i16 \<Rightarrow> mem_size \<Rightarrow> nat \<Rightarrow> verify_error + unit" where
  "check_data_bounds st base_off offset sz pc =
     (case vs_data_len st of
        None \<Rightarrow> Inl (NoDataContext pc)
      | Some len \<Rightarrow> check_span base_off (sint offset) (mem_bytes sz) len pc
          (DataOutOfBounds pc (sint offset) (mem_bytes sz) len))"

definition packet_store_error :: "verifier_state \<Rightarrow> i16 \<Rightarrow> mem_size \<Rightarrow> nat \<Rightarrow> verify_error" where
  "packet_store_error st offset sz pc =
     (case vs_packet_len st of None \<Rightarrow> NoPacketContext pc
      | Some len \<Rightarrow> PacketOutOfBounds pc (sint offset) (mem_bytes sz) len)"

definition data_store_error :: "verifier_state \<Rightarrow> i16 \<Rightarrow> mem_size \<Rightarrow> nat \<Rightarrow> verify_error" where
  "data_store_error st offset sz pc =
     (case vs_data_len st of None \<Rightarrow> NoDataContext pc
      | Some len \<Rightarrow> DataOutOfBounds pc (sint offset) (mem_bytes sz) len)"

definition store_readonly_error :: "verifier_state \<Rightarrow> reg \<Rightarrow> i16 \<Rightarrow> mem_size \<Rightarrow> nat \<Rightarrow> verify_error" where
  "store_readonly_error st base offset sz pc =
     (case vs_reg st base of
        DataPtr rg \<Rightarrow> data_store_error st offset sz pc
      | _ \<Rightarrow> packet_store_error st offset sz pc)"


section \<open>Helpers\<close>

definition map_fd :: "verifier_state \<Rightarrow> nat \<Rightarrow> verify_error + int option" where
  "map_fd st pc =
     (case vs_reg st (Reg 1) of
        Scalar (Interval lo hi) \<Rightarrow> if lo = hi then Inr (Some lo) else Inr None
      | Scalar r \<Rightarrow> Inr None
      | NotInit \<Rightarrow> Inl (UninitRegister pc 1)
      | k \<Rightarrow> Inl (TypeMismatch pc 1 ''scalar file descriptor'' ''pointer''))"

definition map_value_fd :: "verifier_state \<Rightarrow> reg \<Rightarrow> nat \<Rightarrow> verify_error + int option" where
  "map_value_fd st base pc =
     (case vs_reg st base of
        MapPtr fd \<Rightarrow> Inr (Some fd)
      | MaybeMapPtr fd \<Rightarrow> Inl (NullMapPtrAccess pc (reg_num base) fd)
      | k \<Rightarrow> Inr None)"

definition check_map_ptr :: "verifier_state \<Rightarrow> reg \<Rightarrow> nat \<Rightarrow> nat \<Rightarrow> verify_error + unit" where
  "check_map_ptr st r sz pc =
     bind_res (ensure_stack_ptr st r pc) (\<lambda>_.
       let base_off = unwrap_or (stack_offset (vs_reg st r)) 0 in
       if sz > 255 then Inl (VStackOverflow pc)
       else bind_res (byte_range base_off 0 sz pc) (\<lambda>(start, lo, hi).
         if \<not> stack_range_init st lo hi then Inl (UninitStackRead pc start) else Inr ()))"

datatype helper_sig = PrandomU32 | KtimeNs | TracePrintk | MapLookup | MapUpdate | MapDelete

fun helper_effect :: "helper_sig \<Rightarrow> verifier_state \<Rightarrow> nat \<Rightarrow> verify_error + reg_type" where
  "helper_effect PrandomU32 st pc = Inr (Scalar (Interval 0 (2 ^ 31 - 1)))"
| "helper_effect KtimeNs st pc = Inr (Scalar (Interval 0 i64_max))"
| "helper_effect TracePrintk st pc = Inr (Scalar Top)"
| "helper_effect MapLookup st pc =
     bind_res (map_fd st pc) (\<lambda>fd. case fd of
         None \<Rightarrow> Inr (Scalar Top)
       | Some fd \<Rightarrow> (case fd_desc (vs_maps st) fd of
             None \<Rightarrow> Inl (BadMapFd pc fd)
           | Some desc \<Rightarrow>
               bind_res (check_map_ptr st (Reg 2) (md_key_size desc) pc) (\<lambda>_.
               Inr (MaybeMapPtr fd))))"
| "helper_effect MapUpdate st pc =
     bind_res (map_fd st pc) (\<lambda>fd. case fd of
         None \<Rightarrow> Inr (Scalar Top)
       | Some fd \<Rightarrow> (case fd_desc (vs_maps st) fd of
             None \<Rightarrow> Inl (BadMapFd pc fd)
           | Some desc \<Rightarrow>
               bind_res (check_map_ptr st (Reg 2) (md_key_size desc) pc) (\<lambda>_.
               bind_res (check_map_ptr st (Reg 3) (md_value_size desc) pc) (\<lambda>_.
               Inr (Scalar (exact 0))))))"
| "helper_effect MapDelete st pc =
     bind_res (map_fd st pc) (\<lambda>fd. case fd of
         None \<Rightarrow> Inr (Scalar Top)
       | Some fd \<Rightarrow> (case fd_desc (vs_maps st) fd of
             None \<Rightarrow> Inl (BadMapFd pc fd)
           | Some desc \<Rightarrow>
               bind_res (check_map_ptr st (Reg 2) (md_key_size desc) pc) (\<lambda>_.
               Inr (Scalar (exact 0)))))"

text \<open>No built-in signature overrides the default \<open>may_write_memory\<close>.\<close>

definition may_write_memory :: "helper_sig \<Rightarrow> bool" where
  "may_write_memory h = False"

definition signature_get :: "u32 \<Rightarrow> helper_sig option" where
  "signature_get func =
     (if func = 1 then Some MapLookup else if func = 2 then Some MapUpdate else if func = 3 then Some MapDelete
      else if func = 43 then Some PrandomU32 else if func = 5 then Some KtimeNs
      else if func = 6 then Some TracePrintk else None)"

definition build_map_table :: "verify_config \<Rightarrow> map_desc option list" where
  "build_map_table config =
     (let max_fd = (if vc_maps config = [] then 0 else Max (md_fd ` set (vc_maps config)));
          capped = min (max max_fd 0) MAX_MAP_FD;
          table_len = nat capped + 1
      in fold (\<lambda>desc table.
           if 0 \<le> md_fd desc \<and> nat (md_fd desc) < table_len \<and> table ! nat (md_fd desc) = None
           then table[nat (md_fd desc) := Some desc] else table) (vc_maps config) (replicate table_len None))"


section \<open>ALU\<close>

text \<open>The constant an \<open>add\<close> or \<open>sub\<close> shifts a pointer by: an immediate or an exact scalar.\<close>

definition exact_delta :: "verifier_state \<Rightarrow> operand \<Rightarrow> int option" where
  "exact_delta st src =
     (case src of
        ImmOp v \<Rightarrow> Some (sint v)
      | RegOp r \<Rightarrow> (case vs_reg st r of
            Scalar (Interval lo hi) \<Rightarrow> if lo = hi then Some lo else None
          | _ \<Rightarrow> None))"

definition stack_delta :: "verifier_state \<Rightarrow> operand \<Rightarrow> int option" where
  "stack_delta st src = (case exact_delta st src of None \<Rightarrow> None | Some k \<Rightarrow> checked_i32 k)"

definition shift_stack :: "alu_op \<Rightarrow> int \<Rightarrow> int \<Rightarrow> reg_type" where
  "shift_stack op offset k =
     (case (if op = Sub then checked_i32 (- k) else Some k) of
        None \<Rightarrow> Scalar Top
      | Some k \<Rightarrow> (case checked_i32 (offset + k) of None \<Rightarrow> Scalar Top | Some off \<Rightarrow> StackPtr off))"

definition shift_range :: "alu_op \<Rightarrow> range \<Rightarrow> int \<Rightarrow> range" where
  "shift_range op offset k = (if op = Add then range_add offset (exact k) else range_sub offset (exact k))"

text \<open>\<open>ptr_alu_transfer\<close>: the new state when the fast path handles the instruction.\<close>

definition ptr_alu_transfer :: "verifier_state \<Rightarrow> alu_op \<Rightarrow> reg \<Rightarrow> operand \<Rightarrow> verifier_state option" where
  "ptr_alu_transfer st op dst src =
     (if op = Mov then
        (case src of
           RegOp r \<Rightarrow>
             if is_frame_ptr dst then None
             else (case vs_reg st r of
                 StackPtr off \<Rightarrow> Some (set_reg dst (StackPtr off) st)
               | PacketPtr off \<Rightarrow> Some (set_reg dst (PacketPtr off) st)
               | DataPtr off \<Rightarrow> Some (set_reg dst (DataPtr off) st)
               | XdpMdPtr \<Rightarrow> Some (set_reg dst XdpMdPtr st)
               | _ \<Rightarrow> None)
         | ImmOp k \<Rightarrow> None)
      else if op = Add \<or> op = Sub then
        (case vs_reg st dst of
           StackPtr off \<Rightarrow> (case stack_delta st src of
               Some k \<Rightarrow> Some (write_reg dst (shift_stack op off k) st) | None \<Rightarrow> None)
         | PacketPtr off \<Rightarrow> (case exact_delta st src of
               Some k \<Rightarrow> Some (write_reg dst (PacketPtr (shift_range op off k)) st) | None \<Rightarrow> None)
         | DataPtr off \<Rightarrow> (case exact_delta st src of
               Some k \<Rightarrow> Some (write_reg dst (DataPtr (shift_range op off k)) st) | None \<Rightarrow> None)
         | _ \<Rightarrow> None)
      else None)"

definition operand_range :: "verifier_state \<Rightarrow> operand \<Rightarrow> range" where
  "operand_range st src =
     (case src of RegOp r \<Rightarrow> scalar_range (vs_reg st r) | ImmOp v \<Rightarrow> exact (sint v))"

fun alu_range :: "alu_op \<Rightarrow> range \<Rightarrow> range \<Rightarrow> range" where
  "alu_range Add lhs rhs = range_add lhs rhs"
| "alu_range Or lhs rhs = range_or lhs rhs"
| "alu_range And lhs rhs = range_and lhs rhs"
| "alu_range Xor lhs rhs = range_xor lhs rhs"
| "alu_range Mov lhs rhs = rhs"
| "alu_range Lsh lhs rhs = range_shl lhs rhs"
| "alu_range Rsh lhs rhs = range_shr lhs rhs"
| "alu_range Arsh lhs rhs = range_sar lhs rhs"
| "alu_range op lhs rhs = Top"

definition alu_transfer ::
    "nat \<Rightarrow> verifier_state \<Rightarrow> width \<Rightarrow> alu_op \<Rightarrow> reg \<Rightarrow> operand \<Rightarrow> verify_error + verifier_state" where
  "alu_transfer pc st w op dst src =
     bind_res (if is_end op then
         (case src of
            ImmOp k \<Rightarrow> if k = 16 \<or> k = 32 \<or> k = 64 then Inr () else Inl (VInvalidEndWidth pc (sint k))
          | RegOp r \<Rightarrow> Inl (VIllegalInstruction pc))
       else Inr ()) (\<lambda>_.
     bind_res (case src of RegOp r \<Rightarrow> ensure_init st r pc | ImmOp k \<Rightarrow> Inr ()) (\<lambda>_.
       case (if w = B64 then ptr_alu_transfer st op dst src else None) of
         Some st' \<Rightarrow> Inr st'
       | None \<Rightarrow>
           let result = alu_range op (scalar_range (vs_reg st dst)) (operand_range st src);
               result = (if w = B32 then trunc32 result else result)
           in Inr (write_reg dst (Scalar result) st)))"


section \<open>One instruction\<close>

definition load_imm_type :: "verifier_state \<Rightarrow> int \<Rightarrow> reg_type" where
  "load_imm_type st imm =
     (case vs_data_len st of
        None \<Rightarrow> Scalar (exact imm)
      | Some len \<Rightarrow>
          (case (checked_i64 (imm - sint RODATA_BASE), checked_i64 (int len)) of
             (Some off, Some len_i64) \<Rightarrow>
               if off \<ge> 0 \<and> off < len_i64 then DataPtr (exact off) else Scalar (exact imm)
           | _ \<Rightarrow> Scalar (exact imm)))"

fun check_and_transfer :: "nat \<Rightarrow> insn \<Rightarrow> verifier_state \<Rightarrow> verify_error + verifier_state" where
  "check_and_transfer pc (Alu w op dst src) st = alu_transfer pc st w op dst src"
| "check_and_transfer pc (LoadImm64 dst imm) st = Inr (write_reg dst (load_imm_type st (sint imm)) st)"
| "check_and_transfer pc (Load sz dst base offset) st =
     bind_res (map_value_fd st base pc) (\<lambda>fd. case fd of
         Some fd \<Rightarrow>
           bind_res (check_map_value_bounds st fd offset sz pc) (\<lambda>_. Inr (write_reg dst (Scalar Top) st))
       | None \<Rightarrow>
           (case vs_reg st base of
              XdpMdPtr \<Rightarrow>
                bind_res (check_ctx_load st offset sz pc) (\<lambda>value. Inr (write_reg dst value st))
            | PacketPtr base_off \<Rightarrow>
                bind_res (check_packet_bounds st base_off offset sz pc) (\<lambda>_. Inr (write_reg dst (Scalar Top) st))
            | DataPtr base_off \<Rightarrow>
                bind_res (check_data_bounds st base_off offset sz pc) (\<lambda>_. Inr (write_reg dst (Scalar Top) st))
            | _ \<Rightarrow>
                bind_res (check_mem_access st base offset sz pc) (\<lambda>(start, lo, hi).
                  if \<not> stack_range_init st lo hi then Inl (UninitStackRead pc start)
                  else Inr (write_reg dst (Scalar Top) st))))"
| "check_and_transfer pc (Store sz base offset src) st =
     bind_res (case src of RegOp r \<Rightarrow> ensure_init st r pc | ImmOp k \<Rightarrow> Inr ()) (\<lambda>_.
     bind_res (map_value_fd st base pc) (\<lambda>fd. case fd of
         Some fd \<Rightarrow> bind_res (check_map_value_bounds st fd offset sz pc) (\<lambda>_. Inr st)
       | None \<Rightarrow>
           (case vs_reg st base of
              XdpMdPtr \<Rightarrow> Inl (store_readonly_error st base offset sz pc)
            | PacketPtr base_off \<Rightarrow> Inl (store_readonly_error st base offset sz pc)
            | DataPtr base_off \<Rightarrow> Inl (store_readonly_error st base offset sz pc)
            | _ \<Rightarrow>
                bind_res (check_mem_access st base offset sz pc) (\<lambda>(start, lo, hi).
                  Inr (mark_stack_range lo hi st)))))"
| "check_and_transfer pc (Jump w op dst src offset) st =
     (if op = Always then Inr st
      else bind_res (ensure_init st dst pc) (\<lambda>_.
           bind_res (case src of RegOp r \<Rightarrow> ensure_init st r pc | ImmOp k \<Rightarrow> Inr ()) (\<lambda>_. Inr st)))"
| "check_and_transfer pc (Call func) st =
     (case signature_get func of
        None \<Rightarrow> Inl (VUnknownHelper pc func)
      | Some helper \<Rightarrow>
          bind_res (helper_effect helper st pc) (\<lambda>value.
            let st = set_reg (Reg 0) value st
            in Inr (if may_write_memory helper then clear_stack_init st else st)))"
| "check_and_transfer pc Exit st = bind_res (ensure_init st (Reg 0) pc) (\<lambda>_. Inr st)"
| "check_and_transfer pc (Unknown raw) st = Inl (VIllegalInstruction pc)"


section \<open>Branch edges\<close>

fun jump_info :: "insn \<Rightarrow> (jump_op \<times> reg \<times> int) option" where
  "jump_info (Jump w op dst (ImmOp k) offset) = Some (op, dst, sint k)"
| "jump_info insn = None"

fun jump_info_reg :: "insn \<Rightarrow> (jump_op \<times> reg \<times> reg) option" where
  "jump_info_reg (Jump w op dst (RegOp r) offset) = Some (op, dst, r)"
| "jump_info_reg insn = None"

definition refine_reg :: "reg_type \<Rightarrow> jump_op \<Rightarrow> int \<Rightarrow> bool \<Rightarrow> reg_type" where
  "refine_reg incoming op k taken =
     (case incoming of
        MaybeMapPtr fd \<Rightarrow>
          (let (op, taken) = (if op = Ne then (JEq, \<not> taken) else (op, taken)) in
           if op = JEq \<and> k = 0 then (if taken then Scalar (exact 0) else MapPtr fd) else incoming)
      | MapPtr fd \<Rightarrow> incoming
      | _ \<Rightarrow> Scalar (refine (scalar_range incoming) op k taken))"

fun swap_op :: "jump_op \<Rightarrow> jump_op option" where
  "swap_op JEq = Some JEq"
| "swap_op Ne = Some Ne"
| "swap_op Gt = Some Lt"
| "swap_op Ge = Some Le"
| "swap_op Lt = Some Gt"
| "swap_op Le = Some Ge"
| "swap_op Sgt = Some Slt"
| "swap_op Sge = Some Sle"
| "swap_op Slt = Some Sgt"
| "swap_op Sle = Some Sge"
| "swap_op op = None"

text \<open>The scalar's exact value, rebased to a packet offset.\<close>

definition rebased :: "range \<Rightarrow> int option" where
  "rebased r = (case r of
       Interval lo hi \<Rightarrow> if lo = hi then checked_i64 (lo - sint PACKET_BASE) else None | _ \<Rightarrow> None)"

definition refine_packet_edge ::
    "verifier_state \<Rightarrow> jump_op \<Rightarrow> reg \<Rightarrow> reg \<Rightarrow> bool \<Rightarrow> verifier_state" where
  "refine_packet_edge out op dst src taken =
     (case (vs_reg out dst, vs_reg out src) of
        (PacketPtr offset, Scalar r) \<Rightarrow>
          (case rebased r of None \<Rightarrow> out
           | Some k \<Rightarrow> set_reg dst (PacketPtr (refine offset op k taken)) out)
      | (Scalar r, PacketPtr offset) \<Rightarrow>
          (case (rebased r, swap_op op) of
             (Some k, Some swapped) \<Rightarrow> set_reg src (PacketPtr (refine offset swapped k taken)) out
           | _ \<Rightarrow> out)
      | _ \<Rightarrow> out)"

definition refine_edge :: "verifier_state \<Rightarrow> edge_kind \<Rightarrow> (jump_op \<times> reg \<times> int) option
    \<Rightarrow> (jump_op \<times> reg \<times> reg) option \<Rightarrow> verifier_state" where
  "refine_edge out kind last_jump last_jump_reg =
     (if kind = Fallthrough \<or> kind = Unconditional then out
      else let taken = (kind = BranchTrue) in
        case last_jump of
          Some (op, dst, k) \<Rightarrow> set_reg dst (refine_reg (vs_reg out dst) op k taken) out
        | None \<Rightarrow>
            (case last_jump_reg of
               Some (op, dst, src) \<Rightarrow> refine_packet_edge out op dst src taken
             | None \<Rightarrow> out))"

end
