(* ===== verification/VSound.thy ===== *)
theory VSound
  imports VTransfer
begin

text \<open>
  Soundness of one verifier step against one step of the interpreter: a machine described by the
  abstract state before an accepted instruction executes it without a fault, and the abstract state
  after it, refined along the edge taken, describes the machine after it.  The side condition
  \<open>sound_at\<close> excludes, by a computable test on the abstract state, the places where the transfer
  functions are not sound (the bitwise range operations, truncation of wide ranges, unsigned
  comparisons of possibly negative values, ALU operations on an uninitialised destination, and
  helper calls other than a lookup with an exact descriptor).
\<close>


section \<open>Accesses at known offsets\<close>

lemma mod_take_bit: "sint (addr :: i64) mod 2 ^ k = 0 \<Longrightarrow> take_bit k addr = 0"
proof -
  assume *: "sint addr mod 2 ^ k = 0"
  have "take_bit k (of_int (sint addr) :: i64) = of_int (take_bit k (sint addr))"
    by (rule take_bit_of_int)
  with * show ?thesis by (simp add: take_bit_eq_mod)
qed

lemma aligned_mod: "sint addr mod int (mem_bytes sz) = 0 \<Longrightarrow> aligned m addr sz"
proof -
  assume *: "sint addr mod int (mem_bytes sz) = 0"
  obtain k where k: "mem_bytes sz = 2 ^ k" "k \<le> 3" "(word_of_nat (mem_bytes sz) - 1 :: i64) = mask k"
  proof (cases sz)
    case SzB with that [of 0] show ?thesis by (simp add: mem_bytes_def)
  next
    case SzH with that [of 1] show ?thesis by (simp add: mem_bytes_def mask_eq_exp_minus_1)
  next
    case SzW with that [of 2] show ?thesis by (simp add: mem_bytes_def mask_eq_exp_minus_1)
  next
    case SzDw with that [of 3] show ?thesis by (simp add: mem_bytes_def mask_eq_exp_minus_1)
  qed
  have "take_bit k addr = 0" using mod_take_bit [of addr k] * k(1,2) by simp
  then show ?thesis by (simp add: aligned_def k(3) take_bit_eq_mask)
qed

lemma load_at:
  assumes "mem_wf m" "classify addr = r" "sint addr = sint (region_base r) + int off"
    and "off + mem_bytes sz \<le> length (region_view m r)"
    and "\<forall>k < mem_bytes sz. region_view m r ! (off + k) \<noteq> None"
    and "sint addr mod int (mem_bytes sz) = 0"
  shows "mem_load m addr sz = Inr (from_le (map the (byte_slice off (mem_bytes sz) (region_view m r))))"
  unfolding mem_load_view [OF assms(1)]
  using assms aligned_mod by (intro conjI exI [of _ off]) auto

lemma store_at:
  assumes "mem_wf m" "classify addr = r" "r = RStack \<or> r = RMapScratch"
    and "sint addr = sint (region_base r) + int off" "off + mem_bytes sz \<le> length (region_view m r)"
    and "sint addr mod int (mem_bytes sz) = 0"
  obtains m' where "mem_store m addr sz v = Inr m'"
  using that assms(2-5) aligned_mod [OF assms(6)] unfolding mem_store_iff [OF assms(1)] by blast

text \<open>An address at a small offset from a region's base is in the region.\<close>

lemma classify_at:
  assumes "addr = region_base r + word_of_int off" "0 \<le> off" "r \<noteq> RUnknown"
    and "off < (case r of RStack \<Rightarrow> 512 | RRodata \<Rightarrow> 2 ^ 62 | RXdpMd \<Rightarrow> 8 | _ \<Rightarrow> 0x10000)"
  shows "sint addr = sint (region_base r) + off \<and> classify addr = r"
proof -
  have base: "0 < sint (region_base r)" "sint (region_base r) \<le> 0x50000"
    using assms(3) by (cases r; simp add: region_base_def)+
  have "off < 2 ^ 62" using assms(4) by (cases r) simp_all
  then have "sint (word_of_int off :: i64) = off"
    using assms(2) by (simp add: signed_of_int signed_take_bit_int_eq_self)
  then have s: "sint addr = sint (region_base r) + off"
    unfolding assms(1) using base assms(2) \<open>off < 2 ^ 62\<close>
    by (subst sint_add_i64) (simp_all add: i64_bounds)
  then show ?thesis
    using assms by (cases r) (auto simp: classify_def region_base_def s)
qed



section \<open>Described machines\<close>

definition describes :: "nat \<Rightarrow> verifier_state \<Rightarrow> 'c vm \<Rightarrow> bool" where
  "describes n st vm \<longleftrightarrow> vm_inv vm \<and> state_wf n st \<and> vm \<in> gamma_state st"

abbreviation reg_values :: "verifier_state \<Rightarrow> 'c vm \<Rightarrow> reg_type \<Rightarrow> i64 set" where
  "reg_values st vm k \<equiv> gamma_reg (vs_maps st) (length (m_scratch (v_memory vm))) k"

lemma describes_parts:
  assumes "describes n st vm"
  shows "vm_inv vm" "mem_wf (v_memory vm)" "length (v_regs vm) = 11" "length (vs_regs st) = 11"
    "length (vs_stack_init st) = 8" "packet_agrees (v_memory vm) (vs_packet_len st)"
    "data_agrees (v_memory vm) (vs_data_len st)" "maps_agree vm (vs_maps st)"
    "j < 512 \<Longrightarrow> byte_init (vs_stack_init st) j \<Longrightarrow> byte_init (st_init (m_stack (v_memory vm))) j"
  using assms by (auto simp: describes_def vm_inv_def state_wf_def gamma_state_def NUM_REGS_def STACK_BYTES_def)

lemma reg_described:
  "describes n st vm \<Longrightarrow> wf_reg r \<Longrightarrow> reg_get (v_regs vm) r \<in> reg_values st vm (vs_reg st r)"
  using wf_reg_index [of r] by (simp add: describes_def gamma_state_def reg_get_def vs_reg_def)

lemma maps_agree_cong:
  "v_maps vm' = v_maps vm \<Longrightarrow> v_helpers vm' = v_helpers vm \<Longrightarrow> maps_agree vm' maps = maps_agree vm maps"
  by (simp add: maps_agree_def fd_slot_def)

lemma set_reg_simps [simp]:
  "vs_stack_init (set_reg r k st) = vs_stack_init st" "vs_maps (set_reg r k st) = vs_maps st"
  "vs_packet_len (set_reg r k st) = vs_packet_len st" "vs_data_len (set_reg r k st) = vs_data_len st"
  by (simp_all add: set_reg_def)

lemma state_wf_set_reg [simp]: "state_wf n (set_reg r k st) \<longleftrightarrow> state_wf n st"
  by (simp add: state_wf_def set_reg_def)

lemma state_wf_write_reg [simp]: "state_wf n (write_reg r k st) \<longleftrightarrow> state_wf n st"
  by (simp add: write_reg_def)

text \<open>Narrowing what is known of one register.\<close>

lemma describes_set_reg:
  assumes "describes n st vm" "wf_reg r" "reg_get (v_regs vm) r \<in> reg_values st vm k"
  shows "describes n (set_reg r k st) vm"
  using assms wf_reg_index [OF assms(2)]
  by (auto simp: describes_def gamma_state_def set_reg_def state_wf_def nth_list_update reg_get_def)

text \<open>Writing a register of the machine and of the state.\<close>

lemma describes_write_dst:
  assumes d: "describes n st vm" and dst: "wf_reg dst" and pc: "v_pc vm < length (v_exec vm)"
    and v: "v \<in> reg_values st vm k"
  shows "describes n (write_reg dst k st) (write_dst dst v vm)"
proof -
  note parts = describes_parts [OF d]
  have inv: "vm_inv (write_dst dst v vm)" using parts(1) dst pc by (rule write_dst_inv)
  show ?thesis
  proof (cases "is_frame_ptr dst")
    case True
    with d inv show ?thesis
      by (simp add: describes_def write_reg_def write_dst_def gamma_state_def
          maps_agree_cong [of "vm\<lparr>v_pc := Suc (v_pc vm)\<rparr>" vm])
  next
    case False
    have "v_regs (write_dst dst v vm) ! i \<in> gamma_reg (vs_maps st) (length (m_scratch (v_memory vm)))
        (vs_regs (set_reg dst k st) ! i)" if "i < 11" for i
      using d v that parts(3,4) False wf_reg_index [OF dst]
      by (auto simp: describes_def gamma_state_def write_dst_def reg_put_def set_reg_def nth_list_update)
    with d inv False show ?thesis
      by (simp add: describes_def write_reg_def gamma_state_def maps_agree_cong [of "write_dst dst v vm" vm])
  qed
qed

lemma describes_next:
  assumes "describes n st vm" "v_pc vm < length (v_exec vm)" "pc' \<le> length (v_exec vm)"
  shows "describes n st (vm\<lparr>v_pc := pc'\<rparr>)"
  using assms by (simp add: describes_def gamma_state_def maps_agree_cong [of "vm\<lparr>v_pc := pc'\<rparr>" vm] vm_inv_def)


section \<open>Arithmetic\<close>

fun operand_value :: "'c vm \<Rightarrow> operand \<Rightarrow> i64" where
  "operand_value vm (RegOp r) = reg_get (v_regs vm) r"
| "operand_value vm (ImmOp k) = scast k"

lemma sint_scast32 [simp]: "sint (scast (k :: i32) :: i64) = sint k"
  by (simp add: signed_scast_eq signed_take_bit_int_eq_self_iff) (use sint_lt [of k] sint_ge [of k] in simp)

lemma sint_scast16 [simp]: "sint (scast (k :: i16) :: i64) = sint k"
  by (simp add: signed_scast_eq signed_take_bit_int_eq_self_iff) (use sint_lt [of k] sint_ge [of k] in simp)

lemma scalar_described:
  "describes n st vm \<Longrightarrow> wf_reg r \<Longrightarrow> vs_reg st r \<noteq> NotInit \<Longrightarrow>
     reg_get (v_regs vm) r \<in> gamma_range (scalar_range (vs_reg st r))"
  using reg_described [of n st vm r] by (cases "vs_reg st r") auto

lemma ensure_init_ok [simp]: "ensure_init st r pc = Inr u \<longleftrightarrow> vs_reg st r \<noteq> NotInit"
  by (simp add: ensure_init_def)

lemma operand_described:
  assumes "describes n st vm" "wf_operand src" "\<And>r. src = RegOp r \<Longrightarrow> vs_reg st r \<noteq> NotInit"
  shows "operand_value vm src \<in> gamma_range (operand_range st src)"
  using assms scalar_described [OF assms(1)] by (cases src) (auto simp: operand_range_def)

lemma exact_delta_value:
  assumes "describes n st vm" "wf_operand src" "exact_delta st src = Some k"
  shows "sint (operand_value vm src) = k"
proof (cases src)
  case (RegOp r)
  with assms have "vs_reg st r = Scalar (Interval k k)"
    by (auto simp: exact_delta_def split: reg_type.splits range.splits if_splits)
  with reg_described [OF assms(1), of r] assms(2) RegOp show ?thesis by simp
qed (use assms(3) in \<open>simp add: exact_delta_def\<close>)


text \<open>The pointer fast path is sound as it is.\<close>

lemma word_of_int_sint64 [simp]: "word_of_int (sint (v :: i64)) = v"
  by simp

lemma shift_stack_sound:
  assumes "v = STACK_BASE + word_of_int off" "sint w = k" "op = Add \<or> op = Sub"
  shows "(if op = Add then v + w else v - w) \<in> gamma_reg maps len (shift_stack op off k)"
proof -
  have w: "w = word_of_int k" using assms(2) by auto
  show ?thesis
    using assms(3) unfolding assms(1) w
    by (auto simp: shift_stack_def checked_i32_def)
qed

lemma shift_range_sound:
  assumes "v - base \<in> gamma_range off" "sint w = k" "op = Add \<or> op = Sub"
  shows "(if op = Add then v + w else v - w) - base \<in> gamma_range (shift_range op off k)"
proof -
  have w: "w \<in> gamma_range (exact k)" using assms(2) by simp
  have "(v - base) + w \<in> gamma_range (range_add off (exact k))" "(v - base) - w \<in> gamma_range (range_sub off (exact k))"
    using range_add_sound [OF assms(1) w] range_sub_sound [OF assms(1) w] by simp_all
  then show ?thesis using assms(3) by (auto simp: shift_range_def algebra_simps)
qed

lemma set_reg_write: "\<not> is_frame_ptr dst \<Longrightarrow> set_reg dst k st = write_reg dst k st"
  by (simp add: write_reg_def)

lemma ptr_alu_sound:
  assumes d: "describes n st vm" and wf: "wf_reg dst" "wf_operand src"
    and fast: "ptr_alu_transfer st op dst src = Some st'"
  shows "\<exists>k v. st' = write_reg dst k st \<and> v \<in> reg_values st vm k
    \<and> alu64 op (reg_get (v_regs vm) dst) (operand_value vm src) = Some v"
proof -
  let ?l = "reg_get (v_regs vm) dst" and ?r = "operand_value vm src"
  note dst = reg_described [OF d wf(1)]
  consider (mov) r where "op = Mov" "src = RegOp r" "\<not> is_frame_ptr dst" "st' = set_reg dst (vs_reg st r) st"
    | (shift) "op = Add \<or> op = Sub"
    using fast by (auto simp: ptr_alu_transfer_def split: if_splits operand.splits reg_type.splits)
  then show ?thesis
  proof cases
    case mov
    with reg_described [OF d, of r] wf(2) show ?thesis
      by (intro exI [of _ "vs_reg st r"] exI [of _ "?r"]) (simp add: set_reg_write)
  next
    case shift
    have alu: "alu64 op ?l ?r = Some (if op = Add then ?l + ?r else ?l - ?r)" using shift by auto
    consider (stack) off k where "vs_reg st dst = StackPtr off" "exact_delta st src = Some k"
        "st' = write_reg dst (shift_stack op off k) st"
      | (packet) off k where "vs_reg st dst = PacketPtr off" "exact_delta st src = Some k"
        "st' = write_reg dst (PacketPtr (shift_range op off k)) st"
      | (data) off k where "vs_reg st dst = DataPtr off" "exact_delta st src = Some k"
        "st' = write_reg dst (DataPtr (shift_range op off k)) st"
      using fast shift
      by (auto simp: ptr_alu_transfer_def stack_delta_def checked_i32_def
          split: if_splits reg_type.splits option.splits)
    then show ?thesis
    proof cases
      case stack
      with dst shift_stack_sound [OF _ exact_delta_value [OF d wf(2) stack(2)] shift] alu show ?thesis
        by (intro exI [of _ "shift_stack op off k"] exI [of _ "if op = Add then ?l + ?r else ?l - ?r"]) simp
    next
      case packet
      with dst shift_range_sound [OF _ exact_delta_value [OF d wf(2) packet(2)] shift] alu show ?thesis
        by (intro exI [of _ "PacketPtr (shift_range op off k)"] exI [of _ "if op = Add then ?l + ?r else ?l - ?r"])
          simp
    next
      case data
      with dst shift_range_sound [OF _ exact_delta_value [OF d wf(2) data(2)] shift] alu show ?thesis
        by (intro exI [of _ "DataPtr (shift_range op off k)"] exI [of _ "if op = Add then ?l + ?r else ?l - ?r"])
          simp
    qed
  qed
qed


text \<open>
  Operands on which the bitwise transfers are right: unknown or exact ones, shifts left that lose
  no bit, shifts right of non-negative values.
\<close>

definition range_op_sound :: "alu_op \<Rightarrow> range \<Rightarrow> range \<Rightarrow> bool" where
  "range_op_sound op l r \<longleftrightarrow> (op \<in> {Or, And, Lsh, Rsh} \<longrightarrow> l = Top \<or> r = Top \<or> is_exact l \<and> is_exact r
     \<or> op = Lsh \<and> shl_fits l r \<or> op = Rsh \<and> shr_fits l)"

definition uses_dst :: "alu_op \<Rightarrow> bool" where
  "uses_dst op \<longleftrightarrow> op \<in> {Add, Or, And, Xor, Lsh, Rsh, Arsh}"

lemma and_or_sound:
  assumes "l \<in> gamma_range lr" "r \<in> gamma_range rr" "lr = Top \<or> rr = Top \<or> is_exact lr \<and> is_exact rr"
  shows "l AND r \<in> gamma_range (range_and lr rr)" "l OR r \<in> gamma_range (range_or lr rr)"
  using assms
  by (cases lr; cases rr; auto simp: as_word_sint [of l] as_word_sint [of r] Let_def)+

lemma alu_range_sound:
  assumes "uses_dst op \<longrightarrow> l \<in> gamma_range lr" "r \<in> gamma_range rr" "range_op_sound op lr rr"
    and "alu64 op l r = Some v"
  shows "v \<in> gamma_range (alu_range op lr rr)"
proof -
  have l: "op \<in> {Or, And, Lsh, Rsh, Add, Xor, Arsh} \<Longrightarrow> l \<in> gamma_range lr"
    using assms(1) by (auto simp: uses_dst_def)
  show ?thesis
    using l assms(2-4) range_add_sound [of l lr r rr] range_xor_sound [of l lr r rr] range_sar_sound [of l lr r rr]
      and_or_sound [of l lr r rr] shl_sound [of l lr r rr] shr_sound [of l lr r rr]
    by (cases op) (auto simp: range_op_sound_def)
qed

lemma alu_range_interval:
  assumes "alu_range op lr rr = Interval lo hi"
  shows "op \<in> {Add, Mov, And, Or, Lsh, Rsh}"
  using assms by (cases op; cases lr; cases rr; auto)

lemma ucast_add: "(ucast (l + r :: i64) :: u32) = ucast l + ucast r"
proof -
  have "take_bit 32 (uint (l + r)) = take_bit 32 (uint l + uint r)"
    by (simp add: uint_word_ariths(1) take_bit_eq_mod mod_mod_cancel)
  then show ?thesis
    by (simp add: word_uint_eq_iff uint_word_ariths(1) unsigned_ucast_eq take_bit_eq_mod mod_add_eq)
qed

lemma low_word_id:
  assumes "0 \<le> sint (v :: i64)" "sint v < 2 ^ 32"
  shows "ucast (ucast v :: u32) = v"
proof -
  have "uint v < 2 ^ 32" using assms uint_nonneg by simp
  then have "uint (ucast (ucast v :: u32) :: i64) = uint v"
    by (simp add: unsigned_ucast_eq unsigned_take_bit_eq take_bit_int_eq_self)
  then show ?thesis by (simp add: word_uint_eq_iff)
qed

lemma trunc32_id:
  assumes "0 \<le> lo" "hi < 2 ^ 32" "lo \<le> hi"
  shows "trunc32 (Interval lo hi) = Interval lo hi"
proof -
  have "sint (as_word x AND 0xFFFFFFFF) = x" if "0 \<le> x" "x < 2 ^ 32" for x
  proof -
    have "(0xFFFFFFFF :: i64) = mask 32" by (simp add: mask_eq_exp_minus_1)
    then have "as_word x AND 0xFFFFFFFF = take_bit 32 (word_of_int x)" by (simp add: as_word_def take_bit_eq_mask)
    also have "\<dots> = word_of_int x" using that by (simp add: take_bit_of_int take_bit_int_eq_self)
    finally show ?thesis using that by (simp add: signed_of_int signed_take_bit_int_eq_self)
  qed
  then show ?thesis using assms by (simp add: Let_def)
qed

text \<open>A result whose low word is the low word of the 64-bit operation.\<close>

definition low_exact :: "alu_op \<Rightarrow> range \<Rightarrow> bool" where
  "low_exact op result \<longleftrightarrow>
     (case result of Interval lo hi \<Rightarrow> 0 \<le> lo \<and> hi < 2 ^ 32 \<and> op \<noteq> Lsh \<and> op \<noteq> Rsh | _ \<Rightarrow> True)"

lemma ucast_bitwise: "(ucast (l AND r :: i64) :: u32) = ucast l AND ucast r"
  "(ucast (l OR r :: i64) :: u32) = ucast l OR ucast r"
  by (simp_all add: bit_eq_iff bit_simps)

definition alu_sound_at :: "verifier_state \<Rightarrow> width \<Rightarrow> alu_op \<Rightarrow> reg \<Rightarrow> operand \<Rightarrow> bool" where
  "alu_sound_at st w op dst src \<longleftrightarrow>
     w = B64 \<and> ptr_alu_transfer st op dst src \<noteq> None \<or>
     (let l = scalar_range (vs_reg st dst); r = operand_range st src in
      (uses_dst op \<longrightarrow> vs_reg st dst \<noteq> NotInit) \<and> range_op_sound op l r
      \<and> (w = B32 \<longrightarrow> low_exact op (alu_range op l r)))"

lemma alu_low_sound:
  assumes v: "uses_dst op \<longrightarrow> l \<in> gamma_range lr" "r \<in> gamma_range rr" "range_op_sound op lr rr"
    and small: "low_exact op (alu_range op lr rr)"
    and alu: "alu32 op l r = Some v" "\<not> is_end op"
  shows "v \<in> gamma_range (trunc32 (alu_range op lr rr))"
proof -
  obtain u where u: "alu64 op l r = Some u" using alu(2) by (cases op) (auto simp: is_end_def)
  note U = alu_range_sound [OF v u]
  show ?thesis
  proof (cases "alu_range op lr rr")
    case (Interval lo hi)
    with U small have b: "0 \<le> sint u" "sint u < 2 ^ 32" "lo \<le> sint u" "sint u \<le> hi" by (auto simp: low_exact_def)
    have "v = ucast (ucast u :: u32)"
      using alu_range_interval [OF Interval] alu(1) u small Interval
      by (auto simp: alu32_def ucast_add ucast_bitwise low_exact_def)
    then have "v = u" using low_word_id b by simp
    moreover have "trunc32 (Interval lo hi) = Interval lo hi" using small b Interval by (intro trunc32_id) (auto simp: low_exact_def)
    ultimately show ?thesis using U Interval by simp
  qed (use U in simp_all)
qed


lemma alu_step_sound:
  assumes d: "describes n st vm" and wf: "wf_reg dst" "wf_operand src" and pc: "v_pc vm < length (v_exec vm)"
    and ok: "alu_transfer i st w op dst src = Inr st'" and sound: "alu_sound_at st w op dst src"
  shows "\<exists>v. alu_apply op (reg_get (v_regs vm) dst) (operand_value vm src) w = Some v
    \<and> describes n st' (write_dst dst v vm)"
proof -
  let ?l = "reg_get (v_regs vm) dst" and ?r = "operand_value vm src"
  have src: "\<And>r. src = RegOp r \<Longrightarrow> vs_reg st r \<noteq> NotInit"
    and End: "is_end op \<Longrightarrow> \<exists>k. src = ImmOp k \<and> k \<in> {16, 32, 64}"
    using ok by (auto simp: alu_transfer_def split: operand.splits if_splits)
  obtain v where v: "alu_apply op ?l ?r w = Some v"
  proof (cases "alu_apply op ?l ?r w")
    case None
    then have "is_end op" "\<not> valid_end_width ?r" by (auto simp: alu_apply_None is_end_def)
    with End show ?thesis by (auto simp: valid_end_width_def)
  qed
  show ?thesis
  proof (cases "w = B64 \<and> ptr_alu_transfer st op dst src \<noteq> None")
    case True
    then have "ptr_alu_transfer st op dst src = Some st'"
      using ok by (auto simp: alu_transfer_def split: operand.splits if_splits)
    from ptr_alu_sound [OF d wf this] obtain k u where "st' = write_reg dst k st" "u \<in> reg_values st vm k"
      "alu64 op ?l ?r = Some u" by blast
    with describes_write_dst [OF d wf(1) pc] True show ?thesis by (auto simp: alu_apply_def)
  next
    case False
    let ?lr = "scalar_range (vs_reg st dst)" and ?rr = "operand_range st src"
    have st': "st' = write_reg dst (Scalar (if w = B32 then trunc32 (alu_range op ?lr ?rr) else alu_range op ?lr ?rr)) st"
      using ok False by (auto simp: alu_transfer_def Let_def split: operand.splits if_splits option.splits)
    have l: "uses_dst op \<longrightarrow> ?l \<in> gamma_range ?lr"
      using sound False scalar_described [OF d wf(1)] by (auto simp: alu_sound_at_def Let_def)
    have r: "?r \<in> gamma_range ?rr" using operand_described [OF d wf(2) src] by blast
    have side: "range_op_sound op ?lr ?rr"
      "w = B32 \<Longrightarrow> low_exact op (alu_range op ?lr ?rr)"
      using sound False by (auto simp: alu_sound_at_def Let_def)
    have "v \<in> gamma_range (if w = B32 then trunc32 (alu_range op ?lr ?rr) else alu_range op ?lr ?rr)"
    proof (cases "w = B32")
      case True
      show ?thesis
      proof (cases "is_end op")
        case True
        then show ?thesis by (cases op) (simp_all add: is_end_def)
      next
        case False
        with alu_low_sound [OF l r side(1) side(2)] v True show ?thesis by (simp add: alu_apply_def)
      qed
    next
      case False
      then have "w = B64" by (cases w) auto
      with alu_range_sound [OF l r side(1)] v show ?thesis by (simp add: alu_apply_def)
    qed
    with describes_write_dst [OF d wf(1) pc, of v "Scalar (if w = B32 then trunc32 (alu_range op ?lr ?rr) else alu_range op ?lr ?rr)"] v st'
    show ?thesis by auto
  qed
qed


section \<open>Loads and stores\<close>

lemma byte_range_ok:
  assumes "byte_range base off w pc = Inr (start, lo, hi)" "0 < w"
  shows "start = base + off \<and> - 512 \<le> start \<and> start + int w \<le> 0 \<and> lo = nat (start + 512)
    \<and> hi = lo + w - 1"
  using assms by (auto simp: byte_range_def Let_def checked_i32_def STACK_BYTES_def ok_or_def split: if_splits)

lemma ensure_stack_ok: "ensure_stack_ptr st r pc = Inr u \<longleftrightarrow> (\<exists>off. vs_reg st r = StackPtr off)"
  by (auto simp: ensure_stack_ptr_def Let_def split: reg_type.splits)

lemma scast_word: "(scast (off :: i16) :: i64) = word_of_int (sint off)"
  using word_of_int_sint64 [of "scast off"] by (simp del: word_of_int_sint64 of_int_sint)

lemma stack_address:
  assumes d: "describes n st vm" and wf: "wf_reg base" and st: "vs_reg st base = StackPtr b"
    and o: "- 512 \<le> b + sint off" "b + sint off < 0"
  shows "sint (reg_get (v_regs vm) base + scast off) = sint (region_base RStack) + (b + sint off + 512)
    \<and> classify (reg_get (v_regs vm) base + scast off) = RStack"
proof -
  have a: "reg_get (v_regs vm) base + scast off = region_base RStack + word_of_int (b + sint off + 512)"
    using reg_described [OF d wf] st by (simp add: region_base_def layout_defs scast_word [symmetric])
  have "0 \<le> b + sint off + 512"
    "b + sint off + 512 < (case RStack of RStack \<Rightarrow> 512 | RRodata \<Rightarrow> 2 ^ 62 | RXdpMd \<Rightarrow> 8 | _ \<Rightarrow> 0x10000)"
    using o by simp_all
  from classify_at [OF a this(1) _ this(2)] show ?thesis by blast
qed

lemma check_mem_access_ok:
  assumes "check_mem_access st base off sz pc = Inr (start, lo, hi)"
  obtains b where "vs_reg st base = StackPtr b" "start = b + sint off" "- 512 \<le> start"
    "start + int (mem_bytes sz) \<le> 0" "lo = nat (start + 512)" "hi = lo + mem_bytes sz - 1"
    "start mod int (mem_bytes sz) = 0"
proof -
  obtain b where b: "vs_reg st base = StackPtr b"
    using assms by (auto simp: check_mem_access_def ensure_stack_ok)
  with assms have r: "byte_range b (sint off) (mem_bytes sz) pc = Inr (start, lo, hi)"
    "\<not> misaligned (b + sint off) (mem_bytes sz)"
    by (auto simp: check_mem_access_def unwrap_or_def Let_def split: if_splits)
  moreover have "1 \<le> mem_bytes sz" using mem_bytes_bounds(1) [of sz] by simp
  ultimately show ?thesis
    using that [OF b] byte_range_ok [OF r(1)]
    by (cases "mem_bytes sz = 1") (auto simp: misaligned_def)
qed

lemma and_pow_63: "byte AND 63 = byte mod (64 :: nat)"
  using take_bit_eq_mask [of 6 byte] by (simp add: take_bit_eq_mod mask_eq_exp_minus_1)

lemma init_bit:
  "(xs ! drop_bit 6 byte) AND push_bit (byte AND 63) 1 \<noteq> (0 :: u64) \<longleftrightarrow> byte_init xs byte"
  by (auto simp: byte_init_def and_pow_63 drop_bit_eq_div and_exp_eq_0_iff_not_bit push_bit_of_1)

lemma stack_range_init_iff: "stack_range_init st lo hi \<longleftrightarrow> (\<forall>j. lo \<le> j \<and> j \<le> hi \<longrightarrow> byte_init (vs_stack_init st) j)"
  unfolding stack_range_init_def init_bit by (auto simp: list_all_iff less_Suc_eq_le simp del: upt_Suc)


lemma stack_view_init:
  "i < 512 \<Longrightarrow> region_view m RStack ! i \<noteq> None \<longleftrightarrow> byte_init (st_init (m_stack m)) i"
  by (simp add: region_view_def STACK_SIZE_def)

lemma stack_base_mod: "(sint (region_base RStack) + (start + 512)) mod int (mem_bytes sz) = start mod int (mem_bytes sz)"
  by (cases sz) (simp_all add: region_base_def mem_bytes_def, presburger+)

lemma stack_load_sound:
  assumes d: "describes n st vm" and wf: "wf_reg base"
    and ok: "check_mem_access st base off sz pc = Inr (start, lo, hi)" "stack_range_init st lo hi"
  shows "\<exists>v. mem_load (v_memory vm) (reg_get (v_regs vm) base + scast off) sz = Inr v"
proof -
  from ok(1) obtain b where b: "vs_reg st base = StackPtr b" "start = b + sint off" "- 512 \<le> start"
    "start + int (mem_bytes sz) \<le> 0" "lo = nat (start + 512)" "hi = lo + mem_bytes sz - 1"
    "start mod int (mem_bytes sz) = 0"
    by (rule check_mem_access_ok)
  have w: "0 < mem_bytes sz" using mem_bytes_bounds(1) .
  have "- 512 \<le> b + sint off" "b + sint off < 0" using b w by linarith+
  note addr = stack_address [OF d wf b(1) this] and parts = describes_parts [OF d]
  have "lo + k < 512 \<and> lo + k \<le> hi" if "k < mem_bytes sz" for k using b that by auto
  then have read: "\<forall>k < mem_bytes sz. region_view (v_memory vm) RStack ! (lo + k) \<noteq> None"
    using parts(9) ok(2) by (intro allI impI iffD2 [OF stack_view_init]) (simp_all add: stack_range_init_iff)
  have at: "sint (reg_get (v_regs vm) base + scast off) = sint (region_base RStack) + int lo"
    using addr b(2,3,5) by simp
  have fit: "lo + mem_bytes sz \<le> length (region_view (v_memory vm) RStack)"
    using b(3-5) view_length(3) [OF parts(2)] by simp
  have al: "sint (reg_get (v_regs vm) base + scast off) mod int (mem_bytes sz) = 0"
    using stack_base_mod [of start sz] b(3,5,7) at by simp
  show ?thesis
    using load_at [OF parts(2) addr [THEN conjunct2] at fit read al] by blast
qed

lemma mark_stack_byte_init:
  "length (vs_stack_init st) = 8 \<Longrightarrow> byte < 512 \<Longrightarrow> j < 512 \<Longrightarrow>
     byte_init (vs_stack_init (mark_stack_byte byte st)) j \<longleftrightarrow> byte_init (vs_stack_init st) j \<or> j = byte"
proof -
  assume *: "length (vs_stack_init st) = 8" "byte < 512" "j < 512"
  have "byte div 64 < 8" "j div 64 < 8" using * by auto
  moreover have "j = byte \<longleftrightarrow> j div 64 = byte div 64 \<and> j mod 64 = byte mod 64" by (metis div_mod_decomp)
  ultimately show ?thesis
    using * by (auto simp: mark_stack_byte_def byte_init_def and_pow_63 drop_bit_eq_div nth_list_update
        bit_or_iff bit_exp_iff)
qed

lemma mark_stack_byte_simps [simp]:
  "vs_regs (mark_stack_byte byte st) = vs_regs st" "vs_maps (mark_stack_byte byte st) = vs_maps st"
  "vs_packet_len (mark_stack_byte byte st) = vs_packet_len st"
  "vs_data_len (mark_stack_byte byte st) = vs_data_len st"
  "length (vs_stack_init (mark_stack_byte byte st)) = length (vs_stack_init st)"
  by (simp_all add: mark_stack_byte_def)

lemma mark_stack_fold:
  assumes "length (vs_stack_init st) = 8" "\<forall>byte \<in> set bytes. byte < 512"
  shows "vs_regs (fold mark_stack_byte bytes st) = vs_regs st \<and> vs_maps (fold mark_stack_byte bytes st) = vs_maps st
    \<and> vs_packet_len (fold mark_stack_byte bytes st) = vs_packet_len st
    \<and> vs_data_len (fold mark_stack_byte bytes st) = vs_data_len st
    \<and> length (vs_stack_init (fold mark_stack_byte bytes st)) = 8
    \<and> (\<forall>j < 512. byte_init (vs_stack_init (fold mark_stack_byte bytes st)) j
         \<longleftrightarrow> byte_init (vs_stack_init st) j \<or> j \<in> set bytes)"
  using assms
proof (induction bytes arbitrary: st)
  case Nil
  then show ?case by simp
next
  case (Cons byte bytes)
  then show ?case using Cons.IH [of "mark_stack_byte byte st"] by (auto simp: mark_stack_byte_init)
qed


text \<open>A store that changes neither the shape of the memory nor any register.\<close>

lemma describes_store:
  assumes d: "describes n st vm" and pc: "v_pc vm < length (v_exec vm)"
    and m: "mem_store (v_memory vm) addr sz v = Inr m"
    and init: "\<And>j. j < 512 \<Longrightarrow> byte_init (vs_stack_init st') j \<Longrightarrow>
        byte_init (vs_stack_init st) j \<or> classify addr = RStack
          \<and> sint (region_base RStack) + int j \<in> {sint addr..< sint addr + int (mem_bytes sz)}"
    and same: "vs_regs st' = vs_regs st" "vs_maps st' = vs_maps st" "vs_packet_len st' = vs_packet_len st"
      "vs_data_len st' = vs_data_len st" "length (vs_stack_init st') = 8"
  shows "describes n st' (vm\<lparr>v_memory := m, v_pc := v_pc vm + 1\<rparr>)"
proof -
  note parts = describes_parts [OF d]
  obtain off where off: "sint addr = sint (region_base (classify addr)) + int off"
    using m unfolding mem_store_iff [OF parts(2)] by blast
  note V = mem_store_view [OF parts(2) m off]
  have inv: "vm_inv (vm\<lparr>v_memory := m, v_pc := v_pc vm + 1\<rparr>)"
    using store_inv [OF parts(1) pc m] by simp
  have scratch: "length (m_scratch m) = length (m_scratch (v_memory vm))"
    using V(1) [of RMapScratch] by (simp add: region_view_def)
  have "byte_init (st_init (m_stack m)) j" if j: "j < 512" "byte_init (vs_stack_init st') j" for j
  proof -
    have len: "j < length (region_view (v_memory vm) RStack)" using j(1) by (simp add: view_length(3) [OF parts(2)])
    have "region_view m RStack ! j \<noteq> None"
    proof (cases "classify addr = RStack \<and> off \<le> j \<and> j < off + mem_bytes sz")
      case True
      with V(2) [OF len] show ?thesis by simp
    next
      case False
      with init [OF j] off have "byte_init (vs_stack_init st) j" by auto
      then have "region_view (v_memory vm) RStack ! j \<noteq> None"
        using parts(9) [OF j(1)] stack_view_init [OF j(1)] by blast
      with V(2) [OF len] False show ?thesis by auto
    qed
    then show ?thesis using stack_view_init [OF j(1)] by blast
  qed
  moreover have "packet_agrees m plen = packet_agrees (v_memory vm) plen" "data_agrees m dlen = data_agrees (v_memory vm) dlen"
    for plen dlen
    using V(6) by (cases plen; cases dlen; simp add: packet_agrees_def data_agrees_def)+
  ultimately show ?thesis
    using d inv same
    by (auto simp: describes_def gamma_state_def scratch state_wf_def STACK_BYTES_def
        maps_agree_cong [of "vm\<lparr>v_memory := m, v_pc := Suc (v_pc vm)\<rparr>" vm])
qed

lemma stack_store_sound:
  assumes d: "describes n st vm" and wf: "wf_reg base" and pc: "v_pc vm < length (v_exec vm)"
    and ok: "check_mem_access st base off sz i = Inr (start, lo, hi)"
  shows "\<exists>m. mem_store (v_memory vm) (reg_get (v_regs vm) base + scast off) sz v = Inr m
    \<and> describes n (mark_stack_range lo hi st) (vm\<lparr>v_memory := m, v_pc := v_pc vm + 1\<rparr>)"
proof -
  let ?addr = "reg_get (v_regs vm) base + scast off"
  from ok obtain b where b: "vs_reg st base = StackPtr b" "start = b + sint off" "- 512 \<le> start"
    "start + int (mem_bytes sz) \<le> 0" "lo = nat (start + 512)" "hi = lo + mem_bytes sz - 1"
    "start mod int (mem_bytes sz) = 0"
    by (rule check_mem_access_ok)
  have w: "0 < mem_bytes sz" using mem_bytes_bounds(1) .
  have "- 512 \<le> b + sint off" "b + sint off < 0" using b w by linarith+
  note addr = stack_address [OF d wf b(1) this] and parts = describes_parts [OF d]
  have at: "sint ?addr = sint (region_base RStack) + int lo" using addr b(2,3,5) by simp
  have al: "sint ?addr mod int (mem_bytes sz) = 0"
    using stack_base_mod [of start sz] b(3,5,7) at by simp
  have fit: "lo + mem_bytes sz \<le> length (region_view (v_memory vm) RStack)"
    using b(3-5) view_length(3) [OF parts(2)] by simp
  from store_at [OF parts(2) addr [THEN conjunct2] disjI1 [OF refl] at fit al]
  obtain m where m: "mem_store (v_memory vm) ?addr sz v = Inr m" by blast
  have bytes: "\<forall>byte \<in> set [lo..<Suc hi]. byte < 512" using b w by auto
  note F = mark_stack_fold [OF parts(5) bytes]
  have "describes n (mark_stack_range lo hi st) (vm\<lparr>v_memory := m, v_pc := v_pc vm + 1\<rparr>)"
  proof (rule describes_store [OF d pc m])
    fix j
    assume "j < 512" "byte_init (vs_stack_init (mark_stack_range lo hi st)) j"
    then have "byte_init (vs_stack_init st) j \<or> lo \<le> j \<and> j \<le> hi"
      using F by (auto simp: mark_stack_range_def simp del: upt_Suc)
    with addr at b w show "byte_init (vs_stack_init st) j \<or> classify ?addr = RStack
        \<and> sint (region_base RStack) + int j \<in> {sint ?addr..< sint ?addr + int (mem_bytes sz)}"
      by auto
  qed (use F in \<open>simp_all add: mark_stack_range_def del: upt_Suc\<close>)
  with m show ?thesis by blast
qed


text \<open>Loads from packets and staged data, at any offset the range allows.\<close>

lemma check_span_ok:
  assumes ok: "check_span rg imm w len pc e = Inr u" and d: "(d :: i64) \<in> gamma_range rg"
    and w: "0 < w" and imm: "- 32768 \<le> imm" "imm < 32768"
  shows "0 \<le> sint d + imm \<and> sint d + imm + int w \<le> int len \<and> (sint d + imm) mod int w = 0"
proof (cases rg)
  case (Interval lo hi)
  have "lo \<le> sint d" "sint d \<le> hi" using d Interval by auto
  with ok w Interval show ?thesis
    by (cases "w = 1") (auto simp: check_span_def Let_def ok_or_def checked_i64_def split: if_splits)
next
  case Top
  with ok imm show ?thesis
    by (auto simp: check_span_def Let_def ok_or_def checked_i64_def i64_bounds split: if_splits)
qed (use d in auto)

lemma region_load_sound:
  assumes wf: "mem_wf m" and v: "v - region_base r \<in> gamma_range rg"
    and ok: "check_span rg (sint off) (mem_bytes sz) len pc e = Inr u"
    and r: "r = RPacket \<or> r = RRodata" and view: "region_view m r = map Some bytes" "length bytes = len"
  shows "\<exists>x. mem_load m (v + scast (off :: i16)) sz = Inr x"
proof -
  define d where "d = v - region_base r"
  have imm: "- 32768 \<le> sint off" "sint off < 32768" using sint_lt [of off] sint_ge [of off] by simp_all
  have "d \<in> gamma_range rg" using v by (simp add: d_def)
  from check_span_ok [OF ok this mem_bytes_bounds(1) imm]
  have S: "0 \<le> sint d + sint off" "sint d + sint off + int (mem_bytes sz) \<le> int len"
    "(sint d + sint off) mod int (mem_bytes sz) = 0"
    by blast+
  have a: "v + scast off = region_base r + word_of_int (sint d + sint off)"
    by (simp add: d_def scast_word [symmetric])
  have len: "len < 2 ^ 62" "r = RPacket \<longrightarrow> len < 0x10000"
    using view_length(1,2) [OF wf, of r] view by auto
  have "sint d + sint off < (case r of RStack \<Rightarrow> 512 | RRodata \<Rightarrow> 2 ^ 62 | RXdpMd \<Rightarrow> 8 | _ \<Rightarrow> 0x10000)"
    using S(2) len r mem_bytes_bounds(1) [of sz] by auto
  from classify_at [OF a S(1) _ this] r
  have c: "sint (v + scast off) = sint (region_base r) + int (nat (sint d + sint off))" "classify (v + scast off) = r"
    using S(1) by auto
  have "sint (region_base r) mod int (mem_bytes sz) = 0"
    using r by (cases sz) (auto simp: region_base_def mem_bytes_def)
  then have al: "sint (v + scast off) mod int (mem_bytes sz) = 0"
    using S(1,3) c(1) mod_add_eq [of "sint (region_base r)" "int (mem_bytes sz)" "sint d + sint off"] by simp
  have fit: "nat (sint d + sint off) + mem_bytes sz \<le> length (region_view m r)"
    using S(1,2) view by simp
  then have "\<forall>k < mem_bytes sz. region_view m r ! (nat (sint d + sint off) + k) \<noteq> None"
    using view by simp
  with load_at [OF wf c(2,1) fit _ al] show ?thesis by blast
qed

text \<open>Loads and stores of the map scratch area.\<close>

lemma check_map_value_ok:
  assumes "check_map_value_bounds st fd off sz pc = Inr u"
  obtains d where "fd_desc (vs_maps st) fd = Some d" "0 \<le> sint off"
    "sint off + int (mem_bytes sz) \<le> int (md_value_size d)" "sint off mod int (mem_bytes sz) = 0"
proof -
  have "0 < mem_bytes sz" using mem_bytes_bounds(1) .
  then show ?thesis
    using assms that
    by (cases "mem_bytes sz = 1")
      (auto simp: check_map_value_bounds_def check_map_align_def misaligned_def ok_or_def Let_def
        split: if_splits option.splits)
qed

lemma scratch_address:
  assumes wf: "mem_wf m" and len: "k \<le> length (m_scratch m)"
    and off: "0 \<le> sint (off :: i16)" "sint off + int (mem_bytes sz) \<le> int k" "sint off mod int (mem_bytes sz) = 0"
  shows "classify (MAP_SCRATCH_BASE + scast off) = RMapScratch"
    "sint (MAP_SCRATCH_BASE + scast off) = sint (region_base RMapScratch) + int (nat (sint off))"
    "nat (sint off) + mem_bytes sz \<le> length (region_view m RMapScratch)"
    "sint (MAP_SCRATCH_BASE + scast off) mod int (mem_bytes sz) = 0"
    "\<forall>i < mem_bytes sz. region_view m RMapScratch ! (nat (sint off) + i) \<noteq> None"
proof -
  have "length (m_scratch m) < 0x10000" using wf by (simp add: mem_wf_def)
  then have "sint off < (case RMapScratch of RStack \<Rightarrow> 512 | RRodata \<Rightarrow> 2 ^ 62 | RXdpMd \<Rightarrow> 8 | _ \<Rightarrow> 0x10000)"
    using len off(2) mem_bytes_bounds(1) [of sz] by simp
  moreover have a: "MAP_SCRATCH_BASE + scast off = region_base RMapScratch + word_of_int (sint off)"
    by (simp add: region_base_def scast_word [symmetric])
  ultimately have c: "sint (MAP_SCRATCH_BASE + scast off) = sint (region_base RMapScratch) + sint off"
    "classify (MAP_SCRATCH_BASE + scast off) = RMapScratch"
    using classify_at [OF a off(1)] by auto
  then show "classify (MAP_SCRATCH_BASE + scast off) = RMapScratch"
    "sint (MAP_SCRATCH_BASE + scast off) = sint (region_base RMapScratch) + int (nat (sint off))"
    using off(1) by auto
  have "sint (region_base RMapScratch) mod int (mem_bytes sz) = 0"
    by (cases sz) (auto simp: region_base_def mem_bytes_def)
  then show "sint (MAP_SCRATCH_BASE + scast off) mod int (mem_bytes sz) = 0"
    using off(3) c(1) mod_add_eq [of "sint (region_base RMapScratch)" "int (mem_bytes sz)" "sint off"] by simp
  show fit: "nat (sint off) + mem_bytes sz \<le> length (region_view m RMapScratch)"
    using off(1,2) len by (simp add: region_view_def)
  then show "\<forall>i < mem_bytes sz. region_view m RMapScratch ! (nat (sint off) + i) \<noteq> None"
    by (simp add: region_view_def)
qed

lemma map_ptr_value:
  assumes "describes n st vm" "wf_reg base" "vs_reg st base = MapPtr fd" "fd_desc (vs_maps st) fd = Some d"
  shows "reg_get (v_regs vm) base = MAP_SCRATCH_BASE" "md_value_size d \<le> length (m_scratch (v_memory vm))"
  using reg_described [OF assms(1,2)] assms(3,4) by (auto simp: value_fits_def)


text \<open>The context words.\<close>

lemma misaligned_mod: "misaligned a (mem_bytes sz) \<longleftrightarrow> a mod int (mem_bytes sz) \<noteq> 0"
  by (cases sz) (simp_all add: misaligned_def mem_bytes_def)

lemma from_le_word32: "(from_le (to_le 4 (d :: u32)) :: i64) = ucast d"
  using from_le_ucast [of "to_le 4 d", where 'a = 32 and 'b = 64] by simp

lemma sint_ucast32: "n < 2 ^ 32 \<Longrightarrow> sint (ucast (word_of_nat n :: u32) :: i64) = int n"
proof -
  assume "n < 2 ^ 32"
  then have "uint (ucast (word_of_nat n :: u32) :: i64) = int n"
    by (simp add: unsigned_ucast_eq unsigned_of_nat take_bit_int_eq_self take_bit_nat_eq_self)
  with \<open>n < 2 ^ 32\<close> show ?thesis
    by (simp add: sint_uint signed_take_bit_int_eq_self)
qed

lemma ctx_load_sound:
  assumes d: "describes n st vm" and wf: "wf_reg base" and md: "vs_reg st base = XdpMdPtr"
    and ok: "check_ctx_load st off sz pc = Inr k"
  shows "\<exists>x. mem_load (v_memory vm) (reg_get (v_regs vm) base + scast off) sz = Inr x \<and> x \<in> reg_values st vm k"
proof -
  let ?m = "v_memory vm"
  note parts = describes_parts [OF d]
  from ok obtain len where len: "vs_packet_len st = Some len" by (auto simp: check_ctx_load_def split: option.splits)
  then obtain p where p: "m_packet ?m = Some p" "length p = len"
    and words: "m_xdp_md ?m = to_le 4 (word_of_nat 0x20000 :: u32) @ to_le 4 (word_of_nat (0x20000 + len) :: u32)"
    using parts(6) by (auto simp: packet_agrees_def)
  have plen: "len < 0x10000" using parts(2) p by (simp add: mem_wf_def)
  have w: "0 < mem_bytes sz" using mem_bytes_bounds(1) .
  from ok len have off: "0 \<le> sint off" "nat (sint off) + mem_bytes sz \<le> 8" "sint off mod int (mem_bytes sz) = 0"
    and k: "k = (if off = 0 \<and> sz = SzW then PacketPtr (exact 0)
      else if off = 4 \<and> sz = SzW then Scalar (exact (saturate_i64 (sint PACKET_BASE + i64_or_max len)))
      else Scalar Top)"
    using w by (auto simp: check_ctx_load_def Let_def XDP_MD_LEN_def misaligned_mod split: if_splits)
  have v: "reg_get (v_regs vm) base = XDP_MD_BASE" using reg_described [OF d wf] md by simp
  have a: "reg_get (v_regs vm) base + scast off = region_base RXdpMd + word_of_int (sint off)"
    by (simp add: v region_base_def scast_word [symmetric])
  have "sint off < (case RXdpMd of RStack \<Rightarrow> 512 | RRodata \<Rightarrow> 2 ^ 62 | RXdpMd \<Rightarrow> 8 | _ \<Rightarrow> 0x10000)"
    using off(1,2) w by simp
  from classify_at [OF a off(1) _ this]
  have c: "sint (reg_get (v_regs vm) base + scast off) = sint (region_base RXdpMd) + int (nat (sint off))"
    "classify (reg_get (v_regs vm) base + scast off) = RXdpMd"
    using off(1) by auto
  have view: "region_view ?m RXdpMd = map Some (m_xdp_md ?m)" "length (m_xdp_md ?m) = 8"
    using parts(2) by (simp_all add: region_view_def mem_wf_def)
  have "sint (region_base RXdpMd) mod int (mem_bytes sz) = 0"
    by (cases sz) (auto simp: region_base_def mem_bytes_def)
  then have al: "sint (reg_get (v_regs vm) base + scast off) mod int (mem_bytes sz) = 0"
    using off(1,3) c(1) mod_add_eq [of "sint (region_base RXdpMd)" "int (mem_bytes sz)" "sint off"] by simp
  have fit: "nat (sint off) + mem_bytes sz \<le> length (region_view ?m RXdpMd)" using off(2) view by simp
  then have read: "\<forall>i < mem_bytes sz. region_view ?m RXdpMd ! (nat (sint off) + i) \<noteq> None" using view by simp
  note L = load_at [OF parts(2) c(2,1) fit read al]
  define x :: i64 where "x = from_le (map the (byte_slice (nat (sint off)) (mem_bytes sz) (region_view ?m RXdpMd)))"
  have x: "x = from_le (byte_slice (nat (sint off)) (mem_bytes sz) (m_xdp_md ?m))"
    by (simp add: x_def view(1) byte_slice_def take_map drop_map comp_def)
  have "x \<in> reg_values st vm k"
  proof (cases "sz = SzW \<and> (off = 0 \<or> off = 4)")
    case True
    then consider (base) "off = 0" "sz = SzW" | (limit) "off = 4" "sz = SzW" by blast
    then show ?thesis
    proof cases
      case base
      then have "x = ucast (word_of_nat 0x20000 :: u32)"
        using from_le_word32 [where d = "word_of_nat 0x20000"] by (simp add: x words byte_slice_def mem_bytes_def)
      then have "sint x = 0x20000" using sint_ucast32 [where n = "0x20000"] by simp
      then have "x = PACKET_BASE" by (metis sint_inj sint_layout(2))
      with base k show ?thesis by simp
    next
      case limit
      then have "x = ucast (word_of_nat (0x20000 + len) :: u32)"
        using from_le_word32 [where d = "word_of_nat (0x20000 + len)"] by (simp add: x words byte_slice_def mem_bytes_def)
      then have "sint x = 0x20000 + int len" using sint_ucast32 [where n = "0x20000 + len"] plen by simp
      moreover have "saturate_i64 (sint PACKET_BASE + i64_or_max len) = 0x20000 + int len"
        using plen by (simp add: saturate_i64_def i64_or_max_def i64_bounds)
      ultimately show ?thesis using limit k by simp
    qed
  qed (use k in auto)
  with L show ?thesis unfolding x_def by blast
qed


section \<open>Map lookups\<close>

lemma helper_lookup_outcome:
  assumes inv: "vm_inv vm" and slot: "map_slot vm (reg_get (v_regs vm) (Reg 1)) = Some s"
    and key: "load_bytes (v_memory vm) (reg_get (v_regs vm) (Reg 2)) (md_key_size (map_desc_of s)) = Inr k"
  shows "\<exists>r0 m s'. helper_map_lookup vm = (Continue, vm\<lparr>v_regs := reg_put (Reg 0) r0 (v_regs vm),
        v_pc := v_pc vm + 1, v_memory := m,
        v_maps := (v_maps vm)[nat (sint (reg_get (v_regs vm) (Reg 1))) := Some s']\<rparr>)
    \<and> map_desc_of s' = map_desc_of s
    \<and> (r0 = 0 \<and> m = v_memory vm
       \<or> r0 = MAP_SCRATCH_BASE \<and> (\<exists>v. m = set_map_scratch v (v_memory vm) \<and> length v = md_value_size (map_desc_of s)))"
proof -
  note wf = map_slot_ok [OF conjunct2 [OF vm_inv_parts [OF inv]] slot]
  have at: "v_maps vm ! nat (sint (reg_get (v_regs vm) (Reg 1))) = Some s"
    using slot by (simp add: map_slot_def split: if_splits)
  note unfold = helper_map_lookup_def Let_def slot key option.case sum.case prod.case ret_def
  show ?thesis
  proof (cases "map_lookup s k")
    case (Inl e)
    have same: "(v_maps vm)[nat (sint (reg_get (v_regs vm) (Reg 1))) := Some s] = v_maps vm"
      using at by (metis list_update_id)
    show ?thesis unfolding unfold Inl
      by (intro exI [of _ 0] exI [of _ "v_memory vm"] exI [of _ s]) (simp add: same)
  next
    case (Inr r)
    then obtain v s' where r: "map_lookup s k = Inr (v, s')" by (cases r) auto
    note L = map_lookup_spec [OF conjunct1 [OF wf] r] and desc = lookup_desc [OF r]
    show ?thesis
    proof (cases v)
      case None
      show ?thesis unfolding unfold r None
        by (intro exI [of _ 0] exI [of _ "v_memory vm"] exI [of _ s']) (simp add: desc put_map_def)
    next
      case (Some bytes)
      then have "length bytes = md_value_size (map_desc_of s)"
        using get_value_size [OF conjunct1 [OF wf], of k bytes] L by simp
      then show ?thesis unfolding unfold r Some
        by (intro exI [of _ MAP_SCRATCH_BASE] exI [of _ "set_map_scratch bytes (v_memory vm)"] exI [of _ s'])
          (auto simp: desc put_map_def)
    qed
  qed
qed

lemma stack_bytes_readable:
  assumes d: "describes n st vm" and wf: "wf_reg r" and st: "vs_reg st r = StackPtr b"
    and range: "byte_range b 0 w pc = Inr (start, lo, hi)" "0 < w" "stack_range_init st lo hi"
  shows "\<exists>bs. load_bytes (v_memory vm) (reg_get (v_regs vm) r) w = Inr bs"
proof -
  note R = byte_range_ok [OF range(1,2)] and parts = describes_parts [OF d]
  have "sint (0 :: i16) = 0" by simp
  then have addr: "sint (reg_get (v_regs vm) r) = sint (region_base RStack) + int lo"
    "classify (reg_get (v_regs vm) r) = RStack"
    using stack_address [OF d wf st, of 0] R range(2) by auto
  have "mem_byte (v_memory vm) (reg_get (v_regs vm) r + word_of_nat k) \<noteq> None" if "k < w" for k
  proof -
    have k: "lo + k < 512" "lo + k \<le> hi" using R that by auto
    then have len: "lo + k < length (region_view (v_memory vm) (classify (reg_get (v_regs vm) r)))"
      by (simp add: addr view_length(3) [OF parts(2)])
    have "region_view (v_memory vm) RStack ! (lo + k) \<noteq> None"
      using parts(9) [OF k(1)] range(3) k stack_view_init [OF k(1)] by (simp add: stack_range_init_iff)
    then show ?thesis
      using mem_byte_view [OF parts(2), of "reg_get (v_regs vm) r" lo k] addr len by simp
  qed
  then have "\<forall>k < w. mem_byte (v_memory vm) (reg_get (v_regs vm) r + word_of_nat k) =
      Some (map (\<lambda>k. the (mem_byte (v_memory vm) (reg_get (v_regs vm) r + word_of_nat k))) [0..<w] ! k)"
    by simp
  then show ?thesis
    unfolding load_bytes_eq_slow [OF parts(2)] load_slow_iff [OF parts(2)] by (metis length_map length_upt minus_nat.diff_0)
qed


text \<open>
  A lookup is sound with an exact descriptor, when no other register points into a larger value:
  all map values share one scratch area.
\<close>

fun map_ptr_fd :: "reg_type \<Rightarrow> int option" where
  "map_ptr_fd (MapPtr fd) = Some fd"
| "map_ptr_fd (MaybeMapPtr fd) = Some fd"
| "map_ptr_fd k = None"

definition lookup_fits :: "map_desc option list \<Rightarrow> nat \<Rightarrow> reg_type \<Rightarrow> bool" where
  "lookup_fits maps len k = (case map_ptr_fd k of None \<Rightarrow> True | Some fd \<Rightarrow> value_fits maps len fd)"

definition call_sound_at :: "verifier_state \<Rightarrow> u32 \<Rightarrow> bool" where
  "call_sound_at st func \<longleftrightarrow> func = 1 \<and> (case vs_reg st (Reg 1) of
      Scalar (Interval lo hi) \<Rightarrow> lo = hi \<and> (case fd_desc (vs_maps st) lo of
          None \<Rightarrow> True
        | Some d \<Rightarrow> list_all (lookup_fits (vs_maps st) (md_value_size d)) (tl (vs_regs st)))
    | _ \<Rightarrow> False)"

lemma gamma_reg_fits:
  "v \<in> gamma_reg maps len k \<Longrightarrow> lookup_fits maps len' k \<Longrightarrow> v \<in> gamma_reg maps len' k"
  by (cases k) (auto simp: lookup_fits_def)

lemma wf_reg_small: "n \<le> 10 \<Longrightarrow> wf_reg (Reg n)"
  by (simp add: wf_reg_def)

lemma lookup_helper: "registry_get with_map_helpers 1 = Some HLookup"
  by (simp add: with_map_helpers_def registry_insert_def registry_get_def registry_empty_def)

lemma call_step_sound:
  assumes d: "describes n st vm" and pc: "v_pc vm < length (v_exec vm)"
    and ok: "check_and_transfer i (Call func) st = Inr st'" and sound: "call_sound_at st func"
  shows "\<exists>vm'. dispatch_helper custom func vm = (Continue, vm') \<and> describes n st' vm'
    \<and> v_pc vm' = v_pc vm + 1 \<and> v_exec vm' = v_exec vm"
proof -
  note parts = describes_parts [OF d]
  from sound obtain fd where func: "func = 1" and r1: "vs_reg st (Reg 1) = Scalar (Interval fd fd)"
    by (auto simp: call_sound_at_def split: reg_type.splits range.splits)
  from ok func r1 obtain desc where desc: "fd_desc (vs_maps st) fd = Some desc"
    and key: "check_map_ptr st (Reg 2) (md_key_size desc) i = Inr ()"
    and st': "st' = set_reg (Reg 0) (MaybeMapPtr fd) st"
    by (auto simp: signature_get_def map_fd_def may_write_memory_def split: option.splits)
  have fits: "list_all (lookup_fits (vs_maps st) (md_value_size desc)) (tl (vs_regs st))"
    using sound r1 desc by (simp add: call_sound_at_def)
  have fd: "sint (reg_get (v_regs vm) (Reg 1)) = fd"
    using reg_described [OF d wf_reg_small, of 1] r1 by simp
  from parts(8) desc obtain s where helpers: "v_helpers vm = with_map_helpers"
    and s: "fd_slot vm fd = Some s" "map_desc_of s = desc"
    by (auto simp: maps_agree_def)
  have slot: "map_slot vm (reg_get (v_regs vm) (Reg 1)) = Some s"
    using s fd by (auto simp: map_slot_def fd_slot_def split: if_splits)
  have "store_wf s" using map_slot_ok [OF conjunct2 [OF vm_inv_parts [OF parts(1)]] slot] by blast
  then have size: "0 < md_key_size desc" using s(2) by (cases s) (auto simp: desc_ok_def)
  from key obtain b start lo hi where b: "vs_reg st (Reg 2) = StackPtr b"
    and range: "byte_range b 0 (md_key_size desc) i = Inr (start, lo, hi)" "stack_range_init st lo hi"
    by (auto simp: check_map_ptr_def ensure_stack_ok unwrap_or_def Let_def split: if_splits)
  obtain k where k: "load_bytes (v_memory vm) (reg_get (v_regs vm) (Reg 2)) (md_key_size (map_desc_of s)) = Inr k"
    using stack_bytes_readable [OF d wf_reg_small b range(1) size range(2)] s(2) by auto
  from helper_lookup_outcome [OF parts(1) slot k] obtain r0 m s' vm' where
    vm': "vm' = vm\<lparr>v_regs := reg_put (Reg 0) r0 (v_regs vm), v_pc := v_pc vm + 1, v_memory := m,
        v_maps := (v_maps vm)[nat fd := Some s']\<rparr>" "helper_map_lookup vm = (Continue, vm')"
    and s': "map_desc_of s' = desc"
    and m: "r0 = 0 \<and> m = v_memory vm
       \<or> r0 = MAP_SCRATCH_BASE \<and> (\<exists>v. m = set_map_scratch v (v_memory vm) \<and> length v = md_value_size desc)"
    unfolding s(2) fd by blast
  have inv: "vm_inv vm'"
    using helper_lookup_good [OF parts(1) pc] vm'(2) by (simp add: helper_good_def)
  have "v_regs vm' ! j \<in> gamma_reg (vs_maps st) (length (m_scratch m)) (vs_regs st' ! j)" if j: "j < 11" for j
  proof (cases j)
    case 0
    have "value_fits (vs_maps st) (md_value_size desc) fd" by (simp add: value_fits_def desc)
    with 0 m show ?thesis
      using parts(3,4) by (auto simp: vm'(1) st' set_reg_def reg_put_def set_map_scratch_def)
  next
    case (Suc j')
    have old: "v_regs vm ! j \<in> reg_values st vm (vs_regs st ! j)" using d j by (simp add: describes_def gamma_state_def)
    have "lookup_fits (vs_maps st) (md_value_size desc) (vs_regs st ! j)"
      using fits Suc j parts(4) by (simp add: list_all_length nth_tl)
    with old m have "v_regs vm ! j \<in> gamma_reg (vs_maps st) (length (m_scratch m)) (vs_regs st ! j)"
      by (auto simp: set_map_scratch_def intro: gamma_reg_fits)
    then show ?thesis using Suc by (simp add: vm'(1) st' set_reg_def reg_put_def)
  qed
  moreover have "maps_agree vm' (vs_maps st)"
  proof -
    have "fd_slot vm' f = (if f = fd then Some s' else fd_slot vm f)" for f
      using s(1) by (auto simp: fd_slot_def vm'(1) nth_list_update nat_eq_iff split: if_splits)
    moreover have "v_helpers vm' = v_helpers vm" by (simp add: vm'(1))
    ultimately show ?thesis using parts(8) s' desc unfolding maps_agree_def by simp
  qed
  moreover have "m_stack m = m_stack (v_memory vm)" "m_packet m = m_packet (v_memory vm)"
    "m_xdp_md m = m_xdp_md (v_memory vm)" "m_rodata m = m_rodata (v_memory vm)"
    using m by (auto simp: set_map_scratch_def)
  moreover from calculation have keep: "packet_agrees m = packet_agrees (v_memory vm)"
    "data_agrees m = data_agrees (v_memory vm)"
    by (simp_all add: packet_agrees_def data_agrees_def fun_eq_iff cong: option.case_cong)
  moreover have "v_memory vm' = m" "vs_maps st' = vs_maps st" "vs_stack_init st' = vs_stack_init st"
    "vs_packet_len st' = vs_packet_len st" "vs_data_len st' = vs_data_len st" "state_wf n st'"
    using d by (simp_all add: vm'(1) st' describes_def)
  ultimately have "describes n st' vm'"
    using d inv parts(6,7) keep unfolding describes_def gamma_state_def by simp
  then show ?thesis
    using vm' helpers func
    by (intro exI [of _ vm']) (simp add: dispatch_helper_def lookup_helper)
qed

end
