(* ===== verification/VStep.thy ===== *)
theory VStep
  imports VSound
begin

text \<open>
  One step of the machine under an accepted instruction: the branch refinements of \<open>verify.rs\<close>
  against the machine's comparisons, and the simulation that the worklist iterates.
\<close>

section \<open>Branches\<close>

definition compares :: "jump_op \<Rightarrow> bool" where
  "compares op \<longleftrightarrow> op \<notin> {Always, JSet, JCall, JExit}"

text \<open>A comparison of integers: what \<open>refine\<close> narrows by.\<close>

fun int_cmp :: "jump_op \<Rightarrow> int \<Rightarrow> int \<Rightarrow> bool" where
  "int_cmp JEq x k = (x = k)"
| "int_cmp Ne x k = (x \<noteq> k)"
| "int_cmp Gt x k = (x > k)"
| "int_cmp Ge x k = (x \<ge> k)"
| "int_cmp Lt x k = (x < k)"
| "int_cmp Le x k = (x \<le> k)"
| "int_cmp Sgt x k = (x > k)"
| "int_cmp Sge x k = (x \<ge> k)"
| "int_cmp Slt x k = (x < k)"
| "int_cmp Sle x k = (x \<le> k)"
| "int_cmp op x k = True"

lemma refine_int:
  assumes "v \<in> gamma_range r" "compares op \<Longrightarrow> int_cmp op (sint v) k = taken"
  shows "v \<in> gamma_range (refine r op k taken)"
proof -
  have "sint v < k \<Longrightarrow> sint v \<le> saturate_i64 (k - 1)" "k < sint v \<Longrightarrow> saturate_i64 (k + 1) \<le> sint v"
    using sint_i64 [of v] by (auto simp: saturate_i64_def)
  then show ?thesis
    using assms
    by (cases op; cases taken)
      (auto simp: refine_def normalize_cmp_def gamma_meet compares_def not_less not_le)
qed

text \<open>When the machine's comparison is the comparison of the signed values.\<close>

definition cmp_exact :: "width \<Rightarrow> jump_op \<Rightarrow> int \<Rightarrow> int \<Rightarrow> bool" where
  "cmp_exact w op x y \<longleftrightarrow> w = B64 \<and> signed_cmp op
     \<or> 0 \<le> x \<and> 0 \<le> y \<and> (w = B64 \<or> x < 2 ^ 31 \<and> y < 2 ^ 31)"

lemma low_word:
  assumes "0 \<le> sint (l :: i64)" "sint l < 2 ^ 31"
  shows "uint (ucast l :: u32) = sint l \<and> sint (ucast l :: u32) = sint l"
proof -
  have "uint (ucast l :: u32) = sint l"
    using assms by (simp add: unsigned_ucast_eq take_bit_int_eq_self uint_nonneg)
  then show ?thesis
    using assms by (simp add: sint_uint [of "ucast l :: u32"] signed_take_bit_int_eq_self)
qed

lemma jump_taken_int:
  assumes "compares op" "cmp_exact w op (sint l) (sint r)"
  shows "jump_taken op l r w = int_cmp op (sint l) (sint r)"
proof (cases w)
  case B64
  have eq: "l = r \<longleftrightarrow> sint l = sint r" using sint_inj by blast
  show ?thesis
    using assms word_less_sint [of l r] word_less_sint [of r l] B64
    by (cases op) (auto simp: jump_taken_def compares_def cmp_exact_def signed_cmp_def eq)
next
  case B32
  then have "uint (ucast l :: u32) = sint l \<and> sint (ucast l :: u32) = sint l"
    "uint (ucast r :: u32) = sint r \<and> sint (ucast r :: u32) = sint r"
    using assms(2) low_word by (auto simp: cmp_exact_def)
  then show ?thesis
    using assms(1) B32
    by (cases op) (auto simp: jump_taken_def jump_taken_32_def compares_def word_less_def word_le_def
        word_uint_eq_iff)
qed

text \<open>Every value of a range compares exactly.\<close>

definition range_exact :: "width \<Rightarrow> jump_op \<Rightarrow> int \<Rightarrow> range \<Rightarrow> bool" where
  "range_exact w op k r \<longleftrightarrow> \<not> compares op \<or> w = B64 \<and> signed_cmp op \<or>
     (case r of
        Bottom \<Rightarrow> True
      | Interval lo hi \<Rightarrow> 0 \<le> lo \<and> 0 \<le> k \<and> (w = B64 \<or> hi < 2 ^ 31 \<and> k < 2 ^ 31)
      | Top \<Rightarrow> False)"

lemma range_exact_sound:
  assumes "range_exact w op (sint k) r" "v \<in> gamma_range r"
  shows "v \<in> gamma_range (refine r op (sint k) (jump_taken op v k w))"
proof (rule refine_int [OF assms(2)])
  assume c: "compares op"
  have "cmp_exact w op (sint v) (sint k)"
    using assms c by (cases r) (auto simp: range_exact_def cmp_exact_def)
  with c show "int_cmp op (sint v) (sint k) = jump_taken op v k w" by (simp add: jump_taken_int)
qed

text \<open>A packet offset, compared with an absolute address.\<close>

definition offset_exact :: "width \<Rightarrow> jump_op \<Rightarrow> int \<Rightarrow> range \<Rightarrow> bool" where
  "offset_exact w op k r \<longleftrightarrow> \<not> compares op \<or> w = B64 \<and>
     (case r of
        Bottom \<Rightarrow> True
      | Interval lo hi \<Rightarrow> - 0x20000 \<le> k \<and> - 0x20000 \<le> lo \<and> hi \<le> i64_max - 0x20000
      | Top \<Rightarrow> False)"

lemma packet_base_sint: "sint PACKET_BASE = 0x20000"
  by (simp add: PACKET_BASE_def)

lemma offset_exact_sound:
  assumes "offset_exact w op k r" "v - PACKET_BASE \<in> gamma_range r" "sint x = 0x20000 + k" "compares op"
  shows "jump_taken op v x w = int_cmp op (sint (v - PACKET_BASE)) k
    \<and> jump_taken op x v w = int_cmp op k (sint (v - PACKET_BASE))"
proof -
  let ?d = "sint (v - PACKET_BASE)"
  have d: "- 0x20000 \<le> ?d" "?d \<le> i64_max - 0x20000" "w = B64" "- 0x20000 \<le> k"
    using assms(1,2,4) by (cases r; force simp: offset_exact_def)+
  have "v = (v - PACKET_BASE) + PACKET_BASE" by simp
  then have v: "sint v = ?d + 0x20000"
    using d(1,2) sint_add_i64 [of "v - PACKET_BASE" PACKET_BASE] by (simp add: packet_base_sint i64_bounds)
  then have "cmp_exact w op (sint v) (sint x)" "cmp_exact w op (sint x) (sint v)"
    using d assms(3) by (simp_all add: cmp_exact_def)
  then have "jump_taken op v x w = int_cmp op (sint v) (sint x)" "jump_taken op x v w = int_cmp op (sint x) (sint v)"
    using assms(4) jump_taken_int by blast+
  with v assms(3,4) show ?thesis by (cases op) auto
qed


text \<open>
  Where an edge refinement is exact: outside this, \<open>refine.rs\<close> reads an unsigned or 32-bit
  comparison as a signed 64-bit one.
\<close>

definition edge_sound_at :: "verifier_state \<Rightarrow> width \<Rightarrow> jump_op \<Rightarrow> reg \<Rightarrow> operand \<Rightarrow> bool" where
  "edge_sound_at st w op dst src =
     (case src of
        ImmOp k \<Rightarrow>
          (case vs_reg st dst of
             MapPtr fd \<Rightarrow> True
           | MaybeMapPtr fd \<Rightarrow> w = B64
           | kind \<Rightarrow> range_exact w op (sint k) (scalar_range kind))
      | RegOp r \<Rightarrow>
          (case (vs_reg st dst, vs_reg st r) of
             (PacketPtr offset, Scalar s) \<Rightarrow>
               (case rebased s of Some k \<Rightarrow> offset_exact w op k offset | None \<Rightarrow> True)
           | (Scalar s, PacketPtr offset) \<Rightarrow>
               (case rebased s of Some k \<Rightarrow> offset_exact w op k offset | None \<Rightarrow> True)
           | _ \<Rightarrow> True))"

lemma refine_reg_sound:
  assumes d: "describes n st vm" and wf: "wf_reg dst" and init: "vs_reg st dst \<noteq> NotInit"
    and sound: "edge_sound_at st w op dst (ImmOp k)"
  shows "describes n (set_reg dst (refine_reg (vs_reg st dst) op (sint k)
      (jump_taken op (reg_get (v_regs vm) dst) (scast k) w)) st) vm"
proof (rule describes_set_reg [OF d wf])
  let ?v = "reg_get (v_regs vm) dst"
  note V = reg_described [OF d wf]
  have sk: "sint (scast k :: i64) = sint k" by simp
  have scalar: "?v \<in> gamma_range (refine (scalar_range (vs_reg st dst)) op (sint k) (jump_taken op ?v (scast k) w))"
    if "range_exact w op (sint k) (scalar_range (vs_reg st dst))"
    using range_exact_sound [of w op "scast k" "scalar_range (vs_reg st dst)" ?v] that scalar_described [OF d wf init] by simp
  show "?v \<in> reg_values st vm (refine_reg (vs_reg st dst) op (sint k) (jump_taken op ?v (scast k) w))"
  proof (cases "vs_reg st dst")
    case (MaybeMapPtr fd)
    have "sint k = 0 \<longleftrightarrow> (scast k :: i64) = 0" using sk sint_inj [of "scast k" 0] by auto
    with V MaybeMapPtr sound show ?thesis
      by (auto simp: refine_reg_def edge_sound_at_def jump_taken_def split: jump_op.splits)
  qed (use V sound scalar init in \<open>auto simp: refine_reg_def edge_sound_at_def\<close>)
qed

lemma rebased_value:
  assumes "rebased s = Some k" "x \<in> gamma_range s"
  shows "sint x = 0x20000 + k" "in_i64 k"
  using assms by (auto simp: rebased_def checked_i64_def packet_base_sint split: range.splits if_splits)

lemma swap_cmp: "swap_op op = Some op' \<Longrightarrow> int_cmp op a b = int_cmp op' b a \<and> compares op \<and> compares op'"
  by (cases op) (auto simp: compares_def)

lemma refine_packet_sound:
  assumes d: "describes n st vm" and wf: "wf_reg dst" "wf_reg src" and init: "vs_reg st dst \<noteq> NotInit"
    and sound: "edge_sound_at st w op dst (RegOp src)"
  shows "describes n (refine_packet_edge st op dst src
      (jump_taken op (reg_get (v_regs vm) dst) (reg_get (v_regs vm) src) w)) vm"
proof -
  let ?d = "reg_get (v_regs vm) dst" and ?s = "reg_get (v_regs vm) src"
  note D = reg_described [OF d wf(1)] and S = reg_described [OF d wf(2)]
  consider (left) offset s k where "vs_reg st dst = PacketPtr offset" "vs_reg st src = Scalar s" "rebased s = Some k"
    | (right) offset s k op' where "vs_reg st src = PacketPtr offset" "vs_reg st dst = Scalar s" "rebased s = Some k"
        "swap_op op = Some op'"
    | (other) "\<And>t. refine_packet_edge st op dst src t = st"
    by atomize_elim (cases "vs_reg st dst"; cases "vs_reg st src"; auto simp: refine_packet_edge_def split: option.split)
  then show ?thesis
  proof cases
    case left
    have v: "?d - PACKET_BASE \<in> gamma_range offset" "?s \<in> gamma_range s" using D S left by simp_all
    have ex: "offset_exact w op k offset" using sound left by (simp add: edge_sound_at_def)
    have "?d - PACKET_BASE \<in> gamma_range (refine offset op k (jump_taken op ?d ?s w))"
      using offset_exact_sound [OF ex v(1) rebased_value(1) [OF left(3) v(2)]] by (intro refine_int [OF v(1)]) simp
    then show ?thesis
      using left by (simp add: refine_packet_edge_def describes_set_reg [OF d wf(1)])
  next
    case right
    have v: "?s - PACKET_BASE \<in> gamma_range offset" "?d \<in> gamma_range s" using D S right by simp_all
    have ex: "offset_exact w op k offset" using sound right by (simp add: edge_sound_at_def)
    have "?s - PACKET_BASE \<in> gamma_range (refine offset op' k (jump_taken op ?d ?s w))"
      using offset_exact_sound [OF ex v(1) rebased_value(1) [OF right(3) v(2)]] swap_cmp [OF right(4)]
      by (intro refine_int [OF v(1)]) simp
    then show ?thesis
      using right by (simp add: refine_packet_edge_def describes_set_reg [OF d wf(2)])
  qed (simp add: d)
qed

text \<open>The edge the machine takes carries a state that describes it.\<close>

lemma refine_edge_sound:
  assumes d: "describes n st vm" and wf: "wf_reg dst" "wf_operand src" and init: "vs_reg st dst \<noteq> NotInit"
    and sound: "edge_sound_at st w op dst src"
    and kind: "kind = (if jump_taken op (reg_get (v_regs vm) dst) (operand_value vm src) w then BranchTrue else BranchFalse)"
  shows "describes n (refine_edge st kind (jump_info (Jump w op dst src off)) (jump_info_reg (Jump w op dst src off))) vm"
proof (cases src)
  case (ImmOp k)
  then show ?thesis
    using refine_reg_sound [OF d wf(1) init, of w op k] sound kind
    by (cases "jump_taken op (reg_get (v_regs vm) dst) (scast k) w") (simp_all add: refine_edge_def)
next
  case (RegOp r)
  then show ?thesis
    using refine_packet_sound [OF d wf(1) _ init, of r w op] sound kind wf(2)
    by (cases "jump_taken op (reg_get (v_regs vm) dst) (reg_get (v_regs vm) r) w") (simp_all add: refine_edge_def)
qed



section \<open>Loads and stores\<close>

lemma load_imm_sound: "k \<in> reg_values st vm (load_imm_type st (sint k))"
proof -
  have "sint (k - RODATA_BASE) = sint k - sint RODATA_BASE" if "in_i64 (sint k - sint RODATA_BASE)"
    using that sint_as_word [of "sint k - sint RODATA_BASE"] unfolding as_word_def by (simp add: RODATA_BASE_def)
  then show ?thesis
    by (auto simp: load_imm_type_def checked_i64_def split: option.split)
qed

lemma load_step_sound:
  assumes d: "describes n st vm" and wf: "wf_reg dst" "wf_reg base" and pc: "v_pc vm < length (v_exec vm)"
    and ok: "check_and_transfer i (Load sz dst base off) st = Inr st'"
  shows "\<exists>x. mem_load (v_memory vm) (reg_get (v_regs vm) base + scast off) sz = Inr x
    \<and> describes n st' (write_dst dst x vm)"
proof -
  let ?addr = "reg_get (v_regs vm) base + scast off"
  note parts = describes_parts [OF d] and V = reg_described [OF d wf(2)]
  have top: "\<exists>x k. mem_load (v_memory vm) ?addr sz = Inr x \<and> x \<in> reg_values st vm k \<and> st' = write_reg dst k st"
    if "\<exists>x. mem_load (v_memory vm) ?addr sz = Inr x" "st' = write_reg dst (Scalar Top) st"
    using that by (metis UNIV_I gamma_range.simps(3) gamma_reg.simps(2))
  have "\<exists>x k. mem_load (v_memory vm) ?addr sz = Inr x \<and> x \<in> reg_values st vm k \<and> st' = write_reg dst k st"
  proof (cases "vs_reg st base")
    case (MapPtr fd)
    then obtain u where "check_map_value_bounds st fd off sz i = Inr u" and st': "st' = write_reg dst (Scalar Top) st"
      using ok by (auto simp: map_value_fd_def)
    from this(1) obtain desc where b: "fd_desc (vs_maps st) fd = Some desc" "0 \<le> sint off"
      "sint off + int (mem_bytes sz) \<le> int (md_value_size desc)" "sint off mod int (mem_bytes sz) = 0"
      by (rule check_map_value_ok)
    note P = map_ptr_value [OF d wf(2) MapPtr b(1)]
    note A = scratch_address [OF parts(2) P(2) b(2-4)]
    from load_at [OF parts(2) A(1-3,5,4)] st' show ?thesis unfolding P(1) [symmetric] by (intro top) auto
  next
    case (PacketPtr rg)
    then obtain u len where "check_span rg (sint off) (mem_bytes sz) len i
        (PacketOutOfBounds i (sint off) (mem_bytes sz) len) = Inr u" "vs_packet_len st = Some len"
      and st': "st' = write_reg dst (Scalar Top) st"
      using ok by (auto simp: map_value_fd_def check_packet_bounds_def split: option.splits)
    moreover from this(2) obtain p where "m_packet (v_memory vm) = Some p" "length p = len"
      using parts(6) by (auto simp: packet_agrees_def)
    ultimately have "\<exists>x. mem_load (v_memory vm) ?addr sz = Inr x"
      using V PacketPtr by (intro region_load_sound [OF parts(2), of _ RPacket rg]) (auto simp: region_base_def region_view_def)
    then show ?thesis using st' by (rule top)
  next
    case (DataPtr rg)
    then obtain u len where "check_span rg (sint off) (mem_bytes sz) len i
        (DataOutOfBounds i (sint off) (mem_bytes sz) len) = Inr u" "vs_data_len st = Some len"
      and st': "st' = write_reg dst (Scalar Top) st"
      using ok by (auto simp: map_value_fd_def check_data_bounds_def split: option.splits)
    moreover from this(2) obtain p where "m_rodata (v_memory vm) = Some p" "length p = len"
      using parts(7) by (auto simp: data_agrees_def)
    ultimately have "\<exists>x. mem_load (v_memory vm) ?addr sz = Inr x"
      using V DataPtr by (intro region_load_sound [OF parts(2), of _ RRodata rg]) (auto simp: region_base_def region_view_def)
    then show ?thesis using st' by (rule top)
  next
    case XdpMdPtr
    then obtain k where "check_ctx_load st off sz i = Inr k" "st' = write_reg dst k st"
      using ok by (auto simp: map_value_fd_def)
    with ctx_load_sound [OF d wf(2) XdpMdPtr] show ?thesis by blast
  next
    case (StackPtr b)
    then obtain start lo hi where "check_mem_access st base off sz i = Inr (start, lo, hi)" "stack_range_init st lo hi"
      and st': "st' = write_reg dst (Scalar Top) st"
      using ok by (auto simp: map_value_fd_def split: if_splits)
    then have "\<exists>x. mem_load (v_memory vm) ?addr sz = Inr x" using stack_load_sound [OF d wf(2)] by blast
    then show ?thesis using st' by (rule top)
  qed (use ok in \<open>auto simp: map_value_fd_def check_mem_access_def ensure_stack_ptr_def Let_def\<close>)
  with describes_write_dst [OF d wf(1) pc] show ?thesis by blast
qed

lemma store_step_sound:
  assumes d: "describes n st vm" and wf: "wf_reg base" and pc: "v_pc vm < length (v_exec vm)"
    and ok: "check_and_transfer i (Store sz base off src) st = Inr st'"
  shows "\<exists>m. mem_store (v_memory vm) (reg_get (v_regs vm) base + scast off) sz v = Inr m
    \<and> describes n st' (vm\<lparr>v_memory := m, v_pc := v_pc vm + 1\<rparr>)"
proof (cases "vs_reg st base")
  case (MapPtr fd)
  note parts = describes_parts [OF d]
  have "check_map_value_bounds st fd off sz i = Inr () \<and> st = st'"
    using ok by (simp add: map_value_fd_def MapPtr) metis
  then have ok': "check_map_value_bounds st fd off sz i = Inr ()" and st': "st' = st" by blast+
  from ok' obtain desc where b: "fd_desc (vs_maps st) fd = Some desc" "0 \<le> sint off"
    "sint off + int (mem_bytes sz) \<le> int (md_value_size desc)" "sint off mod int (mem_bytes sz) = 0"
    by (rule check_map_value_ok)
  note P = map_ptr_value [OF d wf MapPtr b(1)]
  note A = scratch_address [OF parts(2) P(2) b(2-4)]
  from store_at [OF parts(2) A(1) disjI2 [OF refl] A(2-4)] obtain m where
    m: "mem_store (v_memory vm) (MAP_SCRATCH_BASE + scast off) sz v = Inr m" by blast
  have "describes n st (vm\<lparr>v_memory := m, v_pc := v_pc vm + 1\<rparr>)"
    by (rule describes_store [OF d pc m]) (simp_all add: parts)
  with m st' show ?thesis unfolding P(1) by blast
next
  case (StackPtr b)
  then have "\<exists>x. check_mem_access st base off sz i = Inr x \<and> (case x of (start, lo, hi) \<Rightarrow> Inr (mark_stack_range lo hi st)) = (Inr st' :: verify_error + verifier_state)"
    using ok by (simp add: map_value_fd_def del: split_paired_Ex)
  then obtain start lo hi where "check_mem_access st base off sz i = Inr (start, lo, hi)"
    and "mark_stack_range lo hi st = st'"
    by (elim exE conjE) (simp split: prod.splits)
  with stack_store_sound [OF d wf pc] show ?thesis by blast
qed (use ok in \<open>simp_all add: map_value_fd_def check_mem_access_def ensure_stack_ptr_def Let_def\<close>)



section \<open>One instruction\<close>

text \<open>
  Where the transfer of one instruction is sound.  Each clause excludes a precision the code claims
  and does not have: see \<open>range_ops_unsound\<close>, \<open>refine_unsigned_unsound\<close> and the witnesses below.
\<close>

definition sound_at :: "verifier_state \<Rightarrow> insn \<Rightarrow> bool" where
  "sound_at st insn =
     (case insn of
        Alu w op dst src \<Rightarrow> alu_sound_at st w op dst src
      | Jump w op dst src off \<Rightarrow> op = Always \<or> edge_sound_at st w op dst src
      | Call func \<Rightarrow> call_sound_at st func
      | _ \<Rightarrow> True)"

text \<open>
  The outcome of a step from a described machine: the program exits, falls off its end, or
  transfers control along an edge whose refined state describes the machine.
\<close>

definition step_sound :: "nat \<Rightarrow> insn list \<Rightarrow> nat \<Rightarrow> verifier_state \<Rightarrow> step_result \<times> 'c vm \<Rightarrow> bool" where
  "step_sound n insns pc st out =
     (case out of
        (Continue, vm') \<Rightarrow>
          v_exec vm' = load insns \<and>
          (v_pc vm' = length insns \<or>
           (\<exists>kind. transfers insns pc kind (v_pc vm')
              \<and> describes n (refine_edge st kind (jump_info (insns ! pc)) (jump_info_reg (insns ! pc))) vm'))
      | (SExit code, vm') \<Rightarrow> insns ! pc = Exit
      | (SError e, vm') \<Rightarrow> False
      | (Panic, vm') \<Rightarrow> False)"

lemma step_sound_next:
  assumes "describes n st vm'" "v_pc vm' = pc + 1" "v_exec vm' = load insns" "pc < length insns"
    and "case insns ! pc of Jump w op dst src off \<Rightarrow> False | Exit \<Rightarrow> False | _ \<Rightarrow> True"
  shows "step_sound n insns pc st (Continue, vm')"
proof -
  have "describes n (refine_edge st Fallthrough (jump_info (insns ! pc)) (jump_info_reg (insns ! pc))) vm'"
    using assms(1) by (simp add: refine_edge_def)
  moreover have "transfers insns pc Fallthrough (pc + 1)" if "pc + 1 < length insns"
    using that assms(4,5) by (simp add: transfers_def split: insn.splits)
  ultimately show ?thesis
    using assms(2-4) by (cases "pc + 1 < length insns") (auto simp: step_sound_def)
qed

lemma write_dst_pc [simp]: "v_pc (write_dst dst v vm) = v_pc vm + 1" "v_exec (write_dst dst v vm) = v_exec vm"
  by (simp_all add: write_dst_def)

lemma operand_imm: "operand_value vm (ImmOp k) = scast k" "operand_value vm (RegOp r) = reg_get (v_regs vm) r"
  by simp_all

lemma jump_step_sound:
  assumes d: "describes n st vm" and pc: "pc < length insns" "v_pc vm = pc" and exec: "v_exec vm = load insns"
    and insn: "insns ! pc = Jump w op dst src off" and wf: "wf_reg dst" "wf_operand src"
    and ok: "check_and_transfer pc (insns ! pc) st = Inr st'" and sound: "sound_at st (insns ! pc)"
    and target: "exec_resolve insns pc off = Inr t" "resolve_jump insns pc off = Inr t"
  shows "step_sound n insns pc st' (step custom vm)"
proof -
  have st': "st' = st" using ok insn by (auto split: if_splits)
  have t: "t < length insns" using exec_resolve_bound [OF target(1) pc(1)] .
  have lowered: "load insns ! pc = (if op = Always then JumpAlways t
      else case src of RegOp r \<Rightarrow> JumpReg w op dst r t | ImmOp k \<Rightarrow> JumpImm w op dst k t)"
    using target by (simp add: load_nth [OF pc(1)] insn resolve_load)
  have move: "describes n s (vm\<lparr>v_pc := pc'\<rparr>)" if "describes n s vm" "pc' \<le> length insns" for s pc'
    using describes_next [OF that(1)] that(2) pc exec by simp
  show ?thesis
  proof (cases "op = Always")
    case True
    then have "step custom vm = (Continue, vm\<lparr>v_pc := t\<rparr>)" using lowered pc exec by (simp add: step_def)
    moreover have "transfers insns pc Unconditional t" using True insn pc(1) t target by (simp add: transfers_def)
    moreover have "describes n (refine_edge st Unconditional l r) (vm\<lparr>v_pc := t\<rparr>)" for l r
      using move [OF d] t by (simp add: refine_edge_def)
    ultimately show ?thesis using exec by (auto simp: step_sound_def st')
  next
    case False
    let ?taken = "jump_taken op (reg_get (v_regs vm) dst) (operand_value vm src) w"
    let ?kind = "if ?taken then BranchTrue else BranchFalse" and ?pc = "if ?taken then t else pc + 1"
    have init: "vs_reg st dst \<noteq> NotInit" using ok insn False by (auto split: if_splits)
    have run: "step custom vm = (Continue, vm\<lparr>v_pc := ?pc\<rparr>)"
      using lowered pc exec False by (cases src) (simp_all add: step_def)
    have "edge_sound_at st w op dst src" using sound insn False by (simp add: sound_at_def)
    from move [OF refine_edge_sound [OF d wf init this refl, of off], of ?pc] t pc
    have "describes n (refine_edge st ?kind (jump_info (insns ! pc)) (jump_info_reg (insns ! pc))) (vm\<lparr>v_pc := ?pc\<rparr>)"
      by (simp add: insn)
    moreover have "?pc = length insns \<or> transfers insns pc ?kind ?pc"
      using False insn pc(1) t target by (auto simp: transfers_def)
    ultimately show ?thesis
      using exec unfolding run step_sound_def prod.case step_result.case st' by auto
  qed
qed


lemma transfer_step_sound:
  assumes d: "describes n st vm" and pc: "pc < length insns" "v_pc vm = pc" and exec: "v_exec vm = load insns"
    and wf: "wf_insn (insns ! pc)" and ok: "check_and_transfer pc (insns ! pc) st = Inr st'"
    and sound: "sound_at st (insns ! pc)" and total: "slot_total insns < 2 ^ 32"
    and targets: "\<And>w op dst src off. insns ! pc = Jump w op dst src off \<Longrightarrow> is_ok (resolve_jump insns pc off)"
  shows "step_sound n insns pc st' (step custom vm)"
proof -
  have at: "v_pc vm < length (v_exec vm)" using pc exec by simp
  have run: "step custom vm = step_insn custom (lower_one pc (insns ! pc)
      (map (slot_start insns) [0..<length insns]) (rev_table insns)) vm"
    using pc exec by (simp add: step_def load_nth [OF pc(1)])
  note next_ok = step_sound_next [OF _ _ _ pc(1)]
  show ?thesis
  proof (cases "insns ! pc")
    case (Alu w op dst src)
    have "wf_reg dst" "wf_operand src" using wf Alu by simp_all
    moreover have "alu_transfer pc st w op dst src = Inr st'" "alu_sound_at st w op dst src"
      using ok sound Alu by (simp_all add: sound_at_def)
    ultimately obtain v where v: "alu_apply op (reg_get (v_regs vm) dst) (operand_value vm src) w = Some v"
        "describes n st' (write_dst dst v vm)"
      using alu_step_sound [OF d _ _ at] by blast
    have "is_end op \<Longrightarrow> \<exists>k. src = ImmOp k \<and> k \<in> {16, 32, 64}"
      using ok Alu by (auto simp: alu_transfer_def split: operand.splits if_splits)
    with v(1) have "step custom vm = (Continue, write_dst dst v vm)"
      unfolding run Alu by (cases src) (auto simp: operand_imm)
    then show ?thesis using next_ok [OF v(2)] Alu pc exec by simp
  next
    case (LoadImm64 dst k)
    have "wf_reg dst" using wf LoadImm64 by simp
    from describes_write_dst [OF d this at load_imm_sound] ok LoadImm64
    have k: "describes n st' (write_dst dst k vm)" by auto
    show ?thesis using next_ok [OF k] LoadImm64 pc exec unfolding run by simp
  next
    case (Load sz dst base off)
    have "wf_reg dst" "wf_reg base" using wf Load by simp_all
    from load_step_sound [OF d this at ok [unfolded Load]] obtain x where
      x: "mem_load (v_memory vm) (reg_get (v_regs vm) base + scast off) sz = Inr x"
        "describes n st' (write_dst dst x vm)" by blast
    then show ?thesis using next_ok [OF x(2)] Load pc exec unfolding run by simp
  next
    case (Store sz base off src)
    have "wf_reg base" using wf Store by simp
    from store_step_sound [OF d this at ok [unfolded Store], of "operand_value vm src"] obtain m where
      m: "mem_store (v_memory vm) (reg_get (v_regs vm) base + scast off) sz (operand_value vm src) = Inr m"
        "describes n st' (vm\<lparr>v_memory := m, v_pc := v_pc vm + 1\<rparr>)" by blast
    then have "step custom vm = (Continue, vm\<lparr>v_memory := m, v_pc := v_pc vm + 1\<rparr>)"
      unfolding run Store by (cases src) simp_all
    then show ?thesis using next_ok [OF m(2)] Store pc exec by simp
  next
    case (Jump w op dst src off)
    obtain t where t: "resolve_jump insns pc off = Inr t" using targets [OF Jump] by (auto simp: is_ok_iff)
    moreover have "exec_resolve insns pc off = Inr t" using t exec_resolve_cfg [OF pc(1) total] by blast
    moreover have "wf_reg dst" "wf_operand src" using wf Jump by simp_all
    ultimately show ?thesis using jump_step_sound [OF d pc exec Jump _ _ ok sound] by blast
  next
    case (Call func)
    from call_step_sound [OF d at ok [unfolded Call], of custom] sound Call obtain vm' where
      vm': "dispatch_helper custom func vm = (Continue, vm')" "describes n st' vm'" "v_pc vm' = v_pc vm + 1"
        "v_exec vm' = v_exec vm"
      by (auto simp: sound_at_def)
    then show ?thesis using next_ok [OF vm'(2)] Call pc exec unfolding run by simp
  next
    case Exit
    then show ?thesis unfolding run by (simp add: step_sound_def)
  qed (use ok in simp)
qed

end
