(* ===== verification/VEntry.thy ===== *)
theory VEntry
  imports VStep
begin

text \<open>
  The state the analysis starts from, against the machine the runtime starts from: the map table of
  \<open>build_map_table\<close> and the stores of \<open>build_stores\<close>, the packet and the staged data.
\<close>

text \<open>The entry of \<open>verify_core\<close>.\<close>

definition entry_state :: "verify_config \<Rightarrow> verifier_state" where
  "entry_state config =
     (let map_table = build_map_table config;
          entry = (if vc_packet_len config \<noteq> None then initial_xdp (vc_packet_len config) map_table
                   else initial_with_maps map_table)
      in entry\<lparr>vs_data_len := vc_data_len config\<rparr>)"

text \<open>The machine a caller prepares: map stores, then staged data, then a packet.\<close>

definition start_vm :: "insn list \<Rightarrow> map_store option list \<Rightarrow> u8 list option \<Rightarrow> u8 list option \<Rightarrow> 'c vm" where
  "start_vm insns stores data packet =
     (let vm = vm_new_with_stores insns stores;
          vm = (case data of None \<Rightarrow> vm | Some d \<Rightarrow> install_rodata d vm)
      in case packet of None \<Rightarrow> vm | Some p \<Rightarrow> install_xdp_packet p vm)"


section \<open>The map table\<close>

abbreviation claim_slot :: "nat \<Rightarrow> map_desc \<Rightarrow> map_desc option list \<Rightarrow> map_desc option list" where
  "claim_slot len desc t \<equiv>
     (if 0 \<le> md_fd desc \<and> nat (md_fd desc) < len \<and> t ! nat (md_fd desc) = None
      then t[nat (md_fd desc) := Some desc] else t)"

lemma table_fold:
  assumes "\<forall>d \<in> set descs. 0 \<le> md_fd d \<and> nat (md_fd d) < length table"
    and "distinct (map md_fd descs)" "\<forall>d \<in> set descs. table ! nat (md_fd d) = None"
  shows "length (fold (claim_slot (length table)) descs table) = length table
    \<and> (\<forall>i < length table. \<forall>e. fold (claim_slot (length table)) descs table ! i = Some e \<longleftrightarrow>
        table ! i = Some e \<or> e \<in> set descs \<and> md_fd e = int i)"
  using assms
proof (induction descs arbitrary: table)
  case (Cons d descs)
  let ?t = "table[nat (md_fd d) := Some d]"
  have d: "0 \<le> md_fd d" "nat (md_fd d) < length table" "table ! nat (md_fd d) = None" using Cons.prems by simp_all
  have other: "\<forall>e \<in> set descs. nat (md_fd e) \<noteq> nat (md_fd d)"
    using Cons.prems by (auto simp: eq_nat_nat_iff rev_image_eqI)
  have IH: "length (fold (claim_slot (length table)) descs ?t) = length table
    \<and> (\<forall>i < length table. \<forall>e. fold (claim_slot (length table)) descs ?t ! i = Some e \<longleftrightarrow>
        ?t ! i = Some e \<or> e \<in> set descs \<and> md_fd e = int i)"
  proof -
    have "\<forall>e \<in> set descs. ?t ! nat (md_fd e) = None" using other Cons.prems(3) by (metis list.set_intros(2) nth_list_update_neq)
    then show ?thesis using Cons.IH [of ?t] Cons.prems(1,2) by simp
  qed
  have "?t ! i = Some e \<longleftrightarrow> table ! i = Some e \<or> e = d \<and> md_fd e = int i" if "i < length table" for i e
    using d that by (auto simp: nth_list_update)
  with IH d show ?case by auto
qed simp

text \<open>A table built from descriptors that \<open>build_stores\<close> accepts has each at its own number.\<close>

lemma build_map_table_desc:
  assumes "build_stores (vc_maps config) = Inr stores" "fd_desc (build_map_table config) fd = Some d"
  shows "\<exists>s. 0 \<le> fd \<and> nat fd < length stores \<and> stores ! nat fd = Some s \<and> map_desc_of s = d"
proof (cases "vc_maps config = []")
  case True
  then show ?thesis using assms(2) by (auto simp: build_map_table_def fd_desc_def get_desc_def split: if_splits)
next
  case False
  let ?descs = "vc_maps config"
  define mx where "mx = Max (md_fd ` set ?descs)"
  have max: "md_fd d \<le> mx" if "d \<in> set ?descs" for d using that unfolding mx_def by (intro Max_ge) auto
  from assms(1) False have b: "0 < mx" "mx \<le> MAX_MAP_FD"
    and p: "place_stores (replicate (nat mx + 1) None) ?descs = Inr stores"
    unfolding build_stores_def Let_def mx_def [symmetric] by (simp_all split: if_splits)
  have bound: "\<forall>d \<in> set ?descs. nat (md_fd d) < length (replicate (nat mx + 1) (None :: map_store option))"
    using max by (auto simp: less_Suc_eq_le simp del: nat_le_iff intro: nat_mono)
  note P = place_stores_spec [OF p bound]
  have none: "replicate n (None :: 'a option) ! k = None" if "k < n" for n k using that by simp
  note P = P [unfolded length_replicate]
  define t where "t = (replicate (nat mx + 1) None :: map_desc option list)"
  have t: "length t = nat mx + 1" "\<And>k. k < nat mx + 1 \<Longrightarrow> t ! k = None" by (simp_all only: t_def length_replicate nth_replicate)
  have "build_map_table config = fold (claim_slot (length t)) ?descs t"
    using False b t(1) by (simp add: build_map_table_def Let_def mx_def [symmetric] t_def min_absorb1 del: replicate.simps)
  moreover have "\<forall>d \<in> set ?descs. 0 \<le> md_fd d \<and> nat (md_fd d) < length t" "\<forall>d \<in> set ?descs. t ! nat (md_fd d) = None"
    using P bound t by simp_all
  ultimately have T: "length (build_map_table config) = nat mx + 1"
    "\<forall>i < nat mx + 1. \<forall>e. build_map_table config ! i = Some e \<longleftrightarrow> e \<in> set ?descs \<and> md_fd e = int i"
    using table_fold [of ?descs t] P t by simp_all
  from assms(2) T(1) have fd: "0 \<le> fd" "nat fd < nat mx + 1" "build_map_table config ! nat fd = Some d"
    by (simp_all add: fd_desc_def get_desc_def split: if_splits)
  with T(2) have d: "d \<in> set ?descs" "md_fd d = int (nat fd)" by blast+
  with P obtain s where s: "store_new d = Inr s" by (auto simp: is_ok_iff)
  then have "stores ! nat fd = Some s" using P fd d by auto
  moreover have "map_desc_of s = d"
    using s by (cases s) (auto simp: store_new_def split: if_splits map_type.splits prod.splits)
  ultimately show ?thesis using fd P by auto
qed


section \<open>The entry describes the start\<close>

lemma build_map_table_length: "length (build_map_table config) \<le> nat MAX_MAP_FD + 1"
proof -
  have "length (fold (claim_slot len) descs t) = length t" for len descs t
    by (induction descs arbitrary: t) simp_all
  then show ?thesis by (simp add: build_map_table_def Let_def nat_mono)
qed

lemma entry_wf: "state_wf (length (build_map_table config)) (entry_state config)"
  by (simp add: entry_state_def Let_def state_wf_def initial_xdp_def initial_with_maps_def)


lemma start_vm_simps [simp]:
  "v_pc (start_vm insns stores data packet) = 0" "v_exec (start_vm insns stores data packet) = load insns"
  "v_insns (start_vm insns stores data packet) = insns"
  "v_maps (start_vm insns stores data packet) = stores" "v_helpers (start_vm insns stores data packet) = with_map_helpers"
  by (simp_all add: start_vm_def Let_def vm_new_with_stores_def install_rodata_def install_xdp_packet_def split: option.split)

lemma start_vm_inv:
  assumes "list_all wf_insn insns" "maps_ok stores" "\<forall>d. data = Some d \<longrightarrow> length d < 2 ^ 62"
    "\<forall>p. packet = Some p \<longrightarrow> length p < 0x10000"
  shows "vm_inv (start_vm insns stores data packet)"
proof -
  have "vm_inv (install_rodata d vm)" if "vm_inv vm" "length d < 2 ^ 62" for d and vm :: "'a vm"
    using that set_rodata_wf by (simp add: vm_inv_def install_rodata_def)
  with vm_new_with_stores_inv [OF assms(1,2)] assms(3,4) install_packet_inv show ?thesis
    by (auto simp: start_vm_def Let_def split: option.split)
qed

lemma stored_packet:
  "length p < 0x10000 \<Longrightarrow> packet_agrees (set_packet p m) (Some (length p))"
proof -
  assume "length p < 0x10000"
  then have "u32_or_max (sint PACKET_BASE) = word_of_nat 0x20000"
    "u32_or_max (saturate_i64 (sint PACKET_BASE + int (length p))) = word_of_nat (0x20000 + length p)"
    by (simp_all add: u32_or_max_def packet_base_sint saturate_i64_def i64_bounds)
  then show ?thesis
    using \<open>length p < 0x10000\<close> by (simp add: packet_agrees_def set_packet_def Let_def i64_bounds)
qed

lemma entry_described:
  assumes wf: "list_all wf_insn insns" and stores: "build_stores (vc_maps config) = Inr stores" "maps_ok stores"
    and packet: "vc_packet_len config = map_option length packet" "\<forall>p. packet = Some p \<longrightarrow> length p < 0x10000"
    and data: "vc_data_len config = map_option length data" "\<forall>d. data = Some d \<longrightarrow> length d < 2 ^ 62"
  shows "describes (length (build_map_table config)) (entry_state config) (start_vm insns stores data packet)"
proof -
  let ?vm = "start_vm insns stores data packet" and ?st = "entry_state config"
  have regs: "v_regs ?vm = (if packet = None then zeroed_with_frame_pointer
      else reg_put XDP_CTX_REG XDP_MD_BASE zeroed_with_frame_pointer)"
    by (simp add: start_vm_def Let_def vm_new_with_stores_def install_rodata_def install_xdp_packet_def split: option.split)
  have mem: "m_packet (v_memory ?vm) = packet" "m_rodata (v_memory ?vm) = data"
    by (simp_all add: start_vm_def Let_def vm_new_with_stores_def install_rodata_def install_xdp_packet_def
        memory_default_def set_packet_def set_rodata_def split: option.split)
  have "packet_agrees (v_memory ?vm) (vc_packet_len config)"
    using packet stored_packet
    by (auto simp: start_vm_def Let_def install_xdp_packet_def packet_agrees_def [of _ None] split: option.split)
  moreover have "data_agrees (v_memory ?vm) (vc_data_len config)"
    using data(1) mem(2) by (auto simp: data_agrees_def split: option.split)
  moreover have "maps_agree ?vm (build_map_table config)"
    unfolding maps_agree_def using build_map_table_desc [OF stores(1)]
    by (auto simp: fd_slot_def)
  moreover have "v_regs ?vm ! i \<in> gamma_reg (build_map_table config) len (vs_regs ?st ! i)" if "i < 11" for i len
  proof -
    have fp: "zeroed_with_frame_pointer ! 10 = STACK_BASE"
      using start_regs(2) by (simp add: reg_get_def frame_ptr_def reg_index_def)
    consider "i = 10" | "i = 1" | "i \<noteq> 10" "i \<noteq> 1" by blast
    then show ?thesis
      using that packet(1) fp start_regs(1)
      by cases (auto simp: regs entry_state_def Let_def initial_xdp_def initial_with_maps_def
          reg_put_def reg_index_def XDP_CTX_REG_def NUM_REGS_def nth_Cons')
  qed
  moreover have "\<not> byte_init (vs_stack_init ?st) j" if "j < STACK_BYTES" for j
    using that by (simp add: byte_init_def entry_state_def Let_def initial_xdp_def initial_with_maps_def STACK_BYTES_def
        nth_Cons' del: replicate.simps)
  ultimately show ?thesis
    using start_vm_inv [OF wf stores(2) data(2) packet(2)] entry_wf
    by (auto simp: describes_def gamma_state_def entry_state_def Let_def initial_xdp_def initial_with_maps_def)
qed



section \<open>Properties\<close>

definition return_seven :: "insn list" where
  "return_seven = [Alu B64 Mov (Reg 0) (ImmOp 7), Exit]"

lemma return_seven_cfg: "\<exists>cfg. build_cfg dfs_post return_seven = Some (Inr cfg)"
proof -
  have "return_seven \<noteq> []" by (simp add: return_seven_def)
  then show ?thesis
    by (cases rule: build_cfg_cases [where po = dfs_post]) (auto simp: jump_targets_def return_seven_def)
qed

text \<open>
  C5: The simulation step: from a machine described by the state before an accepted instruction, where
  the transfer is sound, the interpreter does not fault or panic: it exits, falls off the end of
  the program, or moves along a control-flow edge to a machine described by the state the
  worklist propagates along that edge.
\<close>

theorem transfer_sound:
  assumes "describes n st vm" "v_pc vm = pc" "pc < length insns" "v_exec vm = load insns"
    and "list_all wf_insn insns" "slot_total insns < 2 ^ 32" "build_cfg po insns = Some (Inr cfg)"
    and "check_and_transfer pc (insns ! pc) st = Inr st'" "sound_at st (insns ! pc)"
  shows "step_sound n insns pc st' (step custom vm)"
proof (rule transfer_step_sound [OF assms(1,3,2,4) _ assms(8,9,6)])
  show "wf_insn (insns ! pc)" using assms(3,5) by (simp add: list_all_length)
  show "is_ok (resolve_jump insns pc off)" if "insns ! pc = Jump w op dst src off" for w op dst src off
    using that by (rule build_cfg_resolves [OF assms(7,3)])
qed

theorem transfer_sound_witness:
  "step_sound 1 return_seven 0 (set_reg (Reg 0) (Scalar (exact 7)) (entry_state config_default))
     (step (\<lambda>_ vm. (Continue, vm)) (start_vm return_seven [] None None :: unit vm))"
proof -
  let ?vm = "start_vm return_seven [] None None :: unit vm"
  have "describes (length (build_map_table config_default)) (entry_state config_default) ?vm"
    by (rule entry_described)
      (simp_all add: return_seven_def config_default_def build_stores_def maps_ok_def wf_reg_def)
  then have d: "describes 1 (entry_state config_default) ?vm"
    by (simp add: build_map_table_def config_default_def MAX_MAP_FD_def)
  have pc: "v_pc ?vm = 0" "0 < length return_seven" "v_exec ?vm = load return_seven"
    by (simp_all add: return_seven_def)
  have wf: "list_all wf_insn return_seven" "slot_total return_seven < 2 ^ 32"
    by (simp_all add: return_seven_def wf_reg_def slot_total_def slot_start_def slot_width_def)
  obtain cfg where cfg: "build_cfg dfs_post return_seven = Some (Inr cfg)"
    using return_seven_cfg by blast
  have ok: "check_and_transfer 0 (return_seven ! 0) (entry_state config_default)
      = Inr (set_reg (Reg 0) (Scalar (exact 7)) (entry_state config_default))"
    by (simp add: return_seven_def alu_transfer_def ptr_alu_transfer_def operand_range_def
        write_reg_def is_end_def is_frame_ptr_def frame_ptr_def Let_def)
  have "sound_at (entry_state config_default) (return_seven ! 0)"
    by (simp add: return_seven_def sound_at_def alu_sound_at_def Let_def uses_dst_def range_op_sound_def)
  from transfer_sound [OF d pc wf cfg ok this] show ?thesis .
qed

text \<open>
  Arithmetic on an uninitialised destination is accepted, and the result is the empty range: the
  state describes no machine at all, although the machine runs on.
\<close>

theorem uninit_destination_accepted:
  "check_and_transfer pc (Alu B64 Add (Reg 0) (ImmOp 1)) vs_initial = Inr (set_reg (Reg 0) (Scalar Bottom) vs_initial)
   \<and> gamma_state (set_reg (Reg 0) (Scalar Bottom) vs_initial) = ({} :: 'c vm set)"
proof
  show "check_and_transfer pc (Alu B64 Add (Reg 0) (ImmOp 1)) vs_initial = Inr (set_reg (Reg 0) (Scalar Bottom) vs_initial)"
    by (simp add: alu_transfer_def ptr_alu_transfer_def operand_range_def exact_def write_reg_def
        vs_initial_def initial_with_maps_def vs_reg_def reg_index_def is_end_def is_frame_ptr_def frame_ptr_def Let_def)
  show "gamma_state (set_reg (Reg 0) (Scalar Bottom) vs_initial) = ({} :: 'c vm set)"
  proof (rule equals0I)
    fix vm :: "'c vm"
    assume "vm \<in> gamma_state (set_reg (Reg 0) (Scalar Bottom) vs_initial)"
    then have "v_regs vm ! 0 \<in> gamma_reg [] (length (m_scratch (v_memory vm))) (Scalar Bottom)"
      unfolding gamma_state_def mem_Collect_eq
      by (elim conjE allE [of _ 0]) (simp add: set_reg_def vs_initial_def initial_with_maps_def reg_index_def)
    then show False by simp
  qed
qed

text \<open>
  A map helper called with a descriptor number the analysis does not know exactly is accepted
  without looking at its key pointer: here \<open>r2\<close> is uninitialised.
\<close>

theorem unknown_map_key_unchecked:
  assumes "vs_reg st (Reg 1) = Scalar Top" "vs_reg st (Reg 2) = NotInit" "func \<in> {1, 2, 3}"
  shows "check_and_transfer pc (Call func) st = Inr (set_reg (Reg 0) (Scalar Top) st)"
  using assms by (auto simp: signature_get_def map_fd_def may_write_memory_def)

end
