(* ===== verification/VWork.thy ===== *)
theory VWork
  imports VEntry
begin

text \<open>
  The worklist of \<open>crates/ebpf-verifier/src/verify.rs\<close> (\<open>BlockWorklist\<close>, \<open>merge_successor\<close> and the
  loop of \<open>verify_core\<close>).  \<open>outs\<close> is petgraph's \<open>Graph::edges\<close> and \<open>cyclic\<close> its
  \<open>is_cyclic_directed\<close>, parameters of the model.  The loop is a \<open>partial_function\<close>, so that it
  could run forever; \<open>verify_loop_result\<close> shows that it returns.  Generation counters are \<open>u32\<close>
  words that wrap; the trace of \<open>verify_traced\<close> is not modelled.
\<close>

section \<open>The pending queue\<close>

record worklist =
  wl_queue :: "nat list"
  wl_queued :: "bool list"

definition worklist_with_capacity :: "nat \<Rightarrow> worklist" where
  "worklist_with_capacity blocks = \<lparr>wl_queue = [], wl_queued = replicate blocks False\<rparr>"

definition worklist_push :: "nat \<Rightarrow> worklist \<Rightarrow> worklist" where
  "worklist_push node wl =
     (if \<not> wl_queued wl ! node
      then \<lparr>wl_queue = wl_queue wl @ [node], wl_queued = (wl_queued wl)[node := True]\<rparr> else wl)"

definition worklist_pop :: "worklist \<Rightarrow> nat option \<times> worklist" where
  "worklist_pop wl =
     (case wl_queue wl of
        [] \<Rightarrow> (None, wl)
      | node # rest \<Rightarrow> (Some node, \<lparr>wl_queue = rest, wl_queued = (wl_queued wl)[node := False]\<rparr>))"


section \<open>The analysis state\<close>

record work =
  wk_states :: "verifier_state option list"
  wk_snapshots :: "reg_type list option list"
  wk_states_gen :: "u32 list"
  wk_processed_gen :: "u32 list"
  wk_iterations :: "nat list"
  wk_list :: worklist
  wk_visited :: "bool list"
  wk_total_pc :: nat

definition bump :: "nat \<Rightarrow> work \<Rightarrow> work" where
  "bump block w = w\<lparr>wk_states_gen := (wk_states_gen w)[block := wk_states_gen w ! block + 1],
     wk_list := worklist_push block (wk_list w)\<rparr>"

definition merge_successor :: "nat \<Rightarrow> verifier_state \<Rightarrow> nat \<Rightarrow> work \<Rightarrow> work" where
  "merge_successor block incoming threshold w =
     (case wk_states w ! block of
        None \<Rightarrow>
          let w = (if block < length (wk_snapshots w)
                   then w\<lparr>wk_snapshots := (wk_snapshots w)[block := Some (vs_regs incoming)]\<rparr> else w)
          in bump block (w\<lparr>wk_states := (wk_states w)[block := Some incoming]\<rparr>)
      | Some existing \<Rightarrow>
          let iterations = wk_iterations w ! block + 1;
              (merged, changed) = (if iterations > threshold then widen_assign existing incoming
                                   else join_assign existing incoming);
              w = w\<lparr>wk_iterations := (wk_iterations w)[block := iterations],
                    wk_states := (wk_states w)[block := Some merged]\<rparr>
          in if changed then bump block w else w)"

text \<open>The instructions of one block, with the visited count.\<close>

fun transfer_insns :: "insn list \<Rightarrow> nat list \<Rightarrow> verifier_state \<Rightarrow> bool list \<times> nat
    \<Rightarrow> verify_error + (verifier_state \<times> bool list \<times> nat)" where
  "transfer_insns insns [] st (visited, pcs_seen) = Inr (st, visited, pcs_seen)"
| "transfer_insns insns (pc # pcs) st (visited, pcs_seen) =
     bind_res (check_and_transfer pc (insns ! pc) st) (\<lambda>st.
       transfer_insns insns pcs st
         (if \<not> visited ! pc then (visited[pc := True], pcs_seen + 1) else (visited, pcs_seen)))"

definition block_pcs :: "cfg \<Rightarrow> nat \<Rightarrow> nat list" where
  "block_pcs cfg block = (let bb = g_nodes (c_graph cfg) ! block in [bb_start bb..<bb_end bb])"

definition visit_block :: "(graph \<Rightarrow> nat \<Rightarrow> edge list) \<Rightarrow> insn list \<Rightarrow> cfg \<Rightarrow> nat \<Rightarrow> nat \<Rightarrow> work
    \<Rightarrow> verify_error + work" where
  "visit_block outs insns cfg threshold block w =
     (if wk_processed_gen w ! block = wk_states_gen w ! block then Inr w
      else let w = w\<lparr>wk_processed_gen := (wk_processed_gen w)[block := wk_states_gen w ! block]\<rparr>;
               last = insns ! (bb_end (g_nodes (c_graph cfg) ! block) - 1)
           in case wk_states w ! block of
                None \<Rightarrow> Inr w
              | Some st \<Rightarrow>
                  bind_res (transfer_insns insns (block_pcs cfg block) st (wk_visited w, wk_total_pc w))
                    (\<lambda>(current, visited, pcs_seen).
                      Inr (fold (\<lambda>(source, target, kind).
                             merge_successor target
                               (refine_edge current kind (jump_info last) (jump_info_reg last)) threshold)
                           (outs (c_graph cfg) block)
                           (w\<lparr>wk_visited := visited, wk_total_pc := pcs_seen\<rparr>))))"

partial_function (option) verify_loop ::
    "(graph \<Rightarrow> nat \<Rightarrow> edge list) \<Rightarrow> insn list \<Rightarrow> cfg \<Rightarrow> nat \<Rightarrow> work \<Rightarrow> (verify_error + work) option" where
  "verify_loop outs insns cfg threshold w =
     (case worklist_pop (wk_list w) of
        (None, wl) \<Rightarrow> Some (Inr w)
      | (Some node, wl) \<Rightarrow>
          (case visit_block outs insns cfg threshold node (w\<lparr>wk_list := wl\<rparr>) of
             Inl e \<Rightarrow> Some (Inl e)
           | Inr w' \<Rightarrow> verify_loop outs insns cfg threshold w'))"

declare verify_loop.simps [code]

definition verify_start :: "(graph \<Rightarrow> bool) \<Rightarrow> insn list \<Rightarrow> cfg \<Rightarrow> verify_config \<Rightarrow> work" where
  "verify_start cyclic insns cfg config =
     (let blocks = length (g_nodes (c_graph cfg));
          entry = c_entry cfg;
          none = replicate blocks None;
          snapshots = (if has_back_edge cyclic cfg
                       then none[entry := Some (vs_regs (entry_state config))] else none)
      in \<lparr>wk_states = (replicate blocks None)[entry := Some (entry_state config)],
          wk_snapshots = snapshots,
          wk_states_gen = (replicate blocks 0)[entry := 1],
          wk_processed_gen = replicate blocks (- 1),
          wk_iterations = replicate blocks 0,
          wk_list = fold worklist_push (c_rpo cfg) (worklist_with_capacity blocks),
          wk_visited = replicate (length insns) False,
          wk_total_pc = 0\<rparr>)"

definition verify_fixpoint :: "(graph \<Rightarrow> nat \<Rightarrow> edge list) \<Rightarrow> (graph \<Rightarrow> bool) \<Rightarrow> insn list \<Rightarrow> cfg
    \<Rightarrow> verify_config \<Rightarrow> (verify_error + work) option" where
  "verify_fixpoint outs cyclic insns cfg config =
     verify_loop outs insns cfg (vc_widening_threshold config) (verify_start cyclic insns cfg config)"


section \<open>What the transfer keeps\<close>

lemma write_reg_wf [simp]: "state_wf n (set_reg r k st) = state_wf n st" "state_wf n (write_reg r k st) = state_wf n st"
  by simp_all

lemma mark_stack_range_wf [simp]: "state_wf n (mark_stack_range lo hi st) = state_wf n st"
proof -
  have "state_wf n (fold mark_stack_byte bs st) = state_wf n st" for bs
    by (induction bs arbitrary: st) (simp_all add: mark_stack_byte_def state_wf_def)
  then show ?thesis by (simp add: mark_stack_range_def)
qed

lemma ptr_alu_wf: "ptr_alu_transfer st op dst src = Some st' \<Longrightarrow> state_wf n st' = state_wf n st"
  by (auto simp: ptr_alu_transfer_def split: if_splits operand.splits reg_type.splits option.splits)

lemma alu_transfer_wf: "alu_transfer pc st w op dst src = Inr st' \<Longrightarrow> state_wf n st' = state_wf n st"
  by (auto simp: alu_transfer_def Let_def ptr_alu_wf split: option.splits if_splits)


lemma check_and_transfer_wf:
  assumes "check_and_transfer pc i st = Inr st'"
  shows "state_wf n st' = state_wf n st"
proof (cases i)
  case (Alu w op dst src)
  with assms show ?thesis by (simp add: alu_transfer_wf)
next
  case (LoadImm64 dst k)
  with assms show ?thesis by auto
next
  case (Load sz dst base off)
  with assms show ?thesis by (auto split: option.splits reg_type.splits if_splits)
next
  case (Store sz base off src)
  then obtain fd where "(case fd of
         Some fd \<Rightarrow> bind_res (check_map_value_bounds st fd off sz pc) (\<lambda>_. Inr st)
       | None \<Rightarrow>
           (case vs_reg st base of
              XdpMdPtr \<Rightarrow> Inl (store_readonly_error st base off sz pc)
            | PacketPtr base_off \<Rightarrow> Inl (store_readonly_error st base off sz pc)
            | DataPtr base_off \<Rightarrow> Inl (store_readonly_error st base off sz pc)
            | _ \<Rightarrow>
                bind_res (check_mem_access st base off sz pc) (\<lambda>(start, lo, hi).
                  Inr (mark_stack_range lo hi st)))) = Inr st'"
    using assms unfolding Store check_and_transfer.simps bind_res_eq_Inr by blast
  then have "st' = st \<or> (\<exists>lo hi. st' = mark_stack_range lo hi st)"
    by (cases fd; cases "vs_reg st base") auto
  then show ?thesis by auto
next
  case (Call func)
  with assms show ?thesis by (auto simp: Let_def may_write_memory_def split: option.splits)
qed (use assms in \<open>auto split: if_splits\<close>)

lemma refine_edge_wf [simp]: "state_wf n (refine_edge st kind lj ljr) = state_wf n st"
  by (simp add: refine_edge_def refine_packet_edge_def Let_def split: option.split prod.split reg_type.split)

lemma transfer_insns_wf:
  "transfer_insns insns pcs st acc = Inr (st', acc') \<Longrightarrow> state_wf n st' = state_wf n st"
proof (induction insns pcs st acc rule: transfer_insns.induct)
  case (2 insns pc pcs st visited seen)
  then show ?case by (auto simp: check_and_transfer_wf)
qed simp

text \<open>The state alone, without the visited count.\<close>

fun run_insns :: "insn list \<Rightarrow> nat list \<Rightarrow> verifier_state \<Rightarrow> verify_error + verifier_state" where
  "run_insns insns [] st = Inr st"
| "run_insns insns (pc # pcs) st = bind_res (check_and_transfer pc (insns ! pc) st) (run_insns insns pcs)"

lemma transfer_insns_run: "transfer_insns insns pcs st acc = Inr (st', acc') \<Longrightarrow> run_insns insns pcs st = Inr st'"
  by (induction insns pcs st acc rule: transfer_insns.induct) auto

lemma transfer_insns_error: "transfer_insns insns pcs st acc = Inl e \<Longrightarrow> run_insns insns pcs st = Inl e"
proof (induction insns pcs st acc rule: transfer_insns.induct)
  case (2 insns pc pcs st visited seen)
  then show ?case by (cases "check_and_transfer pc (insns ! pc) st") auto
qed simp

lemma transfer_insns_lengths:
  "transfer_insns insns pcs st (visited, seen) = Inr (st', visited', seen') \<Longrightarrow> length visited' = length visited"
  by (induction pcs arbitrary: st visited seen) (auto split: if_splits)

lemma run_insns_append:
  "run_insns insns (xs @ ys) st = bind_res (run_insns insns xs st) (run_insns insns ys)"
proof (induction xs arbitrary: st)
  case (Cons pc xs)
  then show ?case by (cases "check_and_transfer pc (insns ! pc) st") simp_all
qed simp

lemma run_insns_wf: "run_insns insns pcs st = Inr st' \<Longrightarrow> state_wf n st' = state_wf n st"
proof (induction pcs arbitrary: st)
  case (Cons pc pcs)
  then obtain st1 where "check_and_transfer pc (insns ! pc) st = Inr st1" "run_insns insns pcs st1 = Inr st'" by auto
  then show ?case using Cons.IH [of st1] check_and_transfer_wf [of pc _ st st1 n] by simp
qed simp


section \<open>Growth\<close>

text \<open>
  \<open>absorbed a b\<close>: the state \<open>b\<close> is a merge of states among which is \<open>a\<close>; so it describes every
  machine that \<open>a\<close> describes.
\<close>

inductive absorbed :: "verifier_state \<Rightarrow> verifier_state \<Rightarrow> bool" where
  absorbed_refl: "absorbed a a"
| absorbed_left: "absorbed a x \<Longrightarrow> absorbed a (state_join x y)"
| absorbed_right: "absorbed a y \<Longrightarrow> absorbed a (state_join x y)"
| absorbed_widen_left: "absorbed a x \<Longrightarrow> absorbed a (state_widen x y)"
| absorbed_widen_right: "absorbed a y \<Longrightarrow> absorbed a (state_widen x y)"

lemma absorbed_trans: "absorbed b c \<Longrightarrow> absorbed a b \<Longrightarrow> absorbed a c"
  by (induction rule: absorbed.induct) (auto intro: absorbed.intros)

lemma absorbed_gamma: "absorbed a b \<Longrightarrow> gamma_state a \<subseteq> (gamma_state b :: 'c vm set)"
proof (induction rule: absorbed.induct)
  case (absorbed_left a x y) then show ?case using gamma_state_join [of x y] by blast
next
  case (absorbed_right a y x) then show ?case using gamma_state_join [of x y] by blast
next
  case (absorbed_widen_left a x y) then show ?case using gamma_state_widen [of x y] by blast
next
  case (absorbed_widen_right a y x) then show ?case using gamma_state_widen [of x y] by blast
qed simp



section \<open>The invariant of the worklist\<close>

lemma worklist_push_simps:
  "wl_queue (worklist_push b wl) = (if wl_queued wl ! b then wl_queue wl else wl_queue wl @ [b])"
  "wl_queued (worklist_push b wl) = (if wl_queued wl ! b then wl_queued wl else (wl_queued wl)[b := True])"
  by (simp_all add: worklist_push_def)

definition worklist_ok :: "nat \<Rightarrow> worklist \<Rightarrow> bool" where
  "worklist_ok blocks wl \<longleftrightarrow> length (wl_queued wl) = blocks \<and> distinct (wl_queue wl)
     \<and> (\<forall>b. b \<in> set (wl_queue wl) \<longleftrightarrow> b < blocks \<and> wl_queued wl ! b)"

lemma worklist_push_ok:
  assumes "worklist_ok blocks wl" "b < blocks"
  shows "worklist_ok blocks (worklist_push b wl)" "wl_queued (worklist_push b wl) ! b"
    "wl_queued wl ! c \<Longrightarrow> wl_queued (worklist_push b wl) ! c"
    "length (wl_queue (worklist_push b wl)) \<le> length (wl_queue wl) + 1"
proof -
  have len: "length (wl_queued wl) = blocks" using assms(1) by (simp add: worklist_ok_def)
  show "worklist_ok blocks (worklist_push b wl)"
  proof (cases "wl_queued wl ! b")
    case True
    then show ?thesis using assms by (simp add: worklist_push_def)
  next
    case False
    have mem: "c \<in> set (wl_queue wl) \<longleftrightarrow> c < blocks \<and> wl_queued wl ! c" for c
      using assms(1) unfolding worklist_ok_def by blast
    have "c \<in> set (wl_queue wl @ [b]) \<longleftrightarrow> c < blocks \<and> (wl_queued wl)[b := True] ! c" for c
      using assms(2) len mem [of c] by (cases "c = b") simp_all
    moreover have "distinct (wl_queue wl @ [b])" using assms(1) mem [of b] False by (simp add: worklist_ok_def)
    ultimately show ?thesis unfolding worklist_ok_def worklist_push_simps using False len by simp
  qed
  show "wl_queued (worklist_push b wl) ! b" using assms(2) len by (simp add: worklist_push_simps)
  show "wl_queued (worklist_push b wl) ! c" if "wl_queued wl ! c"
    using that len assms(2) by (metis nth_list_update_eq nth_list_update_neq worklist_push_simps(2))
  show "length (wl_queue (worklist_push b wl)) \<le> length (wl_queue wl) + 1"
    by (simp add: worklist_push_simps)
qed

lemma worklist_pop_ok:
  assumes "worklist_ok blocks wl" "worklist_pop wl = (Some b, wl')"
  shows "worklist_ok blocks wl'" "b < blocks" "\<not> wl_queued wl' ! b" "length (wl_queue wl) = Suc (length (wl_queue wl'))"
    "c \<noteq> b \<Longrightarrow> wl_queued wl' ! c = wl_queued wl ! c"
proof -
  obtain rest where q: "wl_queue wl = b # rest" "wl' = \<lparr>wl_queue = rest, wl_queued = (wl_queued wl)[b := False]\<rparr>"
    using assms(2) by (auto simp: worklist_pop_def split: list.splits)
  have len: "length (wl_queued wl) = blocks" and dist: "distinct (b # rest)"
    and mem: "\<And>c. c \<in> set (b # rest) \<longleftrightarrow> c < blocks \<and> wl_queued wl ! c"
    using assms(1) unfolding worklist_ok_def q(1) by blast+
  show b: "b < blocks" using mem [of b] by simp
  have "c \<in> set rest \<longleftrightarrow> c < blocks \<and> (wl_queued wl)[b := False] ! c" for c
    using mem [of c] dist len b by (cases "c = b") simp_all
  then show "worklist_ok blocks wl'" unfolding worklist_ok_def q(2) using len dist by simp
  show "\<not> wl_queued wl' ! b" "length (wl_queue wl) = Suc (length (wl_queue wl'))"
    "c \<noteq> b \<Longrightarrow> wl_queued wl' ! c = wl_queued wl ! c"
    using len b q by simp_all
qed

text \<open>
  What every block's entry satisfies: a generation counts the first arrival and the changes, at most
  one for each join before the threshold and one for each level climbed after it.
\<close>

definition entry_ok :: "nat \<Rightarrow> nat \<Rightarrow> verifier_state option \<Rightarrow> u32 \<Rightarrow> nat \<Rightarrow> bool" where
  "entry_ok n threshold st gen iterations =
     (case st of
        None \<Rightarrow> gen = 0 \<and> iterations = 0
      | Some s \<Rightarrow> state_wf n s \<and> 1 \<le> unat gen
          \<and> unat gen \<le> 1 + (if iterations \<le> threshold then iterations else threshold + state_height s))"

definition work_ok :: "nat \<Rightarrow> nat \<Rightarrow> nat \<Rightarrow> work \<Rightarrow> bool" where
  "work_ok blocks n threshold w \<longleftrightarrow>
     length (wk_states w) = blocks \<and> length (wk_states_gen w) = blocks \<and> length (wk_processed_gen w) = blocks
   \<and> length (wk_iterations w) = blocks \<and> worklist_ok blocks (wk_list w)
   \<and> (\<forall>b < blocks. entry_ok n threshold (wk_states w ! b) (wk_states_gen w ! b) (wk_iterations w ! b))
   \<and> (\<forall>b < blocks. wk_processed_gen w ! b = - 1 \<or> unat (wk_processed_gen w ! b) \<le> unat (wk_states_gen w ! b))"

definition pending_ok :: "work \<Rightarrow> bool" where
  "pending_ok w \<longleftrightarrow> (\<forall>b < length (wk_states w). wk_states w ! b \<noteq> None
     \<and> wk_processed_gen w ! b \<noteq> wk_states_gen w ! b \<longrightarrow> wl_queued (wk_list w) ! b)"

text \<open>What is left to do: how often each block can still change, and the queue.\<close>

definition potential :: "nat \<Rightarrow> nat \<Rightarrow> verifier_state option \<Rightarrow> nat \<Rightarrow> nat" where
  "potential n threshold st iterations =
     (let h = state_bound n in
      case st of
        None \<Rightarrow> threshold * (h + 1) + h + 1
      | Some s \<Rightarrow> (threshold - iterations) * (h + 1) + (h - state_height s))"

definition work_left :: "nat \<Rightarrow> nat \<Rightarrow> work \<Rightarrow> nat" where
  "work_left n threshold w =
     2 * (\<Sum>b < length (wk_states w). potential n threshold (wk_states w ! b) (wk_iterations w ! b))
     + length (wl_queue (wk_list w))"

text \<open>States only grow, and a block whose generation stands still keeps its state.\<close>

definition grows :: "work \<Rightarrow> work \<Rightarrow> bool" where
  "grows w w' \<longleftrightarrow> length (wk_states w') = length (wk_states w) \<and> wk_processed_gen w' = wk_processed_gen w
     \<and> (\<forall>b < length (wk_states w).
          (\<forall>s. wk_states w ! b = Some s \<longrightarrow> (\<exists>s'. wk_states w' ! b = Some s' \<and> absorbed s s'))
        \<and> (wk_states_gen w' ! b = wk_states_gen w ! b \<longrightarrow> wk_states w' ! b = wk_states w ! b)
        \<and> unat (wk_states_gen w ! b) \<le> unat (wk_states_gen w' ! b)
        \<and> (wk_states_gen w' ! b \<noteq> wk_states_gen w ! b \<longrightarrow> wl_queued (wk_list w') ! b)
        \<and> (wl_queued (wk_list w) ! b \<longrightarrow> wl_queued (wk_list w') ! b))"

lemma grows_refl: "grows w w"
  by (auto simp: grows_def intro: absorbed_refl)

lemma grows_trans:
  assumes "grows w1 w2" "grows w2 w3"
  shows "grows w1 w3"
  unfolding grows_def
proof (intro conjI allI impI)
  fix b assume b: "b < length (wk_states w1)"
  then have b2: "b < length (wk_states w2)" using assms(1) by (simp add: grows_def)
  note G1 = assms(1) [unfolded grows_def, THEN conjunct2, THEN conjunct2, rule_format, OF b]
  note G2 = assms(2) [unfolded grows_def, THEN conjunct2, THEN conjunct2, rule_format, OF b2]
  show "\<exists>s'. wk_states w3 ! b = Some s' \<and> absorbed s s'" if "wk_states w1 ! b = Some s" for s
    using G1 G2 that absorbed_trans by blast
  show "unat (wk_states_gen w1 ! b) \<le> unat (wk_states_gen w3 ! b)" using G1 G2 by linarith
  have "wk_states_gen w2 ! b = wk_states_gen w1 ! b" if "wk_states_gen w3 ! b = wk_states_gen w1 ! b"
    using G1 G2 that by (metis order_antisym word_unat_eq_iff)
  then show "wk_states w3 ! b = wk_states w1 ! b" if "wk_states_gen w3 ! b = wk_states_gen w1 ! b"
    using G1 G2 that by metis
  show "wl_queued (wk_list w3) ! b" if "wk_states_gen w3 ! b \<noteq> wk_states_gen w1 ! b"
    using G1 G2 that by metis
  show "wl_queued (wk_list w3) ! b" if "wl_queued (wk_list w1) ! b"
    using G1 G2 that by blast
qed (use assms in \<open>simp_all add: grows_def\<close>)


subsection \<open>One merge\<close>

text \<open>The generations stay below the \<open>u32::MAX\<close> that marks a block as never processed.\<close>

definition gen_room :: "nat \<Rightarrow> nat \<Rightarrow> bool" where
  "gen_room n threshold \<longleftrightarrow> threshold + state_bound n + 2 < 2 ^ 32"

lemma entry_gen_bound:
  assumes "entry_ok n threshold st gen iterations" "gen_room n threshold"
  shows "unat gen + 1 < 2 ^ 32" "gen \<noteq> - 1" "unat (gen + 1) = unat gen + 1"
proof -
  have "unat gen \<le> threshold + state_bound n + 1"
  proof (cases st)
    case (Some s)
    with assms(1) have "unat gen \<le> 1 + (threshold + state_height s)" "state_height s \<le> state_bound n"
      using state_height_le by (auto simp: entry_ok_def split: if_splits)
    then show ?thesis by linarith
  qed (use assms(1) in \<open>simp add: entry_ok_def\<close>)
  then show b: "unat gen + 1 < 2 ^ 32" using assms(2) by (simp add: gen_room_def)
  have "unat (- 1 :: u32) = 2 ^ 32 - 1" by (simp add: unsigned_minus_1_eq_mask mask_eq_exp_minus_1)
  with b show "gen \<noteq> - 1" by auto
  show "unat (gen + 1) = unat gen + 1" using b by (subst unat_add_lem [THEN iffD1]) simp_all
qed

definition merge_step :: "nat \<Rightarrow> nat \<Rightarrow> nat \<Rightarrow> verifier_state \<Rightarrow> work \<Rightarrow> work \<Rightarrow> verifier_state \<Rightarrow> nat \<Rightarrow> bool \<Rightarrow> bool" where
  "merge_step n threshold b incoming w w' s it changed \<longleftrightarrow>
     wk_states w' = (wk_states w)[b := Some s] \<and> wk_iterations w' = (wk_iterations w)[b := it]
   \<and> wk_states_gen w' = (if changed then (wk_states_gen w)[b := wk_states_gen w ! b + 1] else wk_states_gen w)
   \<and> wk_list w' = (if changed then worklist_push b (wk_list w) else wk_list w)
   \<and> wk_processed_gen w' = wk_processed_gen w
   \<and> (\<not> changed \<longrightarrow> wk_states w ! b = Some s)
   \<and> absorbed incoming s \<and> (\<forall>old. wk_states w ! b = Some old \<longrightarrow> absorbed old s)
   \<and> entry_ok n threshold (Some s) (wk_states_gen w' ! b) it
   \<and> potential n threshold (Some s) it + (if changed then 1 else 0) \<le> potential n threshold (wk_states w ! b) (wk_iterations w ! b)"

lemma merge_first:
  assumes len: "b < length (wk_states_gen w)" "b < length (wk_iterations w)"
    and "wk_states w ! b = None" "entry_ok n threshold (wk_states w ! b) (wk_states_gen w ! b) (wk_iterations w ! b)"
    and wf: "state_wf n incoming"
  shows "merge_step n threshold b incoming w (merge_successor b incoming threshold w) incoming 0 True"
proof -
  have "wk_states_gen w ! b = 0" "wk_iterations w ! b = 0" using assms(3,4) by (simp_all add: entry_ok_def)
  moreover have "(wk_iterations w)[b := 0] = wk_iterations w" using calculation(2) by (metis list_update_id)
  ultimately show ?thesis
    using assms wf
    by (simp add: merge_step_def merge_successor_def bump_def Let_def absorbed_refl entry_ok_def potential_def)
qed

lemma merge_later:
  assumes len: "b < length (wk_states_gen w)" and old: "wk_states w ! b = Some old"
    and ok: "entry_ok n threshold (wk_states w ! b) (wk_states_gen w ! b) (wk_iterations w ! b)"
    and wf: "state_wf n incoming" and room: "gen_room n threshold"
  shows "\<exists>s it changed. merge_step n threshold b incoming w (merge_successor b incoming threshold w) s it changed"
proof -
  let ?it = "wk_iterations w ! b" and ?gen = "wk_states_gen w ! b"
  have oldwf: "state_wf n old" using ok old by (simp add: entry_ok_def)
  define s where "s = (if ?it + 1 > threshold then state_widen old incoming else state_join old incoming)"
  have assign: "(if ?it + 1 > threshold then widen_assign old incoming else join_assign old incoming) = (s, s \<noteq> old)"
    using assign_eq [OF oldwf wf] by (simp add: s_def)
  have swf: "state_wf n s" using state_wf_merge [OF oldwf wf] by (simp add: s_def)
  have abs: "absorbed incoming s" "absorbed old s"
    using absorbed.intros by (auto simp: s_def)
  have climb: "state_height old < state_height s" if "s \<noteq> old" "?it + 1 > threshold"
    using state_widen_climbs [OF oldwf wf] that by (simp add: s_def)
  note gen = entry_gen_bound(3) [OF ok room] and hs = state_height_le [OF swf] and ho = state_height_le [OF oldwf]
  have e: "entry_ok n threshold (Some s) (?gen + (if s \<noteq> old then 1 else 0)) (?it + 1)"
    using ok old swf gen climb
    by (cases "s = old"; cases "?it + 1 > threshold") (auto simp: entry_ok_def split: if_splits)
  have p: "potential n threshold (Some s) (?it + 1) + (if s \<noteq> old then 1 else 0) \<le> potential n threshold (Some old) ?it"
  proof (cases "?it < threshold")
    case True
    then have "(threshold - ?it) * (state_bound n + 1) = (threshold - (?it + 1)) * (state_bound n + 1) + (state_bound n + 1)"
      by (metis Suc_diff_Suc Suc_eq_plus1 add.commute mult_Suc)
    then show ?thesis
      using diff_le_self [of "state_bound n" "state_height s"] unfolding potential_def Let_def option.case
      by (cases "s = old"; simp only: simp_thms if_True if_False; linarith)
  next
    case False
    then show ?thesis using climb hs ho by (auto simp: potential_def)
  qed
  have "merge_step n threshold b incoming w (merge_successor b incoming threshold w) s (?it + 1) (s \<noteq> old)"
    using e p abs len old
    unfolding merge_step_def merge_successor_def old option.case Let_def assign prod.case
    by (cases "s = old") (simp_all add: bump_def)
  then show ?thesis by blast
qed


text \<open>What a merge does to the whole analysis.\<close>

lemma sum_one:
  fixes f g :: "nat \<Rightarrow> nat"
  assumes "b < m" "\<And>c. c \<noteq> b \<Longrightarrow> g c = f c" "g b + d \<le> f b"
  shows "(\<Sum>c < m. g c) + d \<le> (\<Sum>c < m. f c)"
proof -
  have "(\<Sum>c < m. f c) = f b + (\<Sum>c \<in> {..<m} - {b}. f c)" "(\<Sum>c < m. g c) = g b + (\<Sum>c \<in> {..<m} - {b}. g c)"
    using assms(1) by (simp_all add: sum.remove)
  moreover have "(\<Sum>c \<in> {..<m} - {b}. g c) = (\<Sum>c \<in> {..<m} - {b}. f c)"
    by (rule sum.cong) (use assms(2) in auto)
  ultimately show ?thesis using assms(3) by linarith
qed

lemma merge_step_effect:
  assumes ok: "work_ok m n threshold w" and b: "b < m" and room: "gen_room n threshold"
    and step: "merge_step n threshold b incoming w w' s it changed"
  shows "work_ok m n threshold w'" "grows w w'"
    "\<exists>s'. wk_states w' ! b = Some s' \<and> absorbed incoming s'"
    "work_left n threshold w' \<le> work_left n threshold w"
proof -
  have len: "length (wk_states w) = m" "length (wk_states_gen w) = m" "length (wk_iterations w) = m"
    "length (wk_processed_gen w) = m" and wl: "worklist_ok m (wk_list w)"
    using ok by (simp_all add: work_ok_def)
  have entry: "entry_ok n threshold (wk_states w ! c) (wk_states_gen w ! c) (wk_iterations w ! c)"
    and prev: "wk_processed_gen w ! c = - 1 \<or> unat (wk_processed_gen w ! c) \<le> unat (wk_states_gen w ! c)" if "c < m" for c
    using ok that by (simp_all add: work_ok_def)
  have st: "wk_states w' = (wk_states w)[b := Some s]" and it: "wk_iterations w' = (wk_iterations w)[b := it]"
    and gen: "wk_states_gen w' = (if changed then (wk_states_gen w)[b := wk_states_gen w ! b + 1] else wk_states_gen w)"
    and lst: "wk_list w' = (if changed then worklist_push b (wk_list w) else wk_list w)"
    and prc: "wk_processed_gen w' = wk_processed_gen w"
    and same: "\<not> changed \<Longrightarrow> wk_states w ! b = Some s"
    and abs: "absorbed incoming s" "\<And>old. wk_states w ! b = Some old \<Longrightarrow> absorbed old s"
    and eok: "entry_ok n threshold (Some s) (wk_states_gen w' ! b) it"
    and pot: "potential n threshold (Some s) it + (if changed then 1 else 0)
      \<le> potential n threshold (wk_states w ! b) (wk_iterations w ! b)"
    using step unfolding merge_step_def by blast+
  note up = entry_gen_bound(3) [OF entry [OF b] room] and push = worklist_push_ok [OF wl b]
  have gen_le: "unat (wk_states_gen w ! c) \<le> unat (wk_states_gen w' ! c)" for c
    using up b len by (cases "c = b") (simp_all add: gen)
  have gen_ne: "changed \<Longrightarrow> wk_states_gen w' ! b \<noteq> wk_states_gen w ! b"
    "c \<noteq> b \<or> \<not> changed \<Longrightarrow> wk_states_gen w' ! c = wk_states_gen w ! c" for c
    using b len by (auto simp: gen)
  have entry': "entry_ok n threshold (wk_states w' ! c) (wk_states_gen w' ! c) (wk_iterations w' ! c)" if "c < m" for c
    using eok entry [OF that] gen_ne(2) [of c] len b by (cases "c = b") (simp_all add: st it)
  have prev': "wk_processed_gen w' ! c = - 1 \<or> unat (wk_processed_gen w' ! c) \<le> unat (wk_states_gen w' ! c)" if "c < m" for c
    using prev [OF that] gen_le [of c] unfolding prc by linarith
  show "work_ok m n threshold w'"
    unfolding work_ok_def using entry' prev' len push(1) wl by (simp add: st it gen lst prc)
  have queued: "wl_queued (wk_list w) ! c \<Longrightarrow> wl_queued (wk_list w') ! c" for c
    using push(3) by (simp add: lst)
  show "grows w w'"
    unfolding grows_def
  proof (intro conjI allI impI)
    fix c assume "c < length (wk_states w)"
    show "\<exists>s'. wk_states w' ! c = Some s' \<and> absorbed x s'" if "wk_states w ! c = Some x" for x
      using that abs(2) b len absorbed_refl by (cases "c = b") (auto simp: st)
    show "wk_states w' ! c = wk_states w ! c" if "wk_states_gen w' ! c = wk_states_gen w ! c"
      using that gen_ne(1) same b len by (cases "c = b"; cases changed) (simp_all add: st)
    show "wl_queued (wk_list w') ! c" if "wk_states_gen w' ! c \<noteq> wk_states_gen w ! c"
      using that gen_ne(2) [of c] push(2) by (auto simp: lst)
  qed (use len gen_le queued prc in \<open>simp_all add: st\<close>)
  show "\<exists>s'. wk_states w' ! b = Some s' \<and> absorbed incoming s'" using abs(1) b len by (simp add: st)
  have "(\<Sum>c < m. potential n threshold (wk_states w' ! c) (wk_iterations w' ! c)) + (if changed then 1 else 0)
      \<le> (\<Sum>c < m. potential n threshold (wk_states w ! c) (wk_iterations w ! c))"
    by (rule sum_one [OF b]) (use pot b len in \<open>simp_all add: st it\<close>)
  moreover have "length (wl_queue (wk_list w')) \<le> length (wl_queue (wk_list w)) + (if changed then 1 else 0)"
    using push(4) by (simp add: lst)
  ultimately show "work_left n threshold w' \<le> work_left n threshold w"
    using len by (cases changed) (simp_all add: work_left_def st)
qed

lemma merge_effect:
  assumes ok: "work_ok m n threshold w" and b: "b < m" and room: "gen_room n threshold" and wf: "state_wf n incoming"
  shows "work_ok m n threshold (merge_successor b incoming threshold w)"
    "grows w (merge_successor b incoming threshold w)"
    "\<exists>s'. wk_states (merge_successor b incoming threshold w) ! b = Some s' \<and> absorbed incoming s'"
    "work_left n threshold (merge_successor b incoming threshold w) \<le> work_left n threshold w"
proof -
  have len: "b < length (wk_states_gen w)" "b < length (wk_iterations w)"
    and entry: "entry_ok n threshold (wk_states w ! b) (wk_states_gen w ! b) (wk_iterations w ! b)"
    using ok b by (simp_all add: work_ok_def)
  obtain s it changed where "merge_step n threshold b incoming w (merge_successor b incoming threshold w) s it changed"
    using merge_first [OF len _ entry wf] merge_later [OF len(1) _ entry wf room]
    by (cases "wk_states w ! b") blast+
  note E = merge_step_effect [OF ok b room this]
  show "work_ok m n threshold (merge_successor b incoming threshold w)"
    "grows w (merge_successor b incoming threshold w)"
    "\<exists>s'. wk_states (merge_successor b incoming threshold w) ! b = Some s' \<and> absorbed incoming s'"
    "work_left n threshold (merge_successor b incoming threshold w) \<le> work_left n threshold w"
    by (rule E)+
qed


subsection \<open>One visit\<close>

lemma merge_all_effect:
  assumes "work_ok m n threshold w" "gen_room n threshold" "\<And>e. e \<in> set es \<Longrightarrow> target e < m \<and> state_wf n (inc e)"
  defines "w' \<equiv> fold (\<lambda>e. merge_successor (target e) (inc e) threshold) es w"
  shows "work_ok m n threshold w' \<and> grows w w' \<and> work_left n threshold w' \<le> work_left n threshold w
    \<and> (\<forall>e \<in> set es. \<exists>s. wk_states w' ! target e = Some s \<and> absorbed (inc e) s)"
  using assms(1,3) unfolding w'_def
proof (induction es arbitrary: w)
  case Nil
  then show ?case by (simp add: grows_refl)
next
  case (Cons e es)
  let ?w1 = "merge_successor (target e) (inc e) threshold w"
  have e: "target e < m" "state_wf n (inc e)" using Cons.prems(2) by simp_all
  note M = merge_effect [OF Cons.prems(1) e(1) assms(2) e(2)]
  let ?w2 = "fold (\<lambda>e. merge_successor (target e) (inc e) threshold) es ?w1"
  have IH: "work_ok m n threshold ?w2 \<and> grows ?w1 ?w2 \<and> work_left n threshold ?w2 \<le> work_left n threshold ?w1
    \<and> (\<forall>e \<in> set es. \<exists>s. wk_states ?w2 ! target e = Some s \<and> absorbed (inc e) s)"
    using Cons.IH [OF M(1)] Cons.prems(2) by simp
  have "target e < length (wk_states ?w1)" using M(1) e(1) by (simp add: work_ok_def)
  then have "\<exists>s. wk_states ?w2 ! target e = Some s \<and> absorbed (inc e) s"
    using M(3) IH absorbed_trans unfolding grows_def by meson
  then show ?case using IH M(4) grows_trans [OF M(2)] by auto
qed

definition propagated :: "(graph \<Rightarrow> nat \<Rightarrow> edge list) \<Rightarrow> insn list \<Rightarrow> cfg \<Rightarrow> work \<Rightarrow> nat \<Rightarrow> verifier_state \<Rightarrow> bool" where
  "propagated outs insns cfg w b st \<longleftrightarrow>
     (let last = insns ! (bb_end (g_nodes (c_graph cfg) ! b) - 1) in
      \<exists>current. run_insns insns (block_pcs cfg b) st = Inr current
       \<and> (\<forall>(source, target, kind) \<in> set (outs (c_graph cfg) b). \<exists>s. wk_states w ! target = Some s
            \<and> absorbed (refine_edge current kind (jump_info last) (jump_info_reg last)) s))"

definition targets_ok :: "nat \<Rightarrow> (graph \<Rightarrow> nat \<Rightarrow> edge list) \<Rightarrow> cfg \<Rightarrow> bool" where
  "targets_ok m outs cfg \<longleftrightarrow> (\<forall>b < m. \<forall>(source, target, kind) \<in> set (outs (c_graph cfg) b). target < m)"

lemma propagated_grows:
  assumes "propagated outs insns cfg w b st" "targets_ok m outs cfg" "b < m" "work_ok m n threshold w" "grows w w'"
  shows "propagated outs insns cfg w' b st"
proof -
  have "\<exists>s'. wk_states w' ! t = Some s' \<and> absorbed a s'" if "(src, t, k) \<in> set (outs (c_graph cfg) b)"
    "wk_states w ! t = Some s" "absorbed a s" for src t k s a
  proof -
    have "t < length (wk_states w)" using that(1) assms(2-4) by (fastforce simp: targets_ok_def work_ok_def)
    then show ?thesis using assms(5) that(2,3) absorbed_trans unfolding grows_def by meson
  qed
  then show ?thesis using assms(1) unfolding propagated_def Let_def by fast
qed

definition fixed_ok :: "(graph \<Rightarrow> nat \<Rightarrow> edge list) \<Rightarrow> insn list \<Rightarrow> cfg \<Rightarrow> work \<Rightarrow> bool" where
  "fixed_ok outs insns cfg w \<longleftrightarrow> (\<forall>b < length (wk_states w). \<forall>st. wk_states w ! b = Some st
     \<and> wk_processed_gen w ! b = wk_states_gen w ! b \<longrightarrow> propagated outs insns cfg w b st)"

text \<open>A block whose processed generation is current did not change in a growth.\<close>

lemma current_same:
  assumes "work_ok m n threshold w" "work_ok m n threshold w'" "grows w w'" "gen_room n threshold" "b < m"
    and "wk_processed_gen w' ! b = wk_states_gen w' ! b"
  shows "wk_processed_gen w ! b = wk_states_gen w ! b \<and> wk_states w' ! b = wk_states w ! b"
proof -
  have len: "b < length (wk_states w)" using assms(1,5) by (simp add: work_ok_def)
  note G = assms(3) [unfolded grows_def, THEN conjunct2, THEN conjunct2, rule_format, OF len]
  have prc: "wk_processed_gen w' ! b = wk_processed_gen w ! b" using assms(3) by (simp add: grows_def)
  have "entry_ok n threshold (wk_states w' ! b) (wk_states_gen w' ! b) (wk_iterations w' ! b)"
    using assms(2,5) by (simp add: work_ok_def)
  from entry_gen_bound(2) [OF this assms(4)] have "wk_processed_gen w ! b \<noteq> - 1" using prc assms(6) by simp
  then have "unat (wk_processed_gen w ! b) \<le> unat (wk_states_gen w ! b)" using assms(1,5) by (auto simp: work_ok_def)
  then have "wk_states_gen w' ! b = wk_states_gen w ! b"
    using G prc assms(6) by (metis order_antisym word_unat_eq_iff)
  then show ?thesis using G prc assms(6) by simp
qed


definition pending_but :: "nat set \<Rightarrow> work \<Rightarrow> bool" where
  "pending_but bs w \<longleftrightarrow> (\<forall>b < length (wk_states w). b \<notin> bs \<and> wk_states w ! b \<noteq> None
     \<and> wk_processed_gen w ! b \<noteq> wk_states_gen w ! b \<longrightarrow> wl_queued (wk_list w) ! b)"

lemma pending_grows:
  assumes "pending_but {} w" "grows w w'"
  shows "pending_but {} w'"
  using assms unfolding pending_but_def grows_def by (metis empty_iff)

definition work_inv :: "(graph \<Rightarrow> nat \<Rightarrow> edge list) \<Rightarrow> insn list \<Rightarrow> cfg \<Rightarrow> nat \<Rightarrow> nat \<Rightarrow> nat \<Rightarrow> work \<Rightarrow> bool" where
  "work_inv outs insns cfg m n threshold w \<longleftrightarrow>
     work_ok m n threshold w \<and> pending_but {} w \<and> fixed_ok outs insns cfg w"

lemma visit_block_effect:
  assumes ok: "work_ok m n threshold w" and pend: "pending_but {b} w" and fixed: "fixed_ok outs insns cfg w"
    and b: "b < m" and room: "gen_room n threshold" and targets: "targets_ok m outs cfg"
    and visit: "visit_block outs insns cfg threshold b w = Inr w'"
  shows "work_inv outs insns cfg m n threshold w' \<and> work_left n threshold w' \<le> work_left n threshold w
    \<and> (\<forall>c < m. \<forall>s. wk_states w ! c = Some s \<longrightarrow> (\<exists>s'. wk_states w' ! c = Some s' \<and> absorbed s s'))"
proof (cases "wk_processed_gen w ! b = wk_states_gen w ! b")
  case True
  with visit have "w' = w" by (simp add: visit_block_def)
  with ok pend fixed True show ?thesis
    by (auto simp: work_inv_def pending_but_def intro: absorbed_refl)
next
  case False
  define w1 where "w1 = w\<lparr>wk_processed_gen := (wk_processed_gen w)[b := wk_states_gen w ! b]\<rparr>"
  have len: "length (wk_states w) = m" "length (wk_processed_gen w) = m" using ok by (simp_all add: work_ok_def)
  have ok1: "work_ok m n threshold w1"
    using ok b by (auto simp: work_ok_def w1_def nth_list_update)
  have pend1: "pending_but {} w1" using pend len b by (auto simp: pending_but_def w1_def nth_list_update)
  show ?thesis
  proof (cases "wk_states w ! b")
    case None
    with visit False have "w' = w1" by (simp add: visit_block_def w1_def Let_def)
    moreover have "fixed_ok outs insns cfg w1"
      using fixed None len b by (auto simp: fixed_ok_def propagated_def w1_def nth_list_update split: if_splits)
    ultimately show ?thesis
      using ok1 pend1 by (auto simp: work_inv_def w1_def work_left_def intro: absorbed_refl)
  next
    case (Some st)
    let ?last = "insns ! (bb_end (g_nodes (c_graph cfg) ! b) - 1)"
    from visit False Some obtain current visited seen where
      run: "transfer_insns insns (block_pcs cfg b) st (wk_visited w, wk_total_pc w) = Inr (current, visited, seen)"
      and w': "w' = fold (\<lambda>(source, target, kind).
             merge_successor target (refine_edge current kind (jump_info ?last) (jump_info_reg ?last)) threshold)
           (outs (c_graph cfg) b) (w1\<lparr>wk_visited := visited, wk_total_pc := seen\<rparr>)"
      by (auto simp: visit_block_def w1_def Let_def)
    define w2 where "w2 = w1\<lparr>wk_visited := visited, wk_total_pc := seen\<rparr>"
    have ok2: "work_ok m n threshold w2" using ok1 by (simp add: work_ok_def w2_def)
    have pend2: "pending_but {} w2" using pend1 by (simp add: pending_but_def w2_def)
    have wf: "state_wf n current"
      using ok b Some transfer_insns_wf [OF run] by (auto simp: work_ok_def entry_ok_def)
    have E: "work_ok m n threshold w' \<and> grows w2 w' \<and> work_left n threshold w' \<le> work_left n threshold w2
      \<and> (\<forall>e \<in> set (outs (c_graph cfg) b). \<exists>s. wk_states w' ! fst (snd e) = Some s
           \<and> absorbed (refine_edge current (snd (snd e)) (jump_info ?last) (jump_info_reg ?last)) s)"
      using merge_all_effect [OF ok2 room, of "outs (c_graph cfg) b" "\<lambda>e. fst (snd e)"
          "\<lambda>e. refine_edge current (snd (snd e)) (jump_info ?last) (jump_info_reg ?last)"] targets b wf
      by (auto simp: w' w2_def [symmetric] targets_ok_def case_prod_unfold)
    have left: "work_left n threshold w2 = work_left n threshold w" by (simp add: work_left_def w2_def w1_def)
    have st2: "wk_states w2 = wk_states w" "wk_states_gen w2 = wk_states_gen w"
      "wk_processed_gen w2 ! c = (if c = b then wk_states_gen w ! b else wk_processed_gen w ! c)" for c
      using len b by (simp_all add: w2_def w1_def)
    have "propagated outs insns cfg w' c s"
      if c: "c < m" "wk_states w' ! c = Some s" "wk_processed_gen w' ! c = wk_states_gen w' ! c" for c s
    proof -
      note same = current_same [OF ok2 _ _ room c(1,3)]
      show ?thesis
      proof (cases "c = b")
        case True
        then have "s = st" using same E c(2) Some by (simp add: st2)
        then show ?thesis
          using E transfer_insns_run [OF run] True unfolding propagated_def Let_def by fastforce
      next
        case False
        then have "propagated outs insns cfg w c s"
          using same E c fixed len by (auto simp: st2 fixed_ok_def)
        then have "propagated outs insns cfg w2 c s" by (simp add: propagated_def st2)
        then show ?thesis using propagated_grows [OF _ targets c(1) ok2] E by blast
      qed
    qed
    then have "fixed_ok outs insns cfg w'" using E by (simp add: fixed_ok_def work_ok_def)
    moreover have "\<exists>s'. wk_states w' ! c = Some s' \<and> absorbed s s'" if "c < m" "wk_states w ! c = Some s" for c s
      using E that len by (simp add: grows_def st2)
    ultimately show ?thesis
      using E left pending_grows [OF pend2] by (auto simp: work_inv_def)
  qed
qed

section \<open>The count of visited instructions\<close>

definition visited_ok :: "insn list \<Rightarrow> work \<Rightarrow> bool" where
  "visited_ok insns w \<longleftrightarrow> length (wk_visited w) = length insns \<and> wk_total_pc w = length (filter id (wk_visited w))"

lemma count_mark:
  "pc < length v \<Longrightarrow> \<not> v ! pc \<Longrightarrow> length (filter id (v[pc := True])) = length (filter id v) + 1"
proof (induction v arbitrary: pc)
  case (Cons x v)
  then show ?case by (cases pc) auto
qed simp

lemma transfer_insns_visited:
  assumes "transfer_insns insns pcs st (v, k) = Inr (st', v', k')" "\<forall>pc \<in> set pcs. pc < length v"
    and "k = length (filter id v)"
  shows "length v' = length v \<and> k' = length (filter id v')"
  using assms
proof (induction insns pcs st "(v, k)" arbitrary: v k rule: transfer_insns.induct)
  case (2 insns pc pcs st v k)
  from 2(2) obtain st1 where c: "check_and_transfer pc (insns ! pc) st = Inr st1"
    and r: "transfer_insns insns pcs st1 (if \<not> v ! pc then (v[pc := True], k + 1) else (v, k)) = Inr (st', v', k')"
    by auto
  show ?case
  proof (cases "v ! pc")
    case True
    then show ?thesis using "2.hyps" [of st1 v k] c r 2(3,4) by simp
  next
    case False
    then show ?thesis using "2.hyps" [of st1 "v[pc := True]" "k + 1"] c r 2(3,4) count_mark [of pc v] by simp
  qed
qed simp

lemma merge_visited [simp]:
  "wk_visited (merge_successor b s t w) = wk_visited w" "wk_total_pc (merge_successor b s t w) = wk_total_pc w"
  by (cases "wk_states w ! b"; simp add: merge_successor_def bump_def Let_def split: prod.split)+

lemma merge_all_visited:
  "visited_ok insns (fold (\<lambda>(s, t, k). merge_successor t (f k) th) es w) = visited_ok insns w"
proof (induction es arbitrary: w)
  case (Cons e es)
  then show ?case by (cases e) (simp add: visited_ok_def)
qed simp

lemma visit_block_visited:
  assumes "visit_block outs insns cfg th b w = Inr w'" "visited_ok insns w"
    and "\<forall>pc \<in> set (block_pcs cfg b). pc < length insns"
  shows "visited_ok insns w'"
proof (cases "wk_processed_gen w ! b = wk_states_gen w ! b \<or> wk_states w ! b = None")
  case True
  then show ?thesis using assms(1,2) by (auto simp: visit_block_def Let_def visited_ok_def split: if_splits)
next
  case False
  then obtain st cur v k where t: "transfer_insns insns (block_pcs cfg b) st (wk_visited w, wk_total_pc w) = Inr (cur, v, k)"
    and w': "w' = fold (\<lambda>(source, target, kind). merge_successor target
        (refine_edge cur kind (jump_info (insns ! (bb_end (g_nodes (c_graph cfg) ! b) - 1)))
          (jump_info_reg (insns ! (bb_end (g_nodes (c_graph cfg) ! b) - 1)))) th)
       (outs (c_graph cfg) b) (w\<lparr>wk_processed_gen := (wk_processed_gen w)[b := wk_states_gen w ! b],
          wk_visited := v, wk_total_pc := k\<rparr>)"
    using assms(1) by (auto simp: visit_block_def Let_def)
  from transfer_insns_visited [OF t] assms(2,3) have "length v = length insns \<and> k = length (filter id v)"
    by (simp add: visited_ok_def)
  then show ?thesis unfolding w' merge_all_visited by (simp add: visited_ok_def)
qed

text \<open>The analysis returns; what it returns is a post-fixpoint or the error of a block.\<close>

lemma verify_loop_result:
  assumes "work_inv outs insns cfg m n threshold w" "gen_room n threshold" "targets_ok m outs cfg"
    and "e < m" "wk_states w ! e = Some s0"
    and pcs: "\<forall>b < m. \<forall>pc \<in> set (block_pcs cfg b). pc < length insns" and "visited_ok insns w"
  shows "\<exists>r. verify_loop outs insns cfg threshold w = Some r \<and>
    (case r of
       Inl err \<Rightarrow> \<exists>b < m. \<exists>st. run_insns insns (block_pcs cfg b) st = Inl err
     | Inr w' \<Rightarrow> visited_ok insns w' \<and> work_inv outs insns cfg m n threshold w' \<and> wl_queue (wk_list w') = []
         \<and> (\<exists>s. wk_states w' ! e = Some s \<and> absorbed s0 s))"
  using assms(1,5,7)
proof (induction "work_left n threshold w" arbitrary: w s0 rule: less_induct)
  case less
  have ok: "work_ok m n threshold w" and pend: "pending_but {} w" and fixed: "fixed_ok outs insns cfg w"
    using less.prems(1) by (simp_all add: work_inv_def)
  show ?case
  proof (cases "worklist_pop (wk_list w)")
    case (Pair x wl)
    show ?thesis
    proof (cases x)
      case None
      then have "wl_queue (wk_list w) = []" using Pair by (auto simp: worklist_pop_def split: list.splits)
      with None Pair less.prems show ?thesis
        by (subst verify_loop.simps) (auto intro: absorbed_refl)
    next
      case (Some b)
      let ?w = "w\<lparr>wk_list := wl\<rparr>"
      note P = worklist_pop_ok [OF _ Pair [unfolded Some]]
      have wl: "worklist_ok m (wk_list w)" using ok by (simp add: work_ok_def)
      have ok': "work_ok m n threshold ?w" using ok P(1) [OF wl] by (simp add: work_ok_def)
      have pend': "pending_but {b} ?w" using pend P(5) [OF wl] by (auto simp: pending_but_def)
      have fixed': "fixed_ok outs insns cfg ?w" using fixed by (simp add: fixed_ok_def propagated_def)
      have left: "work_left n threshold ?w < work_left n threshold w" using P(4) [OF wl] by (simp add: work_left_def)
      show ?thesis
      proof (cases "visit_block outs insns cfg threshold b ?w")
        case (Inl err)
        then have "\<exists>st. run_insns insns (block_pcs cfg b) st = Inl err"
          by (auto simp: visit_block_def Let_def bind_res_eq_Inl split: if_splits option.splits dest: transfer_insns_error)
        with Inl Pair Some P(2) [OF wl] show ?thesis by (subst verify_loop.simps) auto
      next
        case (Inr w')
        note V = visit_block_effect [OF ok' pend' fixed' P(2) [OF wl] assms(2,3) Inr]
        obtain s1 where s1: "wk_states w' ! e = Some s1" "absorbed s0 s1"
          using V assms(4) less.prems(2) by auto
        have vis: "visited_ok insns w'"
          using visit_block_visited [OF Inr] less.prems(3) pcs P(2) [OF wl] by (simp add: visited_ok_def)
        have "work_left n threshold w' < work_left n threshold w" using V left by linarith
        from less.hyps [OF this _ s1(1) vis] V s1(2) absorbed_trans
        show ?thesis using Pair Some Inr by (subst verify_loop.simps) (fastforce split: sum.splits)
      qed
    qed
  qed
qed

end
