(* ===== verification/VFix.thy ===== *)
theory VFix
  imports VWork
begin

text \<open>
  The fixpoint of the worklist against the machine: the start of the analysis satisfies the
  worklist's invariant, so the loop of \<open>verify_core\<close> returns; and what it returns describes every
  machine the interpreter can reach.
\<close>

section \<open>Graphs\<close>

text \<open>What petgraph documents of \<open>Graph::edges\<close>: the edges that leave a node, in some order.\<close>

definition outs_spec :: "(graph \<Rightarrow> nat \<Rightarrow> edge list) \<Rightarrow> graph \<Rightarrow> bool" where
  "outs_spec outs g \<longleftrightarrow> (\<forall>b. set (outs g b) = {e \<in> set (g_edges g). fst e = b})"

text \<open>petgraph walks a node's edges from the newest to the oldest.\<close>

definition newest_first :: "graph \<Rightarrow> nat \<Rightarrow> edge list" where
  "newest_first g b = rev (filter (\<lambda>e. fst e = b) (g_edges g))"

lemma newest_first_spec: "outs_spec newest_first g"
  by (auto simp: outs_spec_def newest_first_def)

lemma block_of_pc:
  assumes "build_cfg po insns = Some (Inr cfg)" "pc < length insns"
  shows "block_at cfg pc < length (g_nodes (c_graph cfg))"
    "bb_start (g_nodes (c_graph cfg) ! block_at cfg pc) \<le> pc"
    "pc < bb_end (g_nodes (c_graph cfg) ! block_at cfg pc)"
    "bb_end (g_nodes (c_graph cfg) ! block_at cfg pc) \<le> length insns"
proof -
  from assms(1) obtain ls where ok: "leaders_ok ls (length insns)"
    and len: "length (g_nodes (c_graph cfg)) = length ls"
    and node: "\<And>k. k < length ls \<Longrightarrow> g_nodes (c_graph cfg) ! k =
       \<lparr>bb_start = ls ! k, bb_end = range_end ls (length insns) k\<rparr>"
    and blk: "\<And>k pc. k < length ls \<Longrightarrow> ls ! k \<le> pc \<Longrightarrow> pc < range_end ls (length insns) k \<Longrightarrow> block_at cfg pc = k"
    by (rule build_cfg_built) blast
  obtain k where k: "k < length ls" "ls ! k \<le> pc" "pc < range_end ls (length insns) k"
    using range_cover [OF ok assms(2)] by blast
  have "block_at cfg pc = k" by (rule blk [OF k])
  then show "block_at cfg pc < length (g_nodes (c_graph cfg))"
    "bb_start (g_nodes (c_graph cfg) ! block_at cfg pc) \<le> pc"
    "pc < bb_end (g_nodes (c_graph cfg) ! block_at cfg pc)"
    "bb_end (g_nodes (c_graph cfg) ! block_at cfg pc) \<le> length insns"
    using k len node range_bounds(2) [OF ok k(1)] by simp_all
qed

lemma edge_target_bound:
  assumes "build_cfg po insns = Some (Inr cfg)" "(a, b, kind) \<in> set (g_edges (c_graph cfg))"
  shows "b < length (g_nodes (c_graph cfg))"
proof -
  from assms obtain pc' where "b = block_at cfg pc'" "pc' < length insns"
    by (rule_tac build_cfg_built [OF assms(1)]) (auto simp: transfers_def)
  with block_of_pc(1) [OF assms(1)] show ?thesis by simp
qed

lemma built_targets_ok:
  assumes "build_cfg po insns = Some (Inr cfg)" "outs_spec outs (c_graph cfg)"
  shows "targets_ok (length (g_nodes (c_graph cfg))) outs cfg"
  unfolding targets_ok_def using edge_target_bound [OF assms(1)] assms(2) by (auto simp: outs_spec_def)

lemma built_entry:
  assumes "build_cfg po insns = Some (Inr cfg)"
  shows "c_entry cfg = 0" "block_at cfg 0 = 0" "0 < length (g_nodes (c_graph cfg))" "c_rpo cfg = rev (po (c_graph cfg) 0)"
    "bb_start (g_nodes (c_graph cfg) ! 0) = 0" "insns \<noteq> []"
proof -
  show ne: "insns \<noteq> []" using assms by (auto simp: build_cfg_def)
  then have facts: "c_entry cfg = 0 \<and> c_rpo cfg = rev (po (c_graph cfg) 0)"
    by (cases rule: build_cfg_cases [where po = po]) (use assms in auto)
  then show "c_entry cfg = 0" "c_rpo cfg = rev (po (c_graph cfg) 0)" by blast+
  from assms obtain ls where ok: "leaders_ok ls (length insns)"
    and len: "length (g_nodes (c_graph cfg)) = length ls"
    and node: "\<And>k. k < length ls \<Longrightarrow> g_nodes (c_graph cfg) ! k =
       \<lparr>bb_start = ls ! k, bb_end = range_end ls (length insns) k\<rparr>"
    and blk: "\<And>k pc. k < length ls \<Longrightarrow> ls ! k \<le> pc \<Longrightarrow> pc < range_end ls (length insns) k \<Longrightarrow> block_at cfg pc = k"
    by (rule build_cfg_built) blast
  have ls: "ls \<noteq> []" "ls ! 0 = 0" using ok by (auto simp: leaders_ok_def hd_conv_nth)
  then show "0 < length (g_nodes (c_graph cfg))" "bb_start (g_nodes (c_graph cfg) ! 0) = 0"
    using len node by simp_all
  show "block_at cfg 0 = 0" using blk [of 0 0] ls range_bounds(1) [OF ok, of 0] by simp
qed

lemma block_pcs_bound:
  assumes "build_cfg po insns = Some (Inr cfg)"
  shows "\<forall>b < length (g_nodes (c_graph cfg)). \<forall>pc \<in> set (block_pcs cfg b). pc < length insns"
proof (intro allI impI ballI)
  fix b pc assume b: "b < length (g_nodes (c_graph cfg))" "pc \<in> set (block_pcs cfg b)"
  from assms(1) obtain ls where ok: "leaders_ok ls (length insns)"
    and len: "length (g_nodes (c_graph cfg)) = length ls"
    and node: "\<And>k. k < length ls \<Longrightarrow> g_nodes (c_graph cfg) ! k =
       \<lparr>bb_start = ls ! k, bb_end = range_end ls (length insns) k\<rparr>"
    by (rule build_cfg_built) blast
  have "range_end ls (length insns) b \<le> length insns"
    using range_bounds(2) [OF ok] b(1) len by simp
  then show "pc < length insns" using b node len by (simp add: block_pcs_def Let_def)
qed

lemma rpo_bounds:
  assumes "build_cfg po insns = Some (Inr cfg)" "post_order_spec po (c_graph cfg)"
  shows "0 \<in> set (c_rpo cfg)" "\<forall>b \<in> set (c_rpo cfg). b < length (g_nodes (c_graph cfg))"
proof -
  note E = built_entry [OF assms(1)]
  have set: "set (c_rpo cfg) = (edge_rel (c_graph cfg))\<^sup>* `` {0}"
    using assms(2) E(3,4) by (simp add: post_order_spec_def)
  then show "0 \<in> set (c_rpo cfg)" by simp
  have "b < length (g_nodes (c_graph cfg))" if "(0, b) \<in> (edge_rel (c_graph cfg))\<^sup>*" for b
    using that by (induction) (use E(3) edge_target_bound [OF assms(1)] in \<open>auto simp: edge_rel_def\<close>)
  with set show "\<forall>b \<in> set (c_rpo cfg). b < length (g_nodes (c_graph cfg))" by auto
qed


section \<open>The start of the analysis\<close>

lemma push_all_ok:
  assumes "worklist_ok m wl" "\<forall>b \<in> set bs. b < m"
  shows "worklist_ok m (fold worklist_push bs wl) \<and> (\<forall>b. b \<in> set bs \<or> wl_queued wl ! b \<longrightarrow> wl_queued (fold worklist_push bs wl) ! b)"
  using assms
proof (induction bs arbitrary: wl)
  case (Cons b bs)
  then show ?case using worklist_push_ok [of m wl b] by simp
qed simp

lemma start_inv:
  assumes cfg: "build_cfg po insns = Some (Inr cfg)" and po: "post_order_spec po (c_graph cfg)"
    and w_def: "w = verify_start cyclic insns cfg config"
  shows "work_inv outs insns cfg (length (g_nodes (c_graph cfg))) (length (build_map_table config)) threshold w"
    "wk_states w ! 0 = Some (entry_state config)"
proof -
  let ?m = "length (g_nodes (c_graph cfg))"
  note E = built_entry [OF cfg]
  have "worklist_ok ?m (worklist_with_capacity ?m)" by (simp add: worklist_ok_def worklist_with_capacity_def)
  note Q = push_all_ok [OF this rpo_bounds(2) [OF cfg po]]
  have fields: "wk_states w = (replicate ?m None)[0 := Some (entry_state config)]"
    "wk_states_gen w = (replicate ?m 0)[0 := 1]" "wk_processed_gen w = replicate ?m (- 1)"
    "wk_iterations w = replicate ?m 0" "wk_list w = fold worklist_push (c_rpo cfg) (worklist_with_capacity ?m)"
    by (simp_all add: w_def verify_start_def Let_def E(1))
  have at: "wk_states w ! b = (if b = 0 then Some (entry_state config) else None)"
    "wk_states_gen w ! b = (if b = 0 then 1 else 0)" if "b < ?m" for b
    using that E(3) by (cases "b = 0"; simp add: fields)+
  show "wk_states w ! 0 = Some (entry_state config)" using at(1) [OF E(3)] by simp
  have "entry_ok (length (build_map_table config)) threshold (wk_states w ! b) (wk_states_gen w ! b) (wk_iterations w ! b)"
    if "b < ?m" for b
    using at [OF that] that entry_wf [of config] by (simp add: entry_ok_def fields)
  then have "work_ok ?m (length (build_map_table config)) threshold w"
    using Q by (simp add: work_ok_def fields)
  moreover have "pending_but {} w"
    using Q rpo_bounds(1) [OF cfg po] at by (auto simp: pending_but_def fields)
  moreover have "fixed_ok outs insns cfg w"
    using at by (auto simp: fixed_ok_def fields)
  ultimately show "work_inv outs insns cfg ?m (length (build_map_table config)) threshold w"
    by (simp add: work_inv_def)
qed



section \<open>Reachable machines\<close>

text \<open>Every transfer of the block is sound, from the state the analysis settled on.\<close>

fun block_sound :: "insn list \<Rightarrow> nat list \<Rightarrow> verifier_state \<Rightarrow> bool" where
  "block_sound insns [] st = True"
| "block_sound insns (pc # pcs) st =
     (sound_at st (insns ! pc) \<and>
      (case check_and_transfer pc (insns ! pc) st of Inr st' \<Rightarrow> block_sound insns pcs st' | Inl e \<Rightarrow> True))"

definition fixpoint_sound :: "insn list \<Rightarrow> cfg \<Rightarrow> work \<Rightarrow> bool" where
  "fixpoint_sound insns cfg w = list_all (\<lambda>b. case wk_states w ! b of
       None \<Rightarrow> True | Some st \<Rightarrow> block_sound insns (block_pcs cfg b) st) [0..<length (wk_states w)]"

lemma block_sound_at:
  "block_sound insns (xs @ pc # ys) st \<Longrightarrow> run_insns insns xs st = Inr st' \<Longrightarrow> sound_at st' (insns ! pc)"
  by (induction xs arbitrary: st) auto

definition fixpoint :: "(graph \<Rightarrow> nat \<Rightarrow> edge list) \<Rightarrow> insn list \<Rightarrow> cfg \<Rightarrow> nat \<Rightarrow> work \<Rightarrow> bool" where
  "fixpoint outs insns cfg n w \<longleftrightarrow> length (wk_states w) = length (g_nodes (c_graph cfg))
     \<and> (\<forall>b < length (wk_states w). \<forall>st. wk_states w ! b = Some st \<longrightarrow>
           state_wf n st \<and> propagated outs insns cfg w b st)"

lemma inv_fixpoint:
  assumes "work_inv outs insns cfg (length (g_nodes (c_graph cfg))) n threshold w" "wl_queue (wk_list w) = []"
  shows "fixpoint outs insns cfg n w"
proof -
  let ?m = "length (g_nodes (c_graph cfg))"
  have ok: "work_ok ?m n threshold w" "pending_but {} w" "fixed_ok outs insns cfg w"
    using assms(1) by (simp_all add: work_inv_def)
  have len: "length (wk_states w) = ?m" using ok(1) by (simp add: work_ok_def)
  have "worklist_ok ?m (wk_list w)" using ok(1) by (simp add: work_ok_def)
  then have idle: "\<not> wl_queued (wk_list w) ! b" if "b < ?m" for b
    using that assms(2) by (auto simp: worklist_ok_def)
  have "state_wf n st \<and> propagated outs insns cfg w b st" if "b < ?m" "wk_states w ! b = Some st" for b st
  proof
    show "state_wf n st" using ok(1) that by (auto simp: work_ok_def entry_ok_def)
    have "wk_processed_gen w ! b = wk_states_gen w ! b"
      using ok(2) idle [OF that(1)] that len by (auto simp: pending_but_def)
    then show "propagated outs insns cfg w b st" using ok(3) that len by (auto simp: fixed_ok_def)
  qed
  then show ?thesis using len by (simp add: fixpoint_def)
qed

definition covered :: "insn list \<Rightarrow> cfg \<Rightarrow> nat \<Rightarrow> work \<Rightarrow> 'c vm \<Rightarrow> bool" where
  "covered insns cfg n w vm \<longleftrightarrow> v_exec vm = load insns \<and>
     (v_pc vm = length insns \<or>
      v_pc vm < length insns \<and> (\<exists>entry st. wk_states w ! block_at cfg (v_pc vm) = Some entry
        \<and> run_insns insns [bb_start (g_nodes (c_graph cfg) ! block_at cfg (v_pc vm))..<v_pc vm] entry = Inr st
        \<and> describes n st vm))"

lemma describes_absorbed:
  "describes n a vm \<Longrightarrow> absorbed a b \<Longrightarrow> state_wf n b \<Longrightarrow> describes n b vm"
  using absorbed_gamma [of a b] by (auto simp: describes_def)

lemma covered_step:
  assumes cov: "covered insns cfg n w vm" and pc: "v_pc vm < length insns"
    and cfg: "build_cfg po insns = Some (Inr cfg)" and outs: "outs_spec outs (c_graph cfg)"
    and fp: "fixpoint outs insns cfg n w" and sound: "fixpoint_sound insns cfg w"
    and wf: "list_all wf_insn insns" "slot_total insns < 2 ^ 32"
  shows "case step custom vm of
      (Continue, vm') \<Rightarrow> covered insns cfg n w vm'
        \<and> (v_pc vm' = length insns \<or> (\<exists>kind. transfers insns (v_pc vm) kind (v_pc vm')))
    | (SExit c, vm') \<Rightarrow> True | _ \<Rightarrow> False"
proof -
  let ?pc = "v_pc vm"
  let ?b = "block_at cfg ?pc" and ?g = "c_graph cfg"
  let ?s = "bb_start (g_nodes ?g ! ?b)" and ?e = "bb_end (g_nodes ?g ! ?b)"
  note B = block_of_pc [OF cfg pc]
  have len: "length (wk_states w) = length (g_nodes ?g)" using fp by (simp add: fixpoint_def)
  from cov pc obtain entry st where exec: "v_exec vm = load insns" and entry: "wk_states w ! ?b = Some entry"
    and run: "run_insns insns [?s..<?pc] entry = Inr st" and d: "describes n st vm"
    by (auto simp: covered_def)
  have split: "block_pcs cfg ?b = [?s..<?pc] @ ?pc # [?pc + 1..<?e]"
    using B upt_add_eq_append [of ?s ?pc "?e - ?pc"] by (simp add: block_pcs_def Let_def upt_conv_Cons)
  have "propagated outs insns cfg w ?b entry" using fp entry B(1) len by (simp add: fixpoint_def)
  then obtain current where all: "run_insns insns (block_pcs cfg ?b) entry = Inr current"
    and succ: "\<And>t k. (?b, t, k) \<in> set (g_edges ?g) \<Longrightarrow> \<exists>s. wk_states w ! t = Some s
        \<and> absorbed (refine_edge current k (jump_info (insns ! (?e - 1))) (jump_info_reg (insns ! (?e - 1)))) s"
    using outs unfolding propagated_def Let_def outs_spec_def by fastforce
  obtain st1 where st1: "check_and_transfer ?pc (insns ! ?pc) st = Inr st1"
    and rest: "run_insns insns [?pc + 1..<?e] st1 = Inr current"
    using all run unfolding split run_insns_append by auto
  have here: "run_insns insns [?s..<?pc + 1] entry = Inr st1"
    using run st1 B(2) by (simp add: run_insns_append)
  have "block_sound insns (block_pcs cfg ?b) entry"
    using sound [unfolded fixpoint_sound_def list_all_iff, rule_format, of ?b] entry B(1) len by simp
  then have good: "sound_at st (insns ! ?pc)" unfolding split using run by (rule block_sound_at)
  have "wf_insn (insns ! ?pc)" using wf(1) pc by (simp add: list_all_length)
  from transfer_step_sound [OF d pc refl exec this st1 good wf(2)] build_cfg_resolves [OF cfg pc]
  have S: "step_sound n insns ?pc st1 (step custom vm)" by blast
  have move: "covered insns cfg n w vm' \<and> (v_pc vm' = length insns \<or> (\<exists>kind. transfers insns ?pc kind (v_pc vm')))" if "step custom vm = (Continue, vm')" for vm'
  proof -
    from S that have exec': "v_exec vm' = load insns"
      and alt: "v_pc vm' = length insns \<or> (\<exists>kind. transfers insns ?pc kind (v_pc vm')
        \<and> describes n (refine_edge st1 kind (jump_info (insns ! ?pc)) (jump_info_reg (insns ! ?pc))) vm')"
      by (simp_all add: step_sound_def)
    have "covered insns cfg n w vm'"
    proof (cases "v_pc vm' = length insns")
      case False
      then obtain kind where t: "transfers insns ?pc kind (v_pc vm')"
        and d': "describes n (refine_edge st1 kind (jump_info (insns ! ?pc)) (jump_info_reg (insns ! ?pc))) vm'"
        using alt by blast
      have pc': "v_pc vm' < length insns" using t by (simp add: transfers_def)
      from build_cfg_simulates_aux [OF cfg t] show ?thesis
      proof (elim disjE conjE)
        assume "block_at cfg (v_pc vm') = ?b" "kind = Fallthrough" "v_pc vm' = ?pc + 1"
        with here entry d' exec' pc' show ?thesis
          unfolding covered_def by (simp add: refine_edge_def)
      next
        assume e: "(?b, block_at cfg (v_pc vm'), kind) \<in> set (g_edges ?g)" and last: "?pc + 1 = ?e"
          and start: "v_pc vm' = bb_start (g_nodes ?g ! block_at cfg (v_pc vm'))"
        have cur: "current = st1" "insns ! (?e - 1) = insns ! ?pc" using rest last [symmetric] by simp_all
        from succ [OF e] obtain s where s: "wk_states w ! block_at cfg (v_pc vm') = Some s"
          "absorbed (refine_edge st1 kind (jump_info (insns ! ?pc)) (jump_info_reg (insns ! ?pc))) s"
          unfolding cur by blast
        have "state_wf n s" using fp s(1) block_of_pc(1) [OF cfg pc'] len by (simp add: fixpoint_def)
        from describes_absorbed [OF d' s(2) this] s(1) exec' pc' start [symmetric] show ?thesis
          unfolding covered_def by simp
      qed
    qed (use exec' in \<open>simp add: covered_def\<close>)
    with alt show ?thesis by blast
  qed
  show ?thesis
  proof (cases "step custom vm")
    case (Pair r vm')
    with move S show ?thesis by (cases r) (simp_all add: step_sound_def)
  qed
qed


lemma covered_reachable:
  assumes "reachable custom start vm" "covered insns cfg n w start"
    and "build_cfg po insns = Some (Inr cfg)" "outs_spec outs (c_graph cfg)"
    and "fixpoint outs insns cfg n w" "fixpoint_sound insns cfg w"
    and "list_all wf_insn insns" "slot_total insns < 2 ^ 32"
  shows "covered insns cfg n w vm"
  using assms(1)
proof (induction rule: reachable.induct)
  case (reach_step vm vm')
  then have "v_pc vm < length insns"
    by (auto simp: covered_def step_def split: if_splits)
  from covered_step [OF reach_step.IH this assms(3-8), of custom] reach_step.hyps(2) show ?case by simp
qed (rule assms(2))

text \<open>The loop of \<open>verify_core\<close>, as one fact.\<close>

lemma fixpoint_result:
  assumes cfg: "build_cfg po insns = Some (Inr cfg)" and po: "post_order_spec po (c_graph cfg)"
    and outs: "outs_spec outs (c_graph cfg)"
    and room: "gen_room (length (build_map_table config)) (vc_widening_threshold config)"
  shows "\<exists>r. verify_fixpoint outs cyclic insns cfg config = Some r \<and>
    (case r of
       Inl e \<Rightarrow> \<exists>b < length (g_nodes (c_graph cfg)). \<exists>st. run_insns insns (block_pcs cfg b) st = Inl e
     | Inr w \<Rightarrow> visited_ok insns w \<and> fixpoint outs insns cfg (length (build_map_table config)) w
         \<and> (\<exists>s. wk_states w ! 0 = Some s \<and> absorbed (entry_state config) s))"
proof -
  note S = start_inv [OF cfg po refl, where config = config and cyclic = cyclic]
  have "visited_ok insns (verify_start cyclic insns cfg config)"
    by (simp add: visited_ok_def verify_start_def Let_def)
  from verify_loop_result [OF S(1) room built_targets_ok [OF cfg outs] built_entry(3) [OF cfg] S(2)
      block_pcs_bound [OF cfg] this]
  obtain r where r: "verify_fixpoint outs cyclic insns cfg config = Some r"
    and R: "case r of
       Inl err \<Rightarrow> \<exists>b < length (g_nodes (c_graph cfg)). \<exists>st. run_insns insns (block_pcs cfg b) st = Inl err
     | Inr w' \<Rightarrow> visited_ok insns w' \<and> work_inv outs insns cfg (length (g_nodes (c_graph cfg)))
           (length (build_map_table config)) (vc_widening_threshold config) w' \<and> wl_queue (wk_list w') = []
         \<and> (\<exists>s. wk_states w' ! 0 = Some s \<and> absorbed (entry_state config) s)"
    unfolding verify_fixpoint_def by blast
  show ?thesis
  proof (cases r)
    case (Inr w)
    then show ?thesis using r R inv_fixpoint [of outs insns cfg] by auto
  qed (use r R in simp)
qed

lemma start_covered:
  assumes cfg: "build_cfg po insns = Some (Inr cfg)"
    and fp: "fixpoint outs insns cfg (length (build_map_table config)) w" "wk_states w ! 0 = Some s" "absorbed (entry_state config) s"
    and d: "describes (length (build_map_table config)) (entry_state config) vm" "v_pc vm = 0" "v_exec vm = load insns"
  shows "covered insns cfg (length (build_map_table config)) w vm"
proof -
  note E = built_entry [OF cfg]
  have "0 < length (wk_states w)" using fp(1) E(3) by (simp add: fixpoint_def)
  then have "state_wf (length (build_map_table config)) s" using fp(1,2) unfolding fixpoint_def by blast
  from describes_absorbed [OF d(1) fp(3) this] show ?thesis
    using d(2,3) E fp(2) by (simp add: covered_def)
qed


section \<open>Every reachable machine\<close>

lemma fixpoint_safe:
  assumes "build_cfg po insns = Some (Inr cfg)" "post_order_spec po (c_graph cfg)" "outs_spec outs (c_graph cfg)"
    and "gen_room (length (build_map_table config)) (vc_widening_threshold config)"
    and "verify_fixpoint outs cyclic insns cfg config = Some (Inr w)" "fixpoint_sound insns cfg w"
    and "list_all wf_insn insns" "slot_total insns < 2 ^ 32"
    and "build_stores (vc_maps config) = Inr stores" "maps_ok stores"
    and "vc_packet_len config = map_option length packet" "\<forall>p. packet = Some p \<longrightarrow> length p < 0x10000"
    and "vc_data_len config = map_option length data" "\<forall>d. data = Some d \<longrightarrow> length d < 2 ^ 62"
    and "reachable custom (start_vm insns stores data packet) vm"
  shows "v_pc vm = length insns \<or>
    (case fst (step custom vm) of Continue \<Rightarrow> True | SExit code \<Rightarrow> True | SError e \<Rightarrow> False | Panic \<Rightarrow> False)"
proof -
  from fixpoint_result [OF assms(1-4), of cyclic] assms(5) obtain s where
    fp: "fixpoint outs insns cfg (length (build_map_table config)) w" "wk_states w ! 0 = Some s"
      "absorbed (entry_state config) s" by auto
  have "describes (length (build_map_table config)) (entry_state config) (start_vm insns stores data packet)"
    by (rule entry_described [OF assms(7,9-14)])
  from start_covered [OF assms(1) fp this]
  have start: "covered insns cfg (length (build_map_table config)) w (start_vm insns stores data packet)" by simp
  have cov: "covered insns cfg (length (build_map_table config)) w vm"
    by (rule covered_reachable [OF assms(15) start assms(1,3) fp(1) assms(6-8)])
  show ?thesis
  proof (cases "v_pc vm = length insns")
    case False
    with cov have "v_pc vm < length insns" by (simp add: covered_def)
    from covered_step [OF cov this assms(1,3) fp(1) assms(6-8), of custom] show ?thesis
      by (auto split: prod.splits step_result.splits)
  qed simp
qed

end
