(* ===== verification/Bound.thy ===== *)
theory Bound
  imports VStep "HOL-Library.Product_Lexorder"
begin

text \<open>
  The iteration bounds of \<open>crates/ebpf-verifier/src/bound.rs\<close>: natural loops, strides, counter
  provenance, the trip arithmetic and the budget.  petgraph's dominators, incoming and outgoing
  edges are parameters.  A body, a \<open>HashSet\<close> in the code, is the list of its nodes in the order of
  insertion; every result that scans a body either sums over it or fails the same way in any order.
  The walk that collects a body is a \<open>partial_function\<close>; \<open>loop_body_spec\<close> shows that it returns.
\<close>

type_synonym edge_view = "graph \<Rightarrow> nat \<Rightarrow> edge list"

record loop_bound =
  lb_header :: nat
  lb_latch :: nat
  lb_cond_pc :: nat
  lb_trips :: nat
  lb_steps :: nat

record natural_loop =
  nl_header :: nat
  nl_latch :: nat
  nl_body :: "nat list"

text \<open>The continue-condition after normalization: bound, strictness, signedness.\<close>

datatype cc = Below int bool bool | Above int bool bool | CcEq int bool

definition unbounded_at :: "nat \<Rightarrow> verify_error" where
  "unbounded_at pc = UnboundedLoop pc"


section \<open>Natural loops\<close>

definition dominates :: "(nat \<Rightarrow> nat list option) \<Rightarrow> nat \<Rightarrow> nat \<Rightarrow> bool" where
  "dominates idoms a b = (case idoms b of None \<Rightarrow> False | Some ds \<Rightarrow> a \<in> set ds)"

text \<open>The walk: the head of the list is the top of the stack.\<close>

partial_function (option) walk_body :: "edge_view \<Rightarrow> graph \<Rightarrow> nat \<Rightarrow> nat list \<Rightarrow> nat list \<Rightarrow> nat list option" where
  "walk_body ins g header stack body =
     (case stack of
        [] \<Rightarrow> Some body
      | node # rest \<Rightarrow>
          if node \<in> set body then walk_body ins g header rest body
          else if node = header then walk_body ins g header rest (body @ [node])
          else walk_body ins g header (rev (map fst (ins g node)) @ rest) (body @ [node]))"

declare walk_body.simps [code]

definition loop_body :: "edge_view \<Rightarrow> graph \<Rightarrow> nat \<Rightarrow> nat \<Rightarrow> nat list option" where
  "loop_body ins g header latch = walk_body ins g header [latch] [header]"

fun dedup_adjacent :: "('a \<Rightarrow> 'b) \<Rightarrow> 'a list \<Rightarrow> 'a list" where
  "dedup_adjacent key (x # y # xs) =
     (if key x = key y then dedup_adjacent key (x # xs) else x # dedup_adjacent key (y # xs))"
| "dedup_adjacent key xs = xs"

definition loop_key :: "natural_loop \<Rightarrow> nat \<times> nat" where
  "loop_key l = (nl_header l, nl_latch l)"

definition natural_loops :: "(graph \<Rightarrow> nat \<Rightarrow> nat \<Rightarrow> nat list option) \<Rightarrow> edge_view \<Rightarrow> cfg \<Rightarrow> natural_loop list option" where
  "natural_loops doms ins cfg =
     (let g = c_graph cfg;
          idoms = doms g (c_entry cfg);
          backs = filter (\<lambda>(latch, header, kind). latch = header \<or> dominates idoms header latch) (g_edges g)
      in map_option (\<lambda>loops. dedup_adjacent loop_key (sort_key loop_key loops))
           (those (map (\<lambda>(latch, header, kind). map_option
               (\<lambda>body. \<lparr>nl_header = header, nl_latch = latch, nl_body = body\<rparr>)
               (loop_body ins g header latch)) backs)))"


section \<open>The counter\<close>

definition node_pcs :: "cfg \<Rightarrow> nat \<Rightarrow> nat list" where
  "node_pcs cfg node = (let bb = g_nodes (c_graph cfg) ! node in [bb_start bb..<bb_end bb])"

fun stride_scan :: "insn list \<Rightarrow> reg \<Rightarrow> nat \<Rightarrow> nat list \<Rightarrow> (int \<times> nat) option \<Rightarrow> verify_error + (int \<times> nat) option" where
  "stride_scan insns counter cond_pc [] stride = Inr stride"
| "stride_scan insns counter cond_pc (pc # pcs) stride =
     (let skip = stride_scan insns counter cond_pc pcs stride in
      if length insns \<le> pc then skip
      else case insns ! pc of
          Alu w op dst src \<Rightarrow>
            if dst \<noteq> counter then skip
            else (case src of
                ImmOp k \<Rightarrow>
                  if op = Add \<or> op = Sub then
                    if stride \<noteq> None then Inl (unbounded_at cond_pc)
                    else stride_scan insns counter cond_pc pcs (Some (if op = Add then sint k else - sint k, pc))
                  else Inl (unbounded_at cond_pc)
              | RegOp r \<Rightarrow> Inl (unbounded_at cond_pc))
        | LoadImm64 dst k \<Rightarrow> if dst = counter then Inl (unbounded_at cond_pc) else skip
        | Load sz dst base off \<Rightarrow> if dst = counter then Inl (unbounded_at cond_pc) else skip
        | Call func \<Rightarrow> if reg_num counter \<le> 5 then Inl (unbounded_at cond_pc) else skip
        | _ \<Rightarrow> skip)"

definition find_stride :: "cfg \<Rightarrow> insn list \<Rightarrow> natural_loop \<Rightarrow> reg \<Rightarrow> nat \<Rightarrow> verify_error + (int \<times> nat)" where
  "find_stride cfg insns desc counter cond_pc =
     bind_res (stride_scan insns counter cond_pc (concat (map (node_pcs cfg) (nl_body desc))) None) (\<lambda>stride.
     bind_res (ok_or stride (unbounded_at cond_pc)) (\<lambda>(stride, site).
       if stride = 0 then Inl (unbounded_at cond_pc) else Inr (stride, site)))"

definition writes_counter :: "insn \<Rightarrow> reg \<Rightarrow> bool" where
  "writes_counter insn counter =
     (case insn of
        Alu w op dst src \<Rightarrow> dst = counter
      | LoadImm64 dst k \<Rightarrow> dst = counter
      | Load sz dst base off \<Rightarrow> dst = counter
      | Call func \<Rightarrow> reg_num counter \<le> 5
      | _ \<Rightarrow> False)"

definition in_block :: "cfg \<Rightarrow> nat \<Rightarrow> nat \<Rightarrow> bool" where
  "in_block cfg pc node =
     (let bb = g_nodes (c_graph cfg) ! node in bb_start bb \<le> pc \<and> pc < bb_end bb)"

definition check_counter_provenance :: "cfg \<Rightarrow> insn list \<Rightarrow> natural_loop list \<Rightarrow> (nat \<Rightarrow> nat list option)
    \<Rightarrow> natural_loop \<Rightarrow> reg \<Rightarrow> nat \<Rightarrow> nat \<Rightarrow> verify_error + unit" where
  "check_counter_provenance cfg insns loops idoms desc counter site cond_pc =
     (let in_body = (\<lambda>pc. list_ex (\<lambda>l. list_ex (in_block cfg pc) (nl_body l)) loops);
          live = (case find (in_block cfg site) (nl_body desc) of
                    None \<Rightarrow> False | Some node \<Rightarrow> dominates idoms node (nl_latch desc))
      in if \<not> live then Inl (unbounded_at cond_pc)
         else if list_ex (\<lambda>(pc, insn). pc \<noteq> site \<and> writes_counter insn counter \<and> in_body pc) (enumerate 0 insns)
         then Inl (unbounded_at cond_pc) else Inr ())"


section \<open>Trip arithmetic\<close>

definition saturating_succ :: "int \<Rightarrow> int" where
  "saturating_succ x = saturate_i64 (x + 1)"

definition saturating_pred :: "int \<Rightarrow> int" where
  "saturating_pred x = saturate_i64 (x - 1)"

definition div_ceil :: "int \<Rightarrow> int \<Rightarrow> int" where
  "div_ceil a b = (a + b - 1) div b"

fun count_traversals :: "cc \<Rightarrow> int \<Rightarrow> int \<Rightarrow> int \<Rightarrow> nat \<Rightarrow> verify_error + int" where
  "count_traversals (Below bound strict sg) stride lo hi cond_pc =
     (let limit = (if strict then bound else saturating_succ bound) in
      if \<not> strict \<and> bound = i64_max then Inl (unbounded_at cond_pc)
      else if stride \<le> 0 then if lo < limit then Inl (unbounded_at cond_pc) else Inr 0
      else if lo \<ge> limit then Inr 0
      else Inr (div_ceil (limit - lo) stride))"
| "count_traversals (Above bound strict sg) stride lo hi cond_pc =
     (let limit = (if strict then bound else saturating_pred bound) in
      if \<not> strict \<and> bound = i64_min then Inl (unbounded_at cond_pc)
      else if stride \<ge> 0 then if hi > limit then Inl (unbounded_at cond_pc) else Inr 0
      else if hi \<le> limit then Inr 0
      else Inr (div_ceil (hi - limit) (- stride)))"
| "count_traversals (CcEq bound hold) stride lo hi cond_pc =
     (if lo \<noteq> hi then Inl (unbounded_at cond_pc)
      else case (lo = bound, hold) of
          (True, True) \<Rightarrow> Inr 1
        | (True, False) \<Rightarrow> Inr 0
        | (False, True) \<Rightarrow> Inr 0
        | (False, False) \<Rightarrow>
            if stride \<noteq> 1 \<and> stride \<noteq> - 1 then Inl (unbounded_at cond_pc) else Inr \<bar>bound - lo\<bar>)"

text \<open>The continue-condition of a jump: which comparison holds on the edge that continues.\<close>

definition continue_cond :: "jump_op \<Rightarrow> int \<Rightarrow> bool \<Rightarrow> cc option" where
  "continue_cond op k taken =
     (case op of
        JEq \<Rightarrow> Some (CcEq k taken)
      | Ne \<Rightarrow> Some (CcEq k (\<not> taken))
      | Lt \<Rightarrow> Some (if taken then Below k True False else Above k False False)
      | Ge \<Rightarrow> Some (if taken then Above k False False else Below k True False)
      | Gt \<Rightarrow> Some (if taken then Above k True False else Below k False False)
      | Le \<Rightarrow> Some (if taken then Below k False False else Above k True False)
      | Slt \<Rightarrow> Some (if taken then Below k True True else Above k False True)
      | Sge \<Rightarrow> Some (if taken then Above k False True else Below k True True)
      | Sgt \<Rightarrow> Some (if taken then Above k True True else Below k False True)
      | Sle \<Rightarrow> Some (if taken then Below k False True else Above k True True)
      | _ \<Rightarrow> None)"

fun cc_bound :: "cc \<Rightarrow> int" where
  "cc_bound (Below b strict sg) = b"
| "cc_bound (Above b strict sg) = b"
| "cc_bound (CcEq b hold) = b"

fun cc_signed :: "cc \<Rightarrow> bool" where
  "cc_signed (Below b strict sg) = sg"
| "cc_signed (Above b strict sg) = sg"
| "cc_signed (CcEq b hold) = False"

definition checked_u64 :: "int \<Rightarrow> nat option" where
  "checked_u64 x = (if 0 \<le> x \<and> x < 2 ^ 64 then Some (nat x) else None)"

definition trips_from_cond :: "cfg \<Rightarrow> insn list \<Rightarrow> reg_type list option list \<Rightarrow> natural_loop list
    \<Rightarrow> (nat \<Rightarrow> nat list option) \<Rightarrow> natural_loop \<Rightarrow> jump_op \<Rightarrow> reg \<Rightarrow> i32 \<Rightarrow> bool \<Rightarrow> verify_error + (nat \<times> nat)" where
  "trips_from_cond cfg insns snapshots loops idoms desc op counter k back_taken =
     (let cond_pc = bb_end (g_nodes (c_graph cfg) ! nl_latch desc) - 1;
          fail = Inl (unbounded_at cond_pc)
      in case continue_cond op (sint k) back_taken of
           None \<Rightarrow> fail
         | Some cc \<Rightarrow>
             if counter = frame_ptr then fail
             else bind_res (find_stride cfg insns desc counter cond_pc) (\<lambda>(stride, site).
                  bind_res (check_counter_provenance cfg insns loops idoms desc counter site cond_pc) (\<lambda>_.
                  case (if nl_header desc < length snapshots then snapshots ! nl_header desc else None) of
                    None \<Rightarrow> Inr (cond_pc, 0)
                  | Some snapshot \<Rightarrow>
                      (case snapshot ! reg_index counter of
                         Scalar (Interval lo hi) \<Rightarrow>
                           if \<not> cc_signed cc \<and> (lo < 0 \<or> cc_bound cc < 0) then fail
                           else bind_res (count_traversals cc stride lo hi cond_pc) (\<lambda>t.
                                bind_res (ok_or (checked_u64 t) (unbounded_at cond_pc)) (\<lambda>t. Inr (cond_pc, t)))
                       | _ \<Rightarrow> fail))))"


text \<open>The two shapes of a counter loop: a conditional latch, or a conditional header.\<close>

definition cond_jump :: "insn \<Rightarrow> (jump_op \<times> reg \<times> i32) option" where
  "cond_jump insn = (case insn of Jump w op dst (ImmOp k) off \<Rightarrow> Some (op, dst, k) | _ \<Rightarrow> None)"

definition is_always :: "insn \<Rightarrow> bool" where
  "is_always insn = (case insn of Jump w op dst src off \<Rightarrow> op = Always | _ \<Rightarrow> False)"

definition get_insn :: "insn list \<Rightarrow> nat \<Rightarrow> insn option" where
  "get_insn insns end_pc = (if end_pc \<noteq> 0 \<and> end_pc - 1 < length insns then Some (insns ! (end_pc - 1)) else None)"

definition infer_traversals :: "edge_view \<Rightarrow> cfg \<Rightarrow> insn list \<Rightarrow> reg_type list option list \<Rightarrow> natural_loop
    \<Rightarrow> natural_loop list \<Rightarrow> (nat \<Rightarrow> nat list option) \<Rightarrow> verify_error + (nat \<times> nat)" where
  "infer_traversals outs cfg insns snapshots desc loops idoms =
     (let g = c_graph cfg;
          latch_bb = g_nodes g ! nl_latch desc;
          header_bb = g_nodes g ! nl_header desc;
          trips = (\<lambda>(op, dst, k) kind.
            trips_from_cond cfg insns snapshots loops idoms desc op dst k (kind = BranchTrue))
      in bind_res (ok_or (get_insn insns (bb_end latch_bb)) (unbounded_at (bb_start latch_bb))) (\<lambda>latch_term.
         let by_header =
           (if \<not> is_always latch_term then Inl (unbounded_at (bb_start latch_bb))
            else bind_res (ok_or (Option.bind (get_insn insns (bb_end header_bb)) cond_jump)
                        (unbounded_at (bb_start header_bb))) (\<lambda>cond.
                 case find (\<lambda>(src, target, kind). target \<in> set (nl_body desc)) (outs g (nl_header desc)) of
                   None \<Rightarrow> Inl (unbounded_at (bb_start header_bb))
                 | Some (src, target, kind) \<Rightarrow> trips cond kind))
         in case (if is_always latch_term then None else cond_jump latch_term) of
              None \<Rightarrow> by_header
            | Some cond \<Rightarrow>
                (case find (\<lambda>(src, target, kind). target = nl_header desc) (outs g (nl_latch desc)) of
                   None \<Rightarrow> by_header
                 | Some (src, target, kind) \<Rightarrow> trips cond kind)))"


section \<open>The budget\<close>

definition inner_loop :: "natural_loop list \<Rightarrow> nat \<Rightarrow> nat \<Rightarrow> nat option" where
  "inner_loop loops index node =
     (let desc = loops ! index in
      find (\<lambda>j. let inner = loops ! j in
          j \<noteq> index \<and> length (nl_body inner) < length (nl_body desc)
        \<and> set (nl_body inner) \<subseteq> set (nl_body desc) \<and> nl_header inner = node) [0..<length loops])"

definition node_cost :: "cfg \<Rightarrow> natural_loop list \<Rightarrow> nat option list \<Rightarrow> nat \<Rightarrow> nat \<Rightarrow> nat" where
  "node_cost cfg loops totals index node =
     (let straight = block_len (g_nodes (c_graph cfg) ! node) in
      case inner_loop loops index node of
        Some j \<Rightarrow> unwrap_or (totals ! j) straight
      | None \<Rightarrow> straight)"

definition loop_total :: "edge_view \<Rightarrow> cfg \<Rightarrow> insn list \<Rightarrow> reg_type list option list \<Rightarrow> natural_loop list
    \<Rightarrow> nat option list \<Rightarrow> nat \<Rightarrow> (nat \<Rightarrow> nat list option) \<Rightarrow> verify_error + loop_bound" where
  "loop_total outs cfg insns snapshots loops totals index idoms =
     (let desc = loops ! index in
      bind_res (infer_traversals outs cfg insns snapshots desc loops idoms) (\<lambda>(cond_pc, traversals).
        let body = sum_list (map (node_cost cfg loops totals index) (nl_body desc));
            steps = min (int ((traversals + 1) * body)) (2 ^ 128 - 1)
        in bind_res (ok_or (checked_u64 steps) (unbounded_at cond_pc)) (\<lambda>steps.
             Inr \<lparr>lb_header = nl_header desc, lb_latch = nl_latch desc, lb_cond_pc = cond_pc,
                  lb_trips = traversals + 1, lb_steps = steps\<rparr>)))"

fun total_loops :: "(nat \<Rightarrow> nat option list \<Rightarrow> verify_error + loop_bound) \<Rightarrow> nat option \<Rightarrow> nat list
    \<Rightarrow> nat option list \<Rightarrow> verify_error + loop_bound list" where
  "total_loops total_of max_steps [] totals = Inr []"
| "total_loops total_of max_steps (i # order) totals =
     bind_res (total_of i totals) (\<lambda>t.
       let totals = totals[i := Some (lb_steps t)];
           over = (case max_steps of None \<Rightarrow> False | Some limit \<Rightarrow> lb_steps t > limit)
       in if over then Inl (LoopBudgetExceeded (lb_cond_pc t) (lb_trips t) (the max_steps))
          else bind_res (total_loops total_of max_steps order totals) (\<lambda>out. Inr (t # out)))"

definition enforce_loop_bounds :: "(graph \<Rightarrow> bool) \<Rightarrow> (graph \<Rightarrow> nat \<Rightarrow> nat \<Rightarrow> nat list option) \<Rightarrow> edge_view \<Rightarrow> edge_view
    \<Rightarrow> cfg \<Rightarrow> insn list \<Rightarrow> reg_type list option list \<Rightarrow> nat option \<Rightarrow> (verify_error + loop_bound list) option" where
  "enforce_loop_bounds cyclic doms ins outs cfg insns snapshots max_steps =
     (if \<not> has_back_edge cyclic cfg then Some (Inr [])
      else map_option (\<lambda>loops.
             let idoms = doms (c_graph cfg) (c_entry cfg);
                 order = sort_key (\<lambda>i. length (nl_body (loops ! i))) [0..<length loops]
             in bind_res (total_loops (\<lambda>i totals. loop_total outs cfg insns snapshots loops totals i idoms)
                            max_steps order (replicate (length loops) None)) (\<lambda>out.
                  Inr (sort_key (\<lambda>b. (lb_header b, lb_latch b)) out)))
           (natural_loops doms ins cfg))"



section \<open>The body of a loop\<close>

text \<open>What petgraph documents of \<open>edges_directed\<close> with \<open>Incoming\<close>: the edges that enter a node.\<close>

definition ins_spec :: "edge_view \<Rightarrow> graph \<Rightarrow> bool" where
  "ins_spec ins g \<longleftrightarrow> (\<forall>b. set (ins g b) = {e \<in> set (g_edges g). fst (snd e) = b})"

text \<open>One step against an edge, not across the header.\<close>

definition back_step :: "graph \<Rightarrow> nat \<Rightarrow> (nat \<times> nat) set" where
  "back_step g header = {(x, y). (y, x) \<in> edge_rel g \<and> x \<noteq> header}"

lemma ins_sources: "ins_spec ins g \<Longrightarrow> fst ` set (ins g x) = {y. (y, x) \<in> edge_rel g}"
  by (force simp: ins_spec_def edge_rel_def)

lemma walk_body_result:
  assumes spec: "ins_spec ins g" and U: "finite U" "fst ` set (g_edges g) \<subseteq> U" "header \<in> U"
    and "set stack \<subseteq> U" "\<forall>x \<in> set body. x \<noteq> header \<longrightarrow> fst ` set (ins g x) \<subseteq> set body \<union> set stack"
    and "distinct body"
  shows "\<exists>b. walk_body ins g header stack body = Some b \<and> distinct b \<and> set body \<union> set stack \<subseteq> set b
    \<and> (\<forall>x \<in> set b. x \<noteq> header \<longrightarrow> fst ` set (ins g x) \<subseteq> set b)
    \<and> set b \<subseteq> set body \<union> (back_step g header)\<^sup>* `` set stack"
  using assms(5-7)
proof (induction "card (U - set body)" arbitrary: stack body rule: less_induct)
  case less
  have smaller: "card (U - set (body @ [x])) < card (U - set body)" if "x \<in> U" "x \<notin> set body" for x
    by (rule psubset_card_mono) (use U(1) that in auto)
  show ?case
    using less.prems
  proof (induction stack)
    case Nil
    then show ?case by (subst walk_body.simps) simp
  next
    case (Cons node rest)
    show ?case
    proof (cases "node \<in> set body")
      case True
      have eq: "walk_body ins g header (node # rest) body = walk_body ins g header rest body"
        by (subst walk_body.simps) (simp add: True)
      have sub: "set (node # rest) \<subseteq> set body \<union> set rest" "set rest \<subseteq> set (node # rest)" using True by auto
      obtain b where b: "walk_body ins g header rest body = Some b" "distinct b" "set body \<union> set rest \<subseteq> set b"
        "\<forall>x \<in> set b. x \<noteq> header \<longrightarrow> fst ` set (ins g x) \<subseteq> set b"
        "set b \<subseteq> set body \<union> (back_step g header)\<^sup>* `` set rest"
        using Cons.IH Cons.prems sub by (auto 0 0 simp: True insert_absorb)
      have "(back_step g header)\<^sup>* `` set rest \<subseteq> (back_step g header)\<^sup>* `` set (node # rest)" by auto
      with b sub show ?thesis unfolding eq by (intro exI [of _ b]) blast
    next
      case new: False
      have node: "node \<in> U" using Cons.prems(1) by simp
      show ?thesis
      proof (cases "node = header")
        case True
        have "\<exists>b. walk_body ins g header rest (body @ [node]) = Some b \<and> distinct b
          \<and> set (body @ [node]) \<union> set rest \<subseteq> set b \<and> (\<forall>x \<in> set b. x \<noteq> header \<longrightarrow> fst ` set (ins g x) \<subseteq> set b)
          \<and> set b \<subseteq> set (body @ [node]) \<union> (back_step g header)\<^sup>* `` set rest"
          using Cons.prems new True by (intro less.hyps [OF smaller [OF node new]]) auto
        then obtain b where b: "walk_body ins g header rest (body @ [node]) = Some b" "distinct b"
          "set (body @ [node]) \<union> set rest \<subseteq> set b" "\<forall>x \<in> set b. x \<noteq> header \<longrightarrow> fst ` set (ins g x) \<subseteq> set b"
          "set b \<subseteq> set (body @ [node]) \<union> (back_step g header)\<^sup>* `` set rest" by blast
        have "walk_body ins g header (node # rest) body = Some b"
          by (subst walk_body.simps) (use new True b(1) in simp)
        moreover have "set b \<subseteq> set body \<union> (back_step g header)\<^sup>* `` set (node # rest)" using b(5) by auto
        ultimately show ?thesis using b(2-4) by (intro exI [of _ b] conjI) auto
      next
        case False
        let ?preds = "rev (map fst (ins g node))"
        have preds: "set ?preds = {y. (y, node) \<in> edge_rel g}" using ins_sources [OF spec] by simp
        then have inU: "set ?preds \<subseteq> U" using U(2) by (force simp: edge_rel_def)
        have "fst ` set (ins g x) \<subseteq> set (body @ [node]) \<union> set (?preds @ rest)"
          if "x \<in> set (body @ [node])" "x \<noteq> header" for x
        proof (cases "x = node")
          case False
          then have "fst ` set (ins g x) \<subseteq> set body \<union> set (node # rest)" using that Cons.prems(2) by simp
          then show ?thesis by (simp only: set_append set_simps) blast
        qed (simp, blast)
        then have "\<exists>b. walk_body ins g header (?preds @ rest) (body @ [node]) = Some b \<and> distinct b
          \<and> set (body @ [node]) \<union> set (?preds @ rest) \<subseteq> set b
          \<and> (\<forall>x \<in> set b. x \<noteq> header \<longrightarrow> fst ` set (ins g x) \<subseteq> set b)
          \<and> set b \<subseteq> set (body @ [node]) \<union> (back_step g header)\<^sup>* `` set (?preds @ rest)"
          using Cons.prems(1,3) new inU by (intro less.hyps [OF smaller [OF node new]]) simp_all
        then obtain b where b: "walk_body ins g header (?preds @ rest) (body @ [node]) = Some b" "distinct b"
          "set (body @ [node]) \<union> set (?preds @ rest) \<subseteq> set b"
          "\<forall>x \<in> set b. x \<noteq> header \<longrightarrow> fst ` set (ins g x) \<subseteq> set b"
          "set b \<subseteq> set (body @ [node]) \<union> (back_step g header)\<^sup>* `` set (?preds @ rest)" by blast
        have "walk_body ins g header (node # rest) body = Some b"
          by (subst walk_body.simps) (use new False b(1) in simp)
        moreover have "(back_step g header)\<^sup>* `` set ?preds \<subseteq> (back_step g header)\<^sup>* `` {node}"
          using preds False by (auto simp: back_step_def intro: converse_rtrancl_into_rtrancl)
        then have "set b \<subseteq> set body \<union> (back_step g header)\<^sup>* `` set (node # rest)"
          using b(5) by (simp only: set_append set_simps Image_Un) blast
        ultimately show ?thesis using b(2-4) by (intro exI [of _ b] conjI) auto
      qed
    qed
  qed
qed

text \<open>The walk returns, and collects the header and every node that reaches the latch without it.\<close>

lemma loop_body_result:
  assumes "ins_spec ins g"
  shows "\<exists>body. loop_body ins g header latch = Some body \<and> distinct body
    \<and> set body = insert header ((back_step g header)\<^sup>* `` {latch})"
proof -
  let ?U = "insert header (insert latch (fst ` set (g_edges g)))"
  have "\<exists>b. walk_body ins g header [latch] [header] = Some b \<and> distinct b \<and> set [header] \<union> set [latch] \<subseteq> set b
    \<and> (\<forall>x \<in> set b. x \<noteq> header \<longrightarrow> fst ` set (ins g x) \<subseteq> set b)
    \<and> set b \<subseteq> set [header] \<union> (back_step g header)\<^sup>* `` set [latch]"
    by (rule walk_body_result [OF assms, of ?U]) auto
  then obtain b where b: "walk_body ins g header [latch] [header] = Some b" "distinct b" "header \<in> set b" "latch \<in> set b"
    "\<forall>x \<in> set b. x \<noteq> header \<longrightarrow> fst ` set (ins g x) \<subseteq> set b"
    "set b \<subseteq> insert header ((back_step g header)\<^sup>* `` {latch})" by auto
  have "v \<in> set b" if "(latch, v) \<in> (back_step g header)\<^sup>*" for v
    using that
  proof (induction)
    case (step y z)
    then show ?case using b(5) ins_sources [OF assms, of y] unfolding back_step_def by blast
  qed (rule b(4))
  with b show ?thesis unfolding loop_body_def by blast
qed



section \<open>Trips\<close>

text \<open>Whether the loop continues with a counter value.\<close>

fun cc_holds :: "cc \<Rightarrow> int \<Rightarrow> bool" where
  "cc_holds (Below b strict sg) c = (if strict then c < b else c \<le> b)"
| "cc_holds (Above b strict sg) c = (if strict then c > b else c \<ge> b)"
| "cc_holds (CcEq b hold) c = ((c = b) = hold)"

text \<open>The counter moves towards the value an inequality test waits for.\<close>

definition toward :: "cc \<Rightarrow> int \<Rightarrow> int \<Rightarrow> bool" where
  "toward cc stride c = (case cc of CcEq b hold \<Rightarrow> hold \<or> c = b \<or> (0 < stride \<longleftrightarrow> c < b) | _ \<Rightarrow> True)"

lemma div_ceil_bounds:
  assumes "0 < a" "0 < b"
  shows "0 < div_ceil a b" "a \<le> div_ceil a b * b" "(div_ceil a b - 1) * b < a"
proof -
  have "(a + b - 1) mod b < b" "0 \<le> (a + b - 1) mod b" using assms(2) by simp_all
  moreover have "(a + b - 1) div b * b + (a + b - 1) mod b = a + b - 1" by simp
  ultimately have "a \<le> (a + b - 1) div b * b" "(a + b - 1) div b * b < a + b" by linarith+
  then show "a \<le> div_ceil a b * b" "(div_ceil a b - 1) * b < a"
    by (simp_all add: div_ceil_def left_diff_distrib)
  show "0 < div_ceil a b" using assms by (simp add: div_ceil_def pos_imp_zdiv_pos_iff)
qed

text \<open>A condition that fails from some point on, counted exactly: up, down, and by equality.\<close>

lemma count_up:
  fixes c l st :: int
  assumes "0 < st" "c < l"
  shows "\<not> c + div_ceil (l - c) st * st < l" "int i < div_ceil (l - c) st \<Longrightarrow> c + int i * st < l"
    "int i \<le> div_ceil (l - c) st \<Longrightarrow> c + int i * st < l + st"
proof -
  note D = div_ceil_bounds [of "l - c" st] and mono = mult_right_mono [of "int i" _ st]
  show "\<not> c + div_ceil (l - c) st * st < l" using D(2) assms by linarith
  show "int i < div_ceil (l - c) st \<Longrightarrow> c + int i * st < l"
    using mono [of "div_ceil (l - c) st - 1"] D(3) assms by linarith
  show "int i \<le> div_ceil (l - c) st \<Longrightarrow> c + int i * st < l + st"
  proof -
    assume "int i \<le> div_ceil (l - c) st"
    then have "int i * st \<le> div_ceil (l - c) st * st" using assms(1) by (intro mult_right_mono) simp_all
    moreover have "(div_ceil (l - c) st - 1) * st = div_ceil (l - c) st * st - st" by (simp add: left_diff_distrib)
    ultimately show "c + int i * st < l + st" using D(3) assms by linarith
  qed
qed

lemma div_ceil_mono: "0 < st \<Longrightarrow> a \<le> b \<Longrightarrow> div_ceil a st \<le> div_ceil b st"
  by (simp add: div_ceil_def zdiv_mono1)

text \<open>\<open>trips cc stride c n\<close>: tested before each stride, the condition holds \<open>n\<close> times and then fails.\<close>

definition trips :: "cc \<Rightarrow> int \<Rightarrow> int \<Rightarrow> nat \<Rightarrow> bool" where
  "trips cc stride c n \<longleftrightarrow> \<not> cc_holds cc (c + int n * stride) \<and> (\<forall>i < n. cc_holds cc (c + int i * stride))"

definition i32_bounds :: "int \<Rightarrow> bool" where
  "i32_bounds x \<longleftrightarrow> - (2 ^ 31) \<le> x \<and> x \<le> 2 ^ 31"

lemma saturating_small: "i32_bounds b \<Longrightarrow> saturating_succ b = b + 1 \<and> saturating_pred b = b - 1"
  by (simp add: saturating_succ_def saturating_pred_def saturate_i64_def i32_bounds_def i64_bounds)

lemma count_below:
  assumes count: "count_traversals (Below b strict sg) stride lo hi pc = Inr t"
    and c: "lo \<le> c" "c \<le> hi" and b: "i32_bounds b" "i32_bounds stride"
  shows "\<exists>n. int n \<le> t \<and> (lo = hi \<longrightarrow> int n = t) \<and> trips (Below b strict sg) stride c n
    \<and> (\<forall>i \<le> n. c \<le> c + int i * stride \<and> c + int i * stride \<le> max c (2 ^ 33))"
proof -
  define l where "l = (if strict then b else b + 1)"
  have holds: "cc_holds (Below b strict sg) x \<longleftrightarrow> x < l" for x by (auto simp: l_def)
  have count': "if stride \<le> 0 then l \<le> lo \<and> t = 0 else if l \<le> lo then t = 0 else t = div_ceil (l - lo) stride"
    using count saturating_small [OF b(1)] by (auto simp: Let_def l_def split: if_splits)
  show ?thesis
  proof (cases "l \<le> c")
    case True
    then have "trips (Below b strict sg) stride c 0" by (simp add: trips_def holds del: cc_holds.simps)
    moreover have "0 \<le> t" using count' div_ceil_bounds(1) [of "l - lo" stride] by (auto split: if_splits)
    moreover have "lo = hi \<Longrightarrow> t = 0" using count' True c by (auto split: if_splits)
    ultimately show ?thesis by (intro exI [of _ 0]) auto
  next
    case False
    then have s: "0 < stride" "lo < l" and t: "t = div_ceil (l - lo) stride"
      using count' c by (auto split: if_splits)
    have cl: "c < l" using False by simp
    define n where "n = nat (div_ceil (l - c) stride)"
    have n: "int n = div_ceil (l - c) stride"
      using div_ceil_bounds(1) [of "l - c" stride] s cl by (simp add: n_def)
    note U = count_up [OF s(1) cl]
    have "int n \<le> t" using div_ceil_mono [OF s(1), of "l - c" "l - lo"] c n t by simp
    moreover have "trips (Below b strict sg) stride c n"
      unfolding trips_def holds using U(1,2) by (simp add: n [symmetric])
    moreover have "c \<le> c + int i * stride \<and> c + int i * stride \<le> max c (2 ^ 33)" if "i \<le> n" for i
    proof -
      have "c + int i * stride < l + stride" using U(3) [of i] that n by linarith
      moreover have "c \<le> c + int i * stride" using s(1) by simp
      moreover have "l + stride \<le> 2 ^ 33" using b(1,2) by (auto simp: l_def i32_bounds_def)
      ultimately show ?thesis by linarith
    qed
    moreover have "lo = hi \<Longrightarrow> int n = t" using n t c by simp
    ultimately show ?thesis by blast
  qed
qed

text \<open>Counting down is counting up with every sign changed.\<close>

lemma count_mirror:
  assumes "i32_bounds b"
  shows "count_traversals (Above b strict sg) stride lo hi pc = count_traversals (Below (- b) strict sg) (- stride) (- hi) (- lo) pc"
proof -
  have "i32_bounds (- b)" "b \<noteq> i64_min" "- b \<noteq> i64_max"
    using assms by (auto simp: i32_bounds_def i64_min_def i64_max_def)
  moreover have e: "saturating_pred b = b - 1" "saturating_succ (- b) = 1 - b"
    using saturating_small [OF assms] saturating_small [OF calculation(1)] by simp_all
  ultimately show ?thesis by (simp add: Let_def) (simp add: e algebra_simps)
qed

lemma trips_mirror: "trips (Below (- b) strict sg) (- stride) (- c) n \<longleftrightarrow> trips (Above b strict sg) stride c n"
proof -
  have "cc_holds (Below (- b) strict sg) (- c + int i * - stride) \<longleftrightarrow> cc_holds (Above b strict sg) (c + int i * stride)" for i
    by (auto simp: algebra_simps)
  then show ?thesis by (simp only: trips_def)
qed

lemma count_above:
  assumes "count_traversals (Above b strict sg) stride lo hi pc = Inr t" "lo \<le> c" "c \<le> hi" "i32_bounds b" "i32_bounds stride"
  shows "\<exists>n. int n \<le> t \<and> (lo = hi \<longrightarrow> int n = t) \<and> trips (Above b strict sg) stride c n
    \<and> (\<forall>i \<le> n. c + int i * stride \<le> c \<and> min c (- (2 ^ 33)) \<le> c + int i * stride)"
proof -
  have "i32_bounds (- b)" "i32_bounds (- stride)" using assms(4,5) by (auto simp: i32_bounds_def)
  with count_below [OF assms(1) [unfolded count_mirror [OF assms(4)]], of "- c"] assms(2,3)
  obtain n where n: "int n \<le> t" "lo = hi \<longrightarrow> int n = t" "trips (Below (- b) strict sg) (- stride) (- c) n"
    "\<forall>i \<le> n. - c \<le> - c + int i * - stride \<and> - c + int i * - stride \<le> max (- c) (2 ^ 33)" by auto
  from n(3) have "trips (Above b strict sg) stride c n" by (simp only: trips_mirror)
  moreover have "c + int i * stride \<le> c \<and> min c (- (2 ^ 33)) \<le> c + int i * stride" if "i \<le> n" for i
    using n(4) that by (auto simp: min_def max_def split: if_splits)
  ultimately show ?thesis using n(1,2) by blast
qed

lemma count_eq:
  assumes "count_traversals (CcEq b hold) stride lo hi pc = Inr t" "lo \<le> c" "c \<le> hi" "stride \<noteq> 0" "toward (CcEq b hold) stride c"
  shows "int (nat t) = t \<and> lo = hi \<and> trips (CcEq b hold) stride c (nat t)
    \<and> (i32_bounds b \<and> i32_bounds stride \<longrightarrow>
         (\<forall>i \<le> nat t. min c (- (2 ^ 33)) \<le> c + int i * stride \<and> c + int i * stride \<le> max c (2 ^ 33)))"
proof -
  have c: "lo = hi" "c = lo" using assms(1-3) by (auto split: if_splits)
  show ?thesis
  proof (cases "c = b")
    case True
    then have "t = (if hold then 1 else 0)" using assms(1) c by (auto split: if_splits)
    then show ?thesis using True c assms(4) by (auto simp: trips_def le_Suc_eq i32_bounds_def)
  next
    case ne: False
    show ?thesis
    proof (cases hold)
      case True
      then have "t = 0" using assms(1) c ne by auto
      then show ?thesis using True c ne by (simp add: trips_def)
    next
      case False
      then have t: "t = \<bar>b - c\<bar>" "stride = 1 \<or> stride = - 1" using assms(1) c ne by (auto split: if_splits)
      have dir: "0 < stride \<longleftrightarrow> c < b" using assms(5) ne False by (simp add: toward_def)
      have "c + t * stride = b" using t dir ne by auto
      moreover have "c + int i * stride \<noteq> b" if "i < nat t" for i using t dir ne that by auto
      moreover have "min c (- (2 ^ 33)) \<le> c + int i * stride \<and> c + int i * stride \<le> max c (2 ^ 33)"
        if "i \<le> nat t" "i32_bounds b" for i
        using t dir ne that by (auto simp: i32_bounds_def)
      ultimately show ?thesis using t c False by (simp add: trips_def)
    qed
  qed
qed


lemma trips_exact:
  assumes count: "count_traversals cc stride lo hi pc = Inr t" and c: "lo \<le> c" "c \<le> hi" "in_i64 c"
    and b: "i32_bounds (cc_bound cc)" "i32_bounds stride" "stride \<noteq> 0" and dir: "toward cc stride c"
  shows "\<exists>n. int n \<le> t \<and> (lo = hi \<longrightarrow> int n = t) \<and> trips cc stride c n \<and> (\<forall>i \<le> n. in_i64 (c + int i * stride))"
proof -
  have stays: "in_i64 x" if "min c (- (2 ^ 33)) \<le> x" "x \<le> max c (2 ^ 33)" for x
    using that c(3) by (auto simp: i64_bounds min_def max_def split: if_splits)
  show ?thesis
  proof (cases cc)
    case (Below bd strict sg)
    with count_below [OF count [unfolded Below] c(1,2)] b obtain n where
      "int n \<le> t" "lo = hi \<longrightarrow> int n = t" "trips cc stride c n"
      "\<forall>i \<le> n. c \<le> c + int i * stride \<and> c + int i * stride \<le> max c (2 ^ 33)" by auto
    then show ?thesis using stays by (intro exI [of _ n]) (auto simp: min_def)
  next
    case (Above bd strict sg)
    with count_above [OF count [unfolded Above] c(1,2)] b obtain n where
      "int n \<le> t" "lo = hi \<longrightarrow> int n = t" "trips cc stride c n"
      "\<forall>i \<le> n. c + int i * stride \<le> c \<and> min c (- (2 ^ 33)) \<le> c + int i * stride" by auto
    then show ?thesis using stays by (intro exI [of _ n]) (auto simp: max_def)
  next
    case (CcEq bd hold)
    with count_eq [OF count [unfolded CcEq] c(1,2) b(3) dir [unfolded CcEq]] b stays
    show ?thesis by (intro exI [of _ "nat t"]) simp
  qed
qed

text \<open>A condition tested after the stride, where it is tested first on the counter's second value.\<close>

definition latch_toward :: "cc \<Rightarrow> int \<Rightarrow> int \<Rightarrow> bool" where
  "latch_toward cc stride c =
     (case cc of
        Below b strict sg \<Rightarrow> 0 < stride
      | Above b strict sg \<Rightarrow> stride < 0
      | CcEq b hold \<Rightarrow> if hold then c = b \<or> c + stride \<noteq> b else c \<noteq> b \<and> (0 < stride \<longleftrightarrow> c < b))"

lemma trips_shift: "trips cc stride c (Suc n) \<Longrightarrow> trips cc stride (c + stride) n"
proof -
  have shift: "c + stride + int i * stride = c + int (Suc i) * stride" for i by (simp add: algebra_simps)
  show "trips cc stride c (Suc n) \<Longrightarrow> trips cc stride (c + stride) n"
    unfolding trips_def shift by auto
qed

lemma latch_trips:
  assumes "trips cc stride c n" "latch_toward cc stride c"
  shows "trips cc stride (c + stride) (n - 1)"
proof (cases n)
  case 0
  then have "\<not> cc_holds cc c" using assms(1) by (simp add: trips_def)
  then have "\<not> cc_holds cc (c + stride)" using assms(2) by (cases cc) (auto simp: latch_toward_def split: if_splits)
  then show ?thesis using 0 by (simp add: trips_def)
next
  case (Suc m)
  then show ?thesis using trips_shift assms(1) by simp
qed


section \<open>Trips of the machine\<close>

text \<open>The jump goes one way for the first \<open>n\<close> values of the counter, and the other way for the next.\<close>

definition exits_after :: "jump_op \<Rightarrow> i64 \<Rightarrow> bool \<Rightarrow> i64 \<Rightarrow> i64 \<Rightarrow> nat \<Rightarrow> bool" where
  "exits_after op k taken stride c n \<longleftrightarrow> jump_taken op (c + of_nat n * stride) k B64 = (\<not> taken)
     \<and> (\<forall>i < n. jump_taken op (c + of_nat i * stride) k B64 = taken)"

text \<open>An unsigned count downwards must not step over zero; nothing in the code checks it.\<close>

definition lands :: "cc \<Rightarrow> int \<Rightarrow> bool" where
  "lands cc stride = (case cc of Above b strict sg \<Rightarrow> sg \<or> - stride \<le> (if strict then b + 1 else b) | _ \<Rightarrow> True)"

lemma counter_at:
  assumes "in_i64 (sint c + int i * stride)"
  shows "sint (c + of_nat i * word_of_int stride :: i64) = sint c + int i * stride"
proof -
  have "c + of_nat i * word_of_int stride = (word_of_int (sint c + int i * stride) :: i64)" by simp
  then show ?thesis using sint_word_of_int_i64 [OF assms] by simp
qed

lemma continue_cond_cmp:
  "continue_cond op k taken = Some cc \<Longrightarrow>
     compares op \<and> (cc_holds cc x \<longleftrightarrow> int_cmp op x k = taken) \<and> cc_bound cc = k
     \<and> ((\<exists>b hold. cc = CcEq b hold) \<or> cc_signed cc \<longrightarrow> signed_cmp op)"
  by (cases op; cases taken) (auto simp: continue_cond_def compares_def signed_cmp_def)

lemma i64_scast_i32: "sint (scast k :: i64) = sint (k :: i32)"
  by (simp add: signed_scast_eq signed_take_bit_int_eq_self sint_lt sint_ge min_def)

text \<open>The integer count is the machine's, as long as the values stay where the comparison is exact.\<close>

lemma trips_words:
  fixes k :: i32
  assumes cond: "continue_cond op (sint k) taken = Some cc" and n: "trips cc stride (sint c) n"
    and range: "\<And>i. i \<le> n \<Longrightarrow> in_i64 (sint c + int i * stride)"
    and order: "\<And>i. i \<le> n \<Longrightarrow> signed_cmp op \<or> 0 \<le> sint c + int i * stride \<and> 0 \<le> sint k"
  shows "exits_after op (scast k) taken (word_of_int stride) c n"
proof -
  have "jump_taken op (c + of_nat i * word_of_int stride) (scast k) B64 = taken \<longleftrightarrow> cc_holds cc (sint c + int i * stride)"
    if "i \<le> n" for i
    using continue_cond_cmp [OF cond, of "sint c + int i * stride"] order [OF that]
      jump_taken_int [of op B64 "c + of_nat i * word_of_int stride" "scast k"]
    by (auto simp: counter_at [OF range [OF that]] i64_scast_i32 cmp_exact_def)
  then show ?thesis using n by (auto simp: exits_after_def trips_def)
qed

lemma trips_order:
  assumes n: "trips cc stride c n" and c: "0 \<le> c" "0 \<le> cc_bound cc" and lands: "lands cc stride"
    and cc: "\<not> cc_signed cc" "\<nexists>b hold. cc = CcEq b hold" and i: "i \<le> n"
  shows "0 \<le> c + int i * stride"
proof (cases cc)
  case (Below b strict sg)
  show ?thesis
  proof (cases "i = 0 \<or> 0 \<le> stride")
    case False
    then have "cc_holds cc c" using n i by (auto simp: trips_def elim: allE [of _ 0])
    moreover have "int n * stride \<le> 0" using False by (simp add: mult_nonneg_nonpos)
    ultimately have "cc_holds cc (c + int n * stride)" unfolding Below by (auto split: if_splits)
    then show ?thesis using n by (simp add: trips_def)
  qed (use c in auto)
next
  case (Above b strict sg)
  then have L: "- stride \<le> (if strict then b + 1 else b)" using lands cc by (simp add: lands_def)
  show ?thesis
  proof (cases i)
    case (Suc j)
    then have "cc_holds cc (c + int j * stride)" using n i by (simp add: trips_def)
    then have "(if strict then b + 1 else b) \<le> c + int j * stride" unfolding Above by (auto split: if_splits)
    moreover have "c + int i * stride = c + int j * stride + stride" by (simp add: Suc algebra_simps)
    ultimately show ?thesis using L by linarith
  qed (use c in simp)
next
  case (CcEq b hold)
  then show ?thesis using cc by simp
qed


section \<open>Writers of the counter\<close>

definition strides_by :: "insn \<Rightarrow> reg \<Rightarrow> int \<Rightarrow> bool" where
  "strides_by insn counter s \<longleftrightarrow> (\<exists>w k. insn = Alu w Add counter (ImmOp k) \<and> s = sint k
     \<or> insn = Alu w Sub counter (ImmOp k) \<and> s = - sint k)"

lemma stride_scan_skip:
  assumes "stride_scan insns counter cp (pc # pcs) acc = Inr r" "pc < length insns" "\<not> writes_counter (insns ! pc) counter"
  shows "stride_scan insns counter cp pcs acc = Inr r"
  using assms by (cases "insns ! pc") (auto simp: Let_def writes_counter_def split: operand.splits)

lemma stride_scan_write:
  assumes "stride_scan insns counter cp (pc # pcs) acc = Inr r" "pc < length insns" "writes_counter (insns ! pc) counter"
  shows "acc = None \<and> (\<exists>s. strides_by (insns ! pc) counter s \<and> stride_scan insns counter cp pcs (Some (s, pc)) = Inr r)"
  using assms by (cases acc; cases "insns ! pc") (auto simp: Let_def writes_counter_def strides_by_def split: operand.splits if_splits)

lemma stride_scan_rest:
  "stride_scan insns counter cp pcs (Some x) = Inr r \<Longrightarrow>
     r = Some x \<and> (\<forall>pc \<in> set pcs. pc < length insns \<longrightarrow> \<not> writes_counter (insns ! pc) counter)"
proof (induction pcs)
  case (Cons pc pcs)
  then show ?case
  proof (cases "pc < length insns")
    case True
    then show ?thesis using Cons stride_scan_skip [OF Cons.prems] stride_scan_write [OF Cons.prems]
      by (cases "writes_counter (insns ! pc) counter") auto
  qed simp
qed simp

lemma stride_scan_found:
  "stride_scan insns counter cp pcs None = Inr (Some (s, site)) \<Longrightarrow>
     site \<in> set pcs \<and> site < length insns \<and> strides_by (insns ! site) counter s
     \<and> (\<forall>pc \<in> set pcs. pc < length insns \<and> pc \<noteq> site \<longrightarrow> \<not> writes_counter (insns ! pc) counter)"
proof (induction pcs)
  case (Cons pc pcs)
  show ?case
  proof (cases "pc < length insns \<and> writes_counter (insns ! pc) counter")
    case True
    then obtain s' where "strides_by (insns ! pc) counter s'" "stride_scan insns counter cp pcs (Some (s', pc)) = Inr (Some (s, site))"
      using stride_scan_write [OF Cons.prems] by blast
    with stride_scan_rest [OF this(2)] True show ?thesis by auto
  next
    case False
    then have "stride_scan insns counter cp pcs None = Inr (Some (s, site))"
      using Cons.prems stride_scan_skip [OF Cons.prems] by (cases "pc < length insns") (simp_all add: Let_def)
    with Cons.IH False show ?thesis by auto
  qed
qed simp



section \<open>The budget holds\<close>

lemma total_loops_result:
  assumes "total_loops total_of limit order totals = Inr out"
  shows "length out = length order \<and>
    (\<forall>k < length order. (\<exists>ts. total_of (order ! k) ts = Inr (out ! k))
       \<and> (\<forall>m. limit = Some m \<longrightarrow> lb_steps (out ! k) \<le> m))"
  using assms
proof (induction order arbitrary: totals out)
  case (Cons i order)
  then obtain t rest where t: "total_of i totals = Inr t" and out: "out = t # rest"
    and rest: "total_loops total_of limit order (totals[i := Some (lb_steps t)]) = Inr rest"
    and fits: "\<forall>m. limit = Some m \<longrightarrow> lb_steps t \<le> m"
    by (auto simp: Let_def split: if_splits option.splits)
  from Cons.IH [OF rest] t fits show ?case unfolding out by (auto simp: nth_Cons split: nat.split)
qed simp

lemma loop_total_result:
  assumes "loop_total outs cfg insns snapshots loops totals i idoms = Inr b"
  shows "loop_key (loops ! i) = (lb_header b, lb_latch b)
    \<and> (\<exists>t. infer_traversals outs cfg insns snapshots (loops ! i) loops idoms = Inr (lb_cond_pc b, t) \<and> lb_trips b = t + 1)"
  using assms by (auto simp: loop_total_def Let_def loop_key_def)

text \<open>The keys of the loops are the back-edges; every body holds its header.\<close>

definition back_edges :: "(graph \<Rightarrow> nat \<Rightarrow> nat \<Rightarrow> nat list option) \<Rightarrow> cfg \<Rightarrow> (nat \<times> nat) set" where
  "back_edges doms cfg = {(header, latch). (latch, header) \<in> edge_rel (c_graph cfg)
     \<and> (latch = header \<or> dominates (doms (c_graph cfg) (c_entry cfg)) header latch)}"

lemma dedup_adjacent_keys: "key ` set (dedup_adjacent key xs) = key ` set xs"
  by (induction key xs rule: dedup_adjacent.induct) auto

lemma dedup_adjacent_sub: "set (dedup_adjacent key xs) \<subseteq> set xs"
  by (induction key xs rule: dedup_adjacent.induct) (auto split: if_splits)

lemma those_Some: "those xs = Some ys \<longleftrightarrow> xs = map Some ys"
  by (induction xs arbitrary: ys) (auto split: option.splits simp: Cons_eq_map_conv)

lemma natural_loops_result:
  assumes ins: "ins_spec ins (c_graph cfg)" and loops: "natural_loops doms ins cfg = Some loops"
  shows "loop_key ` set loops = back_edges doms cfg"
    and "l \<in> set loops \<Longrightarrow> loop_body ins (c_graph cfg) (nl_header l) (nl_latch l) = Some (nl_body l)
      \<and> distinct (nl_body l) \<and> nl_header l \<in> set (nl_body l)"
proof -
  let ?g = "c_graph cfg"
  let ?backs = "filter (\<lambda>(latch, header, kind). latch = header \<or> dominates (doms ?g (c_entry cfg)) header latch) (g_edges ?g)"
  let ?loop = "\<lambda>(latch, header, kind::edge_kind). map_option
      (\<lambda>body. \<lparr>nl_header = header, nl_latch = latch, nl_body = body\<rparr>) (loop_body ins ?g header latch)"
  obtain raw where raw: "map ?loop ?backs = map Some raw" and dedup: "loops = dedup_adjacent loop_key (sort_key loop_key raw)"
    using loops by (auto simp: natural_loops_def Let_def those_Some)
  have at: "\<exists>body. loop_body ins ?g header latch = Some body \<and> ?loop (latch, header, kind) = Some \<lparr>nl_header = header, nl_latch = latch, nl_body = body\<rparr>"
    for latch header kind using loop_body_result [OF ins, of header latch] by auto
  have sub: "\<exists>e \<in> set ?backs. ?loop e = Some l" if "l \<in> set raw" for l
  proof -
    have "Some l \<in> Some ` set raw" using that by simp
    also have "\<dots> = ?loop ` set ?backs" using arg_cong [OF raw, of set] by (simp only: set_map)
    finally show ?thesis by (rule imageE) (erule bexI [rotated], erule sym)
  qed
  have sup: "\<exists>l \<in> set raw. ?loop e = Some l" if "e \<in> set ?backs" for e
  proof -
    have "?loop e \<in> ?loop ` set ?backs" using that by (rule imageI)
    also have "\<dots> = Some ` set raw" using arg_cong [OF raw, of set] by (simp only: set_map)
    finally have "?loop e \<in> Some ` set raw" .
    then show ?thesis by auto
  qed
  have key: "loop_key ` set raw = back_edges doms cfg"
  proof (intro set_eqI iffI)
    fix x assume "x \<in> loop_key ` set raw"
    then obtain l where l: "l \<in> set raw" "x = loop_key l" by blast
    from sub [OF l(1)] l(2) show "x \<in> back_edges doms cfg"
      by (auto simp: loop_key_def back_edges_def edge_rel_def)
  next
    fix x assume "x \<in> back_edges doms cfg"
    then obtain h la k where x: "x = (h, la)" "(la, h, k) \<in> set ?backs"
      by (auto simp: back_edges_def edge_rel_def)
    from sup [OF x(2)] obtain l where l: "l \<in> set raw" "?loop (la, h, k) = Some l" by blast
    then have "loop_key l = x" by (auto simp: loop_key_def x(1))
    then show "x \<in> loop_key ` set raw" using l(1) by blast
  qed
  show "loop_key ` set loops = back_edges doms cfg"
    unfolding dedup dedup_adjacent_keys set_sort by (rule key)
  assume "l \<in> set loops"
  then have "l \<in> set raw" using dedup_adjacent_sub [of loop_key "sort_key loop_key raw"] unfolding dedup set_sort by blast
  from sub [OF this] obtain latch header kind where e: "?loop (latch, header, kind) = Some l" by auto
  obtain body where "loop_body ins ?g header latch = Some body" "distinct body" "header \<in> set body"
    using loop_body_result [OF ins, of header latch] by auto
  with e show "loop_body ins (c_graph cfg) (nl_header l) (nl_latch l) = Some (nl_body l)
      \<and> distinct (nl_body l) \<and> nl_header l \<in> set (nl_body l)" by auto
qed

text \<open>Every cost is at least the straight count.\<close>

definition body_len :: "cfg \<Rightarrow> natural_loop \<Rightarrow> nat" where
  "body_len cfg l = sum_list (map (\<lambda>n. block_len (g_nodes (c_graph cfg) ! n)) (nl_body l))"

definition totals_ok :: "cfg \<Rightarrow> natural_loop list \<Rightarrow> nat option list \<Rightarrow> bool" where
  "totals_ok cfg loops totals \<longleftrightarrow> length totals = length loops
     \<and> (\<forall>j < length loops. \<forall>v. totals ! j = Some v \<longrightarrow> block_len (g_nodes (c_graph cfg) ! nl_header (loops ! j)) \<le> v)"

lemma node_cost_straight:
  assumes "totals_ok cfg loops totals"
  shows "block_len (g_nodes (c_graph cfg) ! node) \<le> node_cost cfg loops totals index node"
proof (cases "inner_loop loops index node")
  case (Some j)
  then have j: "j < length loops" "nl_header (loops ! j) = node"
    by (auto simp: inner_loop_def Let_def find_Some_iff)
  then show ?thesis using assms Some by (cases "totals ! j") (auto simp: node_cost_def totals_ok_def unwrap_or_def)
qed (simp add: node_cost_def)

lemma checked_saturated: "checked_u64 (min (int x) (2 ^ 128 - 1)) = Some y \<longleftrightarrow> y = x \<and> x < 2 ^ 64"
  by (auto simp: checked_u64_def min_def)

lemma loop_total_covers:
  assumes total: "loop_total outs cfg insns snapshots loops totals i idoms = Inr b" and ok: "totals_ok cfg loops totals"
    and header: "nl_header (loops ! i) \<in> set (nl_body (loops ! i))"
  shows "lb_trips b * body_len cfg (loops ! i) \<le> lb_steps b"
    "block_len (g_nodes (c_graph cfg) ! nl_header (loops ! i)) \<le> lb_steps b"
proof -
  let ?body = "sum_list (map (node_cost cfg loops totals i) (nl_body (loops ! i)))"
  obtain t where "checked_u64 (min (int ((t + 1) * ?body)) (2 ^ 128 - 1)) = Some (lb_steps b)" "lb_trips b = t + 1"
    using total by (auto simp: loop_total_def Let_def ok_or_def split: option.splits)
  then have steps: "lb_steps b = lb_trips b * ?body" "0 < lb_trips b"
    unfolding checked_saturated by simp_all
  have "body_len cfg (loops ! i) \<le> ?body"
    unfolding body_len_def by (rule sum_list_mono) (rule node_cost_straight [OF ok])
  then show "lb_trips b * body_len cfg (loops ! i) \<le> lb_steps b" using steps by simp
  have "block_len (g_nodes (c_graph cfg) ! nl_header (loops ! i)) \<le> node_cost cfg loops totals i (nl_header (loops ! i))"
    by (rule node_cost_straight [OF ok])
  also have "\<dots> \<le> ?body" using header by (intro member_le_sum_list) auto
  also have "\<dots> \<le> lb_steps b" using steps by simp
  finally show "block_len (g_nodes (c_graph cfg) ! nl_header (loops ! i)) \<le> lb_steps b" .
qed

lemma total_loops_covers:
  assumes "total_loops (\<lambda>i totals. loop_total outs cfg insns snapshots loops totals i idoms) limit order totals = Inr out"
    and "totals_ok cfg loops totals" "set order \<subseteq> {..<length loops}"
    and headers: "\<forall>l \<in> set loops. nl_header l \<in> set (nl_body l)"
  shows "\<forall>b \<in> set out. \<exists>l \<in> set loops. loop_key l = (lb_header b, lb_latch b) \<and> lb_trips b * body_len cfg l \<le> lb_steps b
    \<and> (\<exists>t. infer_traversals outs cfg insns snapshots l loops idoms = Inr (lb_cond_pc b, t) \<and> lb_trips b = t + 1)"
  using assms(1-3)
proof (induction order arbitrary: totals out)
  case (Cons i order)
  then obtain t rest where t: "loop_total outs cfg insns snapshots loops totals i idoms = Inr t" and out: "out = t # rest"
    and rest: "total_loops (\<lambda>i totals. loop_total outs cfg insns snapshots loops totals i idoms) limit order
      (totals[i := Some (lb_steps t)]) = Inr rest"
    by (auto simp: Let_def split: if_splits option.splits)
  have i: "i < length loops" using Cons.prems(3) by simp
  then have l: "loops ! i \<in> set loops" by simp
  note C = loop_total_covers [OF t Cons.prems(2) bspec [OF headers l]]
  have "totals_ok cfg loops (totals[i := Some (lb_steps t)])"
    using Cons.prems(2) C(2) i by (auto simp: totals_ok_def nth_list_update split: if_splits)
  with Cons.IH [OF rest] Cons.prems(3) have "\<forall>b \<in> set rest. \<exists>l \<in> set loops. loop_key l = (lb_header b, lb_latch b)
      \<and> lb_trips b * body_len cfg l \<le> lb_steps b
      \<and> (\<exists>t. infer_traversals outs cfg insns snapshots l loops idoms = Inr (lb_cond_pc b, t) \<and> lb_trips b = t + 1)" by simp
  then show ?case unfolding out using C(1) l loop_total_result [OF t] by auto
qed simp

lemma natural_loops_total: "ins_spec ins (c_graph cfg) \<Longrightarrow> natural_loops doms ins cfg \<noteq> None"
proof -
  assume "ins_spec ins (c_graph cfg)"
  then have total: "loop_body ins (c_graph cfg) h l \<noteq> None" for h l
    using loop_body_result by (metis option.distinct(1))
  have "those (map (\<lambda>(latch, header, kind). map_option
      (\<lambda>body. \<lparr>nl_header = header, nl_latch = latch, nl_body = body\<rparr>) (loop_body ins (c_graph cfg) header latch)) es) \<noteq> None" for es :: "edge list"
    by (induction es) (use total in \<open>auto split: option.split\<close>)
  then show ?thesis by (simp add: natural_loops_def Let_def)
qed

lemma loops_accounted:
  assumes all: "total_loops (\<lambda>i totals. loop_total outs cfg insns snapshots loops totals i idoms) limit order totals = Inr out"
    and order: "set order = {..<length loops}"
  shows "(\<lambda>b. (lb_header b, lb_latch b)) ` set out = loop_key ` set loops"
    and "b \<in> set out \<Longrightarrow> limit = Some m \<Longrightarrow> lb_steps b \<le> m"
proof -
  note T = total_loops_result [OF all]
  have len: "length out = length order" using T by blast
  have at: "loop_key (loops ! (order ! k)) = (lb_header (out ! k), lb_latch (out ! k))" if "k < length order" for k
    using T that loop_total_result by blast
  have "map (\<lambda>b. (lb_header b, lb_latch b)) out = map (\<lambda>i. loop_key (loops ! i)) order"
    by (rule nth_equalityI) (use len at in auto)
  then have "(\<lambda>b. (lb_header b, lb_latch b)) ` set out = loop_key ` ((!) loops ` {..<length loops})"
    by (metis order set_map image_image)
  also have "(!) loops ` {..<length loops} = set loops"
    using nth_image [of "length loops" loops] by (simp add: atLeast0LessThan)
  finally show "(\<lambda>b. (lb_header b, lb_latch b)) ` set out = loop_key ` set loops" .
  assume "b \<in> set out" "limit = Some m"
  then show "lb_steps b \<le> m" using T len by (metis in_set_conv_nth)
qed

text \<open>A bound per back-edge, within the budget, that pays for every pass over the body.\<close>

definition budgeted :: "edge_view \<Rightarrow> cfg \<Rightarrow> insn list \<Rightarrow> reg_type list option list \<Rightarrow> (nat \<Rightarrow> nat list option)
    \<Rightarrow> natural_loop list \<Rightarrow> nat option \<Rightarrow> loop_bound \<Rightarrow> bool" where
  "budgeted outs cfg insns snapshots idoms loops limit b \<longleftrightarrow>
     (\<forall>m. limit = Some m \<longrightarrow> lb_steps b \<le> m)
   \<and> (\<exists>l \<in> set loops. loop_key l = (lb_header b, lb_latch b) \<and> lb_trips b * body_len cfg l \<le> lb_steps b
        \<and> (\<exists>t. infer_traversals outs cfg insns snapshots l loops idoms = Inr (lb_cond_pc b, t) \<and> lb_trips b = t + 1))"

lemma enforce_result:
  assumes ins: "ins_spec ins (c_graph cfg)"
  shows "\<exists>r. enforce_loop_bounds cyclic doms ins outs cfg insns snapshots limit = Some r \<and>
    (\<forall>out. r = Inr out \<and> cyclic (c_graph cfg) \<longrightarrow>
       (\<lambda>b. (lb_header b, lb_latch b)) ` set out = back_edges doms cfg
     \<and> (\<forall>b \<in> set out. budgeted outs cfg insns snapshots (doms (c_graph cfg) (c_entry cfg))
            (the (natural_loops doms ins cfg)) limit b))"
proof (cases "cyclic (c_graph cfg)")
  case True
  obtain loops where loops: "natural_loops doms ins cfg = Some loops"
    using natural_loops_total [OF ins, of doms] by blast
  note N = natural_loops_result [OF ins loops]
  define order where "order = sort_key (\<lambda>i. length (nl_body (loops ! i))) [0..<length loops]"
  have order: "set order = {..<length loops}" by (simp add: order_def atLeast0LessThan)
  let ?idoms = "doms (c_graph cfg) (c_entry cfg)"
  let ?all = "total_loops (\<lambda>i totals. loop_total outs cfg insns snapshots loops totals i ?idoms)
    limit order (replicate (length loops) None)"
  have r: "enforce_loop_bounds cyclic doms ins outs cfg insns snapshots limit
     = Some (bind_res ?all (\<lambda>out. Inr (sort_key (\<lambda>b. (lb_header b, lb_latch b)) out)))"
    using True loops by (simp add: enforce_loop_bounds_def has_back_edge_def Let_def order_def)
  show ?thesis
  proof (cases ?all)
    case (Inr out)
    note A = loops_accounted [OF Inr order]
    have covers: "\<forall>b \<in> set out. \<exists>l \<in> set loops. loop_key l = (lb_header b, lb_latch b) \<and> lb_trips b * body_len cfg l \<le> lb_steps b
      \<and> (\<exists>t. infer_traversals outs cfg insns snapshots l loops ?idoms = Inr (lb_cond_pc b, t) \<and> lb_trips b = t + 1)"
      by (rule total_loops_covers [OF Inr]) (use order N(2) in \<open>auto simp: totals_ok_def\<close>)
    have "budgeted outs cfg insns snapshots ?idoms loops limit b" if "b \<in> set out" for b
      unfolding budgeted_def using A(2) [OF that] covers that by blast
    then show ?thesis using A(1) N(1) loops unfolding r Inr
      by (intro exI [of _ "Inr (sort_key (\<lambda>b. (lb_header b, lb_latch b)) out)"]) simp
  qed (simp add: r)
qed (simp add: enforce_loop_bounds_def has_back_edge_def)


section \<open>Properties\<close>

text \<open>An edge view computed from the edges of the graph.\<close>

definition incoming :: edge_view where
  "incoming g b = filter (\<lambda>e. fst (snd e) = b) (g_edges g)"

lemma incoming_spec: "ins_spec incoming g"
  by (auto simp: ins_spec_def incoming_def)

text \<open>
  C20: The walk that attributes a body to a back-edge returns on every graph, and collects, without
  repetition, the header and the nodes that reach the latch without passing the header.
\<close>

theorem loop_body_spec:
  assumes "ins_spec ins g"
  shows "\<exists>body. loop_body ins g header latch = Some body \<and> distinct body
    \<and> set body = insert header ((back_step g header)\<^sup>* `` {latch})"
  using loop_body_result [OF assms] .

theorem loop_body_spec_witness:
  "\<exists>body. loop_body incoming \<lparr>g_nodes = [], g_edges = [(0, 1, Fallthrough), (1, 0, BranchTrue)]\<rparr> 0 1 = Some body
    \<and> distinct body \<and> set body = insert 0 ((back_step \<lparr>g_nodes = [], g_edges = [(0, 1, Fallthrough), (1, 0, BranchTrue)]\<rparr> 0)\<^sup>* `` {1})"
  by (rule loop_body_spec [OF incoming_spec])

text \<open>
  C11: The trip count of a loop tested before its stride.  When the continue-condition of a 64-bit
  jump is counted as \<open>t\<close> from an initial range, then from every initial value of the range the
  machine's jump continues at most \<open>t\<close> times, exactly \<open>t\<close> times if the range is one value, and
  leaves, without the counter wrapping.  Beyond the code's own guards this needs an inequality test
  to be approached by the stride and an unsigned count downwards not to step over zero.
\<close>

theorem count_traversals_exact:
  fixes k :: i32
  assumes cond: "continue_cond op (sint k) taken = Some cc"
    and count: "count_traversals cc stride lo hi pc = Inr t"
    and c: "lo \<le> sint c" "sint c \<le> hi" and guard: "cc_signed cc \<or> 0 \<le> lo \<and> 0 \<le> sint k"
    and stride: "i32_bounds stride" "stride \<noteq> 0" "toward cc stride (sint c)" "lands cc stride"
  shows "\<exists>n. int n \<le> t \<and> (lo = hi \<longrightarrow> int n = t) \<and> exits_after op (scast k) taken (word_of_int stride) c n"
proof -
  have b: "cc_bound cc = sint k" using continue_cond_cmp [OF cond] by simp
  then have "i32_bounds (cc_bound cc)" using sint_lt [of k] sint_ge [of k] by (simp add: i32_bounds_def)
  from trips_exact [OF count c sint_in_i64 this stride(1-3)]
  obtain n where n: "int n \<le> t" "lo = hi \<longrightarrow> int n = t" "trips cc stride (sint c) n"
    and range: "\<forall>i \<le> n. in_i64 (sint c + int i * stride)" by blast
  have "signed_cmp op \<or> 0 \<le> sint c + int i * stride \<and> 0 \<le> sint k" if "i \<le> n" for i
    using trips_order [OF n(3) _ _ stride(4) _ _ that] continue_cond_cmp [OF cond] guard c b by fastforce
  then show ?thesis using trips_words [OF cond n(3)] n range by blast
qed

theorem count_traversals_exact_witness:
  "\<exists>n. int n \<le> 4 \<and> ((0::int) = 0 \<longrightarrow> int n = 4) \<and> exits_after Lt (scast (10 :: i32)) True (word_of_int 3) 0 n"
  by (rule count_traversals_exact [of Lt 10 True "Below 10 True False" 3 0 0 7])
    (simp_all add: continue_cond_def div_ceil_def i32_bounds_def toward_def lands_def)



text \<open>
  C12: The stride that is counted is the counter's only writer: an accepted stride is a nonzero constant
  add or sub of the loop's body, in a block on every path to the latch, and no other instruction of
  any loop body writes the counter.
\<close>

theorem stride_single_writer:
  assumes stride: "find_stride cfg insns desc counter pc = Inr (s, site)"
    and prov: "check_counter_provenance cfg insns loops idoms desc counter site pc = Inr ()"
  shows "s \<noteq> 0 \<and> site < length insns \<and> strides_by (insns ! site) counter s
    \<and> (\<exists>node \<in> set (nl_body desc). in_block cfg site node \<and> dominates idoms node (nl_latch desc))
    \<and> (\<forall>l \<in> set loops. \<forall>node \<in> set (nl_body l). \<forall>p < length insns.
         in_block cfg p node \<and> p \<noteq> site \<longrightarrow> \<not> writes_counter (insns ! p) counter)"
proof -
  have scan: "stride_scan insns counter pc (concat (map (node_pcs cfg) (nl_body desc))) None = Inr (Some (s, site))" and s: "s \<noteq> 0"
    using stride by (auto simp: find_stride_def ok_or_def split: option.splits if_splits)
  have live: "\<exists>node \<in> set (nl_body desc). in_block cfg site node \<and> dominates idoms node (nl_latch desc)"
    using prov by (auto simp: check_counter_provenance_def Let_def split: if_splits option.splits)
      (metis find_Some_iff nth_mem)
  have "\<not> list_ex (\<lambda>(q, insn). q \<noteq> site \<and> writes_counter insn counter
      \<and> list_ex (\<lambda>l. list_ex (in_block cfg q) (nl_body l)) loops) (enumerate 0 insns)"
    using prov by (auto simp: check_counter_provenance_def Let_def split: if_splits)
  then have "\<not> writes_counter (insns ! p) counter"
    if "l \<in> set loops" "node \<in> set (nl_body l)" "p < length insns" "in_block cfg p node" "p \<noteq> site" for l node p
    using that by (fastforce simp: list_ex_iff in_set_enumerate_eq)
  with stride_scan_found [OF scan] s live show ?thesis by blast
qed

theorem stride_single_writer_witness:
  "(3::int) \<noteq> 0 \<and> strides_by (Alu B64 Add (Reg 1) (ImmOp 3)) (Reg 1) 3"
  using stride_single_writer [of "\<lparr>c_graph = \<lparr>g_nodes = [\<lparr>bb_start = 0, bb_end = 2\<rparr>], g_edges = [(0, 0, BranchTrue)]\<rparr>,
      c_entry = 0, c_block_of_pc = [0, 0], c_slot_of = [0, 1], c_rpo = [0]\<rparr>"
    "[Alu B64 Add (Reg 1) (ImmOp 3), Jump B64 Lt (Reg 1) (ImmOp 10) (- 2)]" "\<lparr>nl_header = 0, nl_latch = 0, nl_body = [0]\<rparr>" "Reg 1" 1
    3 0 "[\<lparr>nl_header = 0, nl_latch = 0, nl_body = [0]\<rparr>]" "\<lambda>n. Some [n]"]
  by (simp add: find_stride_def node_pcs_def check_counter_provenance_def in_block_def dominates_def writes_counter_def
      ok_or_def upt_rec Let_def reg_index_def)

text \<open>
  C9: The budget.  On a cyclic graph the enforcement returns, and when it accepts there is one bound for
  every back-edge and for nothing else; each bound's trips are one more than the inferred
  traversals, its steps pay for that many passes over the whole body, and fit the limit.
\<close>

theorem enforce_budget:
  assumes "ins_spec ins (c_graph cfg)" "cyclic (c_graph cfg)"
  shows "\<exists>r. enforce_loop_bounds cyclic doms ins outs cfg insns snapshots limit = Some r \<and>
    (\<forall>bounds. r = Inr bounds \<longrightarrow>
       (\<lambda>b. (lb_header b, lb_latch b)) ` set bounds = back_edges doms cfg
     \<and> (\<forall>b \<in> set bounds. budgeted outs cfg insns snapshots (doms (c_graph cfg) (c_entry cfg))
            (the (natural_loops doms ins cfg)) limit b))"
  using enforce_result [OF assms(1), of cyclic doms outs insns snapshots limit] assms(2) by blast

definition stride_cfg :: cfg where
  "stride_cfg = \<lparr>c_graph = \<lparr>g_nodes = [\<lparr>bb_start = 0, bb_end = 2\<rparr>], g_edges = [(0, 0, BranchTrue)]\<rparr>,
     c_entry = 0, c_block_of_pc = [0, 0], c_slot_of = [0, 1], c_rpo = [0]\<rparr>"

definition stride_insns :: "insn list" where
  "stride_insns = [Alu B64 Add (Reg 1) (ImmOp 3), Jump B64 Lt (Reg 1) (ImmOp 10) (- 2)]"

abbreviation enforce_example :: "nat \<Rightarrow> (verify_error + loop_bound list) option" where
  "enforce_example limit \<equiv> enforce_loop_bounds (\<lambda>g. g_edges g \<noteq> []) (\<lambda>g e n. Some [n]) incoming (\<lambda>g b. g_edges g)
     stride_cfg stride_insns [Some (replicate 11 (Scalar (exact 0)))] (Some limit)"

lemma enforce_example_runs:
  "enforce_example 10 = Some (Inr [\<lparr>lb_header = 0, lb_latch = 0, lb_cond_pc = 1, lb_trips = 5, lb_steps = 10\<rparr>])"
  by code_simp

theorem enforce_budget_witness:
  "\<exists>b. enforce_example 10 = Some (Inr [b]) \<and> lb_steps b \<le> 10 \<and> (lb_header b, lb_latch b) \<in> back_edges (\<lambda>g e n. Some [n]) stride_cfg"
proof -
  have "g_edges (c_graph stride_cfg) \<noteq> []" by (simp add: stride_cfg_def)
  from enforce_budget [where ins = incoming and cyclic = "\<lambda>g. g_edges g \<noteq> []", OF incoming_spec this,
      of "\<lambda>g e n. Some [n]" "\<lambda>g b. g_edges g" stride_insns "[Some (replicate 11 (Scalar (exact 0)))]" "Some 10"]
  show ?thesis unfolding enforce_example_runs by (auto simp: budgeted_def)
qed

text \<open>
  Trip counts that are too small.  A loop \<open>sub r, 2; jgt r, 0\<close> from 5 is counted as three
  traversals, but an unsigned counter steps over zero and the jump continues for ever; a do-while
  loop whose stride leads away from its bound is counted as zero traversals if it starts on the
  bound, and continues; an equality that the first stride reaches is counted as zero, and continues.
\<close>

theorem trip_counts_too_small:
  "count_traversals (Above 0 True False) (- 2) 5 5 pc = Inr 3
   \<and> continue_cond Gt 0 True = Some (Above 0 True False) \<and> (\<forall>i. jump_taken Gt (5 + of_nat i * - 2) 0 B64)
   \<and> count_traversals (Below 0 True True) (- 1) 0 0 pc = Inr 0
   \<and> continue_cond Slt 0 True = Some (Below 0 True True) \<and> jump_taken Slt (0 + - 1) 0 B64
   \<and> count_traversals (CcEq 5 True) 1 4 4 pc = Inr 0
   \<and> continue_cond JEq 5 True = Some (CcEq 5 True) \<and> jump_taken JEq (4 + 1) 5 B64"
proof -
  have "(5 :: i64) + of_nat i * - 2 \<noteq> 0" for i :: nat
  proof
    assume zero: "(5 :: i64) + of_nat i * - 2 = 0"
    have "(5 :: i64) = (5 + of_nat i * - 2) + 2 * of_nat i" by (simp add: algebra_simps)
    then have "(5 :: i64) = 2 * of_nat i" unfolding zero by (simp only: add_0)
    then have "even (5 :: i64)" by (rule dvdI)
    then show False by simp
  qed
  then have "jump_taken Gt (5 + of_nat i * - 2) 0 B64" for i by (simp add: jump_taken_def word_gt_0)
  then show ?thesis by (simp add: div_ceil_def continue_cond_def jump_taken_def Let_def)
qed

end
