(* ===== verification/VCore.thy ===== *)
theory VCore
  imports VFix Bound
begin

text \<open>
  The entry points of \<open>crates/ebpf-verifier/src/verify.rs\<close>: \<open>verify_core\<close> runs the worklist and then
  enforces the loop bounds on the snapshots it took; \<open>verify\<close> and \<open>verify_with_config\<close> call it.  Their
  promises to the caller of the interpreter are the properties of this theory.  The trace that
  \<open>verify_traced\<close> collects on the way is not modelled.
\<close>

section \<open>Entry points\<close>

record verified_program =
  vp_total_pc :: nat

definition verify_core :: "edge_view \<Rightarrow> edge_view \<Rightarrow> (graph \<Rightarrow> nat \<Rightarrow> nat \<Rightarrow> nat list option) \<Rightarrow> (graph \<Rightarrow> bool)
    \<Rightarrow> insn list \<Rightarrow> cfg \<Rightarrow> verify_config \<Rightarrow> (verify_error + verified_program) option" where
  "verify_core outs ins doms cyclic insns cfg config =
     (case verify_fixpoint outs cyclic insns cfg config of
        None \<Rightarrow> None
      | Some (Inl e) \<Rightarrow> Some (Inl e)
      | Some (Inr w) \<Rightarrow>
          map_option (\<lambda>r. bind_res r (\<lambda>_. Inr \<lparr>vp_total_pc = wk_total_pc w\<rparr>))
            (enforce_loop_bounds cyclic doms ins outs cfg insns (wk_snapshots w) (vc_max_loop_steps config)))"

definition verify_with_config :: "edge_view \<Rightarrow> edge_view \<Rightarrow> (graph \<Rightarrow> nat \<Rightarrow> nat \<Rightarrow> nat list option) \<Rightarrow> (graph \<Rightarrow> bool)
    \<Rightarrow> insn list \<Rightarrow> cfg \<Rightarrow> verify_config \<Rightarrow> (verify_error + verified_program) option" where
  "verify_with_config outs ins doms cyclic insns cfg config = verify_core outs ins doms cyclic insns cfg config"

definition verify :: "edge_view \<Rightarrow> edge_view \<Rightarrow> (graph \<Rightarrow> nat \<Rightarrow> nat \<Rightarrow> nat list option) \<Rightarrow> (graph \<Rightarrow> bool)
    \<Rightarrow> insn list \<Rightarrow> cfg \<Rightarrow> (verify_error + verified_program) option" where
  "verify outs ins doms cyclic insns cfg = verify_with_config outs ins doms cyclic insns cfg config_default"


section \<open>Assumptions of the caller\<close>

text \<open>What petgraph documents of its edge views and its post-order.\<close>

definition petgraph_ok :: "edge_view \<Rightarrow> edge_view \<Rightarrow> (graph \<Rightarrow> nat \<Rightarrow> nat list) \<Rightarrow> graph \<Rightarrow> bool" where
  "petgraph_ok outs ins po g \<longleftrightarrow> outs_spec outs g \<and> ins_spec ins g \<and> post_order_spec po g"

text \<open>The machine is started with the stores, the packet and the data of the configuration.\<close>

definition launch_ok :: "verify_config \<Rightarrow> map_store option list \<Rightarrow> u8 list option \<Rightarrow> u8 list option \<Rightarrow> bool" where
  "launch_ok config stores data packet \<longleftrightarrow> build_stores (vc_maps config) = Inr stores \<and> maps_ok stores
     \<and> vc_packet_len config = map_option length packet \<and> (\<forall>p. packet = Some p \<longrightarrow> length p < 0x10000)
     \<and> vc_data_len config = map_option length data \<and> (\<forall>d. data = Some d \<longrightarrow> length d < 2 ^ 62)"

text \<open>The transfers that the fixpoint relied on are sound ones.\<close>

definition relies_on_sound :: "edge_view \<Rightarrow> (graph \<Rightarrow> bool) \<Rightarrow> insn list \<Rightarrow> cfg \<Rightarrow> verify_config \<Rightarrow> bool" where
  "relies_on_sound outs cyclic insns cfg config =
     (case verify_fixpoint outs cyclic insns cfg config of Some (Inr w) \<Rightarrow> fixpoint_sound insns cfg w | _ \<Rightarrow> True)"

definition loadable :: "insn list \<Rightarrow> bool" where
  "loadable insns \<longleftrightarrow> list_all wf_insn insns \<and> slot_total insns < 2 ^ 32"

abbreviation table_room :: "verify_config \<Rightarrow> bool" where
  "table_room config \<equiv> gen_room (length (build_map_table config)) (vc_widening_threshold config)"




section \<open>What the analysis gives\<close>

lemma core_result:
  assumes cfg: "build_cfg po insns = Some (Inr cfg)" and g: "petgraph_ok outs ins po (c_graph cfg)" and room: "table_room config"
  shows "\<exists>r. verify_core outs ins doms cyclic insns cfg config = Some r \<and>
    (\<forall>p. r = Inr p \<longrightarrow> (\<exists>w bounds. verify_fixpoint outs cyclic insns cfg config = Some (Inr w)
         \<and> fixpoint outs insns cfg (length (build_map_table config)) w
         \<and> (\<exists>s. wk_states w ! 0 = Some s \<and> absorbed (entry_state config) s)
         \<and> visited_ok insns w \<and> vp_total_pc p = wk_total_pc w
         \<and> enforce_loop_bounds cyclic doms ins outs cfg insns (wk_snapshots w) (vc_max_loop_steps config) = Some (Inr bounds)))"
proof -
  note G = g [unfolded petgraph_ok_def]
  obtain r where r: "verify_fixpoint outs cyclic insns cfg config = Some r"
    and R: "case r of
       Inl e \<Rightarrow> \<exists>b < length (g_nodes (c_graph cfg)). \<exists>st. run_insns insns (block_pcs cfg b) st = Inl e
     | Inr w \<Rightarrow> visited_ok insns w \<and> fixpoint outs insns cfg (length (build_map_table config)) w
         \<and> (\<exists>s. wk_states w ! 0 = Some s \<and> absorbed (entry_state config) s)"
    using fixpoint_result [OF cfg _ _ room, of outs cyclic] G by blast
  show ?thesis
  proof (cases r)
    case (Inr w)
    obtain b where b: "enforce_loop_bounds cyclic doms ins outs cfg insns (wk_snapshots w) (vc_max_loop_steps config) = Some b"
      using enforce_result G by blast
    show ?thesis using r R b by (cases b) (auto simp: verify_core_def Inr)
  qed (simp add: verify_core_def r)
qed

lemma core_covers:
  assumes cfg: "build_cfg po insns = Some (Inr cfg)" and g: "petgraph_ok outs ins po (c_graph cfg)" and room: "table_room config"
    and ok: "verify_core outs ins doms cyclic insns cfg config = Some (Inr p)" and sound: "relies_on_sound outs cyclic insns cfg config"
    and wf: "loadable insns" and launch: "launch_ok config stores data packet"
  obtains w where "fixpoint outs insns cfg (length (build_map_table config)) w" "fixpoint_sound insns cfg w"
    "covered insns cfg (length (build_map_table config)) w (start_vm insns stores data packet :: 'c vm)"
proof -
  from core_result [OF cfg g room, of doms cyclic] ok obtain w s where
    w: "verify_fixpoint outs cyclic insns cfg config = Some (Inr w)" and
    fp: "fixpoint outs insns cfg (length (build_map_table config)) w" "wk_states w ! 0 = Some s"
      "absorbed (entry_state config) s" by auto
  have "describes (length (build_map_table config)) (entry_state config) (start_vm insns stores data packet :: 'c vm)"
    by (rule entry_described) (use wf launch in \<open>simp_all add: loadable_def launch_ok_def\<close>)
  from start_covered [OF cfg fp this]
  have "covered insns cfg (length (build_map_table config)) w (start_vm insns stores data packet :: 'c vm)" by simp
  moreover have "fixpoint_sound insns cfg w" using sound w by (simp add: relies_on_sound_def)
  ultimately show ?thesis using fp(1) that by blast
qed

lemma covered_next:
  assumes "covered insns cfg n w vm" "v_pc vm < length insns" "build_cfg po insns = Some (Inr cfg)"
    and "petgraph_ok outs ins po (c_graph cfg)" "fixpoint outs insns cfg n w" "fixpoint_sound insns cfg w" "loadable insns"
  shows "case step custom vm of
      (Continue, vm') \<Rightarrow> covered insns cfg n w vm'
        \<and> (v_pc vm' = length insns \<or> (\<exists>kind. transfers insns (v_pc vm) kind (v_pc vm')))
    | (SExit c, vm') \<Rightarrow> True | _ \<Rightarrow> False"
  by (rule covered_step) (use assms in \<open>auto simp: petgraph_ok_def loadable_def\<close>)


section \<open>Loop-free programs\<close>

text \<open>The instructions that may still run: the rest of the block, and every block behind it.\<close>

definition still_ahead :: "insn list \<Rightarrow> cfg \<Rightarrow> nat \<Rightarrow> nat set" where
  "still_ahead insns cfg pc = {q. q < length insns
     \<and> ((block_at cfg pc, block_at cfg q) \<in> (edge_rel (c_graph cfg))\<^sup>+ \<or> block_at cfg q = block_at cfg pc \<and> pc \<le> q)}"

lemma still_ahead_finite [simp]: "finite (still_ahead insns cfg pc)"
  by (rule finite_subset [of _ "{..<length insns}"]) (auto simp: still_ahead_def)

lemma still_ahead_step:
  assumes cfg: "build_cfg po insns = Some (Inr cfg)" and acyclic: "acyclic (edge_rel (c_graph cfg))"
    and t: "transfers insns pc kind pc'"
  shows "card (still_ahead insns cfg pc') < card (still_ahead insns cfg pc)"
proof (rule psubset_card_mono)
  have pc: "pc \<in> still_ahead insns cfg pc" using t by (simp add: still_ahead_def transfers_def)
  have no: "(b, b) \<notin> (edge_rel (c_graph cfg))\<^sup>+" for b using acyclic by (simp add: acyclic_def)
  from build_cfg_simulates_aux [OF cfg t]
  have "still_ahead insns cfg pc' \<subseteq> still_ahead insns cfg pc - {pc}"
  proof (elim disjE conjE)
    assume "block_at cfg pc' = block_at cfg pc" "pc' = pc + 1"
    then show ?thesis using no by (auto simp: still_ahead_def)
  next
    assume "(block_at cfg pc, block_at cfg pc', kind) \<in> set (g_edges (c_graph cfg))"
    then have e: "(block_at cfg pc, block_at cfg pc') \<in> edge_rel (c_graph cfg)" by (auto simp: edge_rel_def)
    then have "(block_at cfg pc, block_at cfg q) \<in> (edge_rel (c_graph cfg))\<^sup>+" if "q \<in> still_ahead insns cfg pc'" for q
      using that by (auto simp: still_ahead_def intro: trancl_into_trancl2)
    then show ?thesis using no by (auto simp: still_ahead_def)
  qed
  then show "still_ahead insns cfg pc' \<subset> still_ahead insns cfg pc" using pc by blast
qed simp

definition steps_left :: "insn list \<Rightarrow> cfg \<Rightarrow> nat \<Rightarrow> nat" where
  "steps_left insns cfg pc = (if pc < length insns then card (still_ahead insns cfg pc) else 0)"

definition finishes :: "insn list \<Rightarrow> (vm_error + i64) option \<Rightarrow> bool" where
  "finishes insns r \<longleftrightarrow> (\<exists>code. r = Some (Inr code))
     \<or> r = Some (Inl (VmJumpOutOfBounds (length insns) (i64_or_max (length insns))))"

lemma covered_finishes:
  assumes cfg: "build_cfg po insns = Some (Inr cfg)" and acyclic: "acyclic (edge_rel (c_graph cfg))"
    and rest: "petgraph_ok outs ins po (c_graph cfg)" "fixpoint outs insns cfg n w" "fixpoint_sound insns cfg w" "loadable insns"
    and "covered insns cfg n w vm" "steps_left insns cfg (v_pc vm) < k"
  shows "finishes insns (fst (run_loop custom limit k vm))"
  using assms(7,8)
proof (induction k arbitrary: vm)
  case (Suc k)
  have exec: "v_exec vm = load insns" using Suc.prems(1) by (simp add: covered_def)
  show ?case
  proof (cases "v_pc vm < length insns")
    case False
    then have "v_pc vm = length insns" using Suc.prems(1) by (simp add: covered_def)
    then show ?thesis using exec by (simp add: step_def finishes_def)
  next
    case pc: True
    note N = covered_next [OF Suc.prems(1) pc cfg rest, of custom]
    show ?thesis
    proof (cases "step custom vm")
      case (Pair r vm')
      show ?thesis
      proof (cases r)
        case Continue
        then have c: "covered insns cfg n w vm'"
          and m: "v_pc vm' = length insns \<or> (\<exists>kind. transfers insns (v_pc vm) kind (v_pc vm'))" using N Pair by auto
        have "0 < card (still_ahead insns cfg (v_pc vm))"
          using pc by (auto simp: card_gt_0_iff still_ahead_def)
        then have "steps_left insns cfg (v_pc vm') < steps_left insns cfg (v_pc vm)"
          using m pc still_ahead_step [OF cfg acyclic] by (auto simp: steps_left_def transfers_def)
        then show ?thesis using Suc.IH [OF c] Suc.prems(2) Pair Continue by simp
      qed (use N Pair in \<open>auto simp: finishes_def\<close>)
    qed
  qed
qed simp


section \<open>A program without an exit\<close>

definition no_exit :: "insn list" where "no_exit = [Alu B64 Mov (Reg 0) (ImmOp 7)]"
definition no_exit_cfg :: cfg where
  "no_exit_cfg = \<lparr>c_graph = \<lparr>g_nodes = [\<lparr>bb_start = 0, bb_end = 1\<rparr>], g_edges = []\<rparr>, c_entry = 0, c_block_of_pc = [0], c_slot_of = [0], c_rpo = [0]\<rparr>"
lemma build_no_exit: "build_cfg dfs_post no_exit = Some (Inr no_exit_cfg)" 
proof -
  have s: "slot_maps no_exit = ([0], [1])" "collect_leaders no_exit [None] = [0]" "block_ranges [0] 1 = [(0, 1)]"
    "dfs_post (c_graph no_exit_cfg) 0 = [0]"
    unfolding no_exit_def no_exit_cfg_def by code_simp+
  have t: "jump_targets no_exit [0] [1] = Inr [None]" by (simp add: jump_targets_def no_exit_def)
  have f: "fill_blocks [(0, 1)] 1 = [0]" by (simp add: fill_blocks_def slice_fill_def)
  have e: "those (map (block_edges no_exit [None] [0]) (enumerate 0 [(0, 1)])) = Some [[]]"
    by (simp add: block_edges_def no_exit_def)
  have n: "length no_exit = 1" "no_exit \<noteq> []" by (simp_all add: no_exit_def)
  show ?thesis
    using s(4) by (simp only: build_cfg_def n s(1-3) t f e Let_def prod.case sum.case option.case if_False)
      (simp add: no_exit_cfg_def)
qed



section \<open>Counted loops\<close>

text \<open>The shape of the sample program, with a bound that the analysis can read.\<close>

definition counted :: "jump_op \<Rightarrow> i32 \<Rightarrow> i32 \<Rightarrow> i32 \<Rightarrow> insn list" where
  "counted op init stride k =
     [Alu B64 Mov (Reg 1) (ImmOp init), LoadImm64 (Reg 2) 10,
      Alu B64 Add (Reg 1) (ImmOp stride), Jump B64 op (Reg 1) (ImmOp k) 0xFFFE,
      Alu B64 Mov (Reg 0) (RegOp (Reg 1)), Exit]"

lemma length_counted: "length (counted op init stride k) = 6"
  by (simp add: counted_def)

lemma build_counted:
  assumes "op \<noteq> Always"
  shows "build_cfg dfs_post (counted op init stride k) = Some (Inr loop_cfg)"
proof -
  have n: "length (counted op init stride k) = 6" "counted op init stride k \<noteq> []" by (simp_all add: counted_def)
  have m: "slot_maps (counted op init stride k) = ([0, 1, 3, 4, 5, 6], [1, 2, 0, 3, 4, 5, 6])"
    unfolding counted_def by (simp add: slot_maps_def slot_width_def fill_table_def)
  have t: "jump_targets (counted op init stride k) [0, 1, 3, 4, 5, 6] [1, 2, 0, 3, 4, 5, 6]
     = Inr [None, None, None, Some 2, None, None]"
    by (simp add: jump_targets_def counted_def resolve_target_def)
  have l: "collect_leaders (counted op init stride k) [None, None, None, Some 2, None, None] = [0, 2, 4]"
    unfolding counted_def by code_simp
  have e: "those (map (block_edges (counted op init stride k) [None, None, None, Some 2, None, None] [0, 0, 1, 1, 2, 2])
     (enumerate 0 [(0, 2), (2, 4), (4, 6)]))
   = Some [[(0, 1, Fallthrough)], [(1, 1, BranchTrue), (1, 2, BranchFalse)], []]"
    using assms by (simp add: block_edges_def counted_def)
  show ?thesis
    using loop_post
    by (simp only: build_cfg_def n m t l loop_blocks loop_fill e Let_def prod.case sum.case option.case if_False)
      (simp add: loop_cfg_def)
qed

definition chain_doms :: "graph \<Rightarrow> nat \<Rightarrow> nat \<Rightarrow> nat list option" where
  "chain_doms g entry n = Some (rev [0..<n + 1])"

lemma verify_counted:
  "verify_core newest_first incoming chain_doms (\<lambda>_. True) (counted Slt 0 3 10) loop_cfg (config_with_loop_steps 100)
     = Some (Inr \<lparr>vp_total_pc = 6\<rparr>)"
  "verify_core newest_first incoming chain_doms (\<lambda>_. True) (counted Gt 5 (- 2) 0) loop_cfg (config_with_loop_steps 100)
     = Some (Inr \<lparr>vp_total_pc = 6\<rparr>)"
  by code_simp+


text \<open>A counter that steps over zero: odd for ever.\<close>

lemma load_runaway:
  "load (counted Gt 5 (- 2) 0) = [AluImm B64 Mov (Reg 1) 5, XLoadImm64 (Reg 2) 10, AluImm B64 Add (Reg 1) (- 2),
     JumpImm B64 Gt (Reg 1) 0 2, AluReg B64 Mov (Reg 0) (Reg 1), XExit]"
  unfolding counted_def
  by (simp add: load_def slot_table_def fill_table_def resolve_def slot_width_def is_end_def enumerate_eq_zip upt_rec)

definition spinning :: "'c vm \<Rightarrow> bool" where
  "spinning vm \<longleftrightarrow> v_exec vm = load (counted Gt 5 (- 2) 0) \<and> length (v_regs vm) = 11
     \<and> (v_pc vm = 0 \<or> v_pc vm = 1 \<and> v_regs vm ! 1 = 5 \<or> (v_pc vm = 2 \<or> v_pc vm = 3) \<and> odd (v_regs vm ! 1))"

lemma spinning_step: "spinning vm \<Longrightarrow> \<exists>vm'. step custom vm = (Continue, vm') \<and> spinning vm'"
proof -
  assume s: "spinning vm"
  then consider "v_pc vm = 0" | "v_pc vm = 1" "v_regs vm ! 1 = 5" | "v_pc vm = 2" "odd (v_regs vm ! 1)" | "v_pc vm = 3" "odd (v_regs vm ! 1)"
    by (auto simp: spinning_def)
  then show ?thesis
  proof cases
    case 4
    then have "v_regs vm ! 1 \<noteq> 0" by auto
    then show ?thesis using 4 s
      by (simp add: step_def spinning_def load_runaway reg_get_def reg_index_def jump_taken_def word_gt_0)
  qed (use s in \<open>simp_all add: step_def spinning_def load_runaway write_dst_def is_frame_ptr_def frame_ptr_def
      alu_apply_def reg_get_def reg_put_def reg_index_def\<close>)
qed

lemma spinning_runs: "spinning vm \<Longrightarrow> fst (run_loop custom limit k vm) = Some (Inl (StepsExceeded limit))"
proof (induction k arbitrary: vm)
  case (Suc k)
  obtain vm' where "step custom vm = (Continue, vm')" "spinning vm'" using spinning_step [OF Suc.prems] by blast
  then show ?case using Suc.IH by simp
qed simp


section \<open>A straight program\<close>

definition return_cfg :: cfg where
  "return_cfg = \<lparr>c_graph = \<lparr>g_nodes = [\<lparr>bb_start = 0, bb_end = 2\<rparr>], g_edges = []\<rparr>, c_entry = 0,
     c_block_of_pc = [0, 0], c_slot_of = [0, 1], c_rpo = [0]\<rparr>"

lemma build_return: "build_cfg dfs_post return_seven = Some (Inr return_cfg)"
proof -
  have s: "slot_maps return_seven = ([0, 1], [1, 2])" "collect_leaders return_seven [None, None] = [0]"
    "block_ranges [0] 2 = [(0, 2)]" "dfs_post (c_graph return_cfg) 0 = [0]"
    unfolding return_seven_def return_cfg_def by code_simp+
  have t: "jump_targets return_seven [0, 1] [1, 2] = Inr [None, None]" by (simp add: jump_targets_def return_seven_def)
  have f: "fill_blocks [(0, 2)] 2 = [0, 0]" by (simp add: fill_blocks_def slice_fill_def numeral_2_eq_2)
  have e: "those (map (block_edges return_seven [None, None] [0, 0]) (enumerate 0 [(0, 2)])) = Some [[]]"
    by (simp add: block_edges_def return_seven_def)
  have n: "length return_seven = 2" "return_seven \<noteq> []" by (simp_all add: return_seven_def)
  show ?thesis
    using s(4) by (simp only: build_cfg_def n s(1-3) t f e Let_def prod.case sum.case option.case if_False)
      (simp add: return_cfg_def)
qed

lemma return_petgraph: "petgraph_ok newest_first incoming dfs_post (c_graph return_cfg)"
proof -
  have "post_order_spec dfs_post (c_graph return_cfg)"
    unfolding post_order_spec_def by (simp add: return_cfg_def edge_rel_def dfs_post_def)
  then show ?thesis by (simp add: petgraph_ok_def newest_first_spec incoming_spec)
qed

lemma loop_petgraph: "petgraph_ok newest_first incoming dfs_post (c_graph loop_cfg)"
  by (simp add: petgraph_ok_def newest_first_spec incoming_spec loop_post_order_spec)

lemma sample_room: "table_room (config_with_loop_steps m)" "table_room config_default"
  by (simp_all add: gen_room_def build_map_table_def config_with_loop_steps_def config_default_def MAX_MAP_FD_def state_bound_def)

lemma sample_launch: "launch_ok (config_with_loop_steps m) [] None None" "launch_ok config_default [] None None"
  by (simp_all add: launch_ok_def config_with_loop_steps_def config_default_def build_stores_def maps_ok_def)

lemma sample_loadable: "loadable (counted Slt 0 3 10)" "loadable return_seven"
  by (simp_all add: loadable_def counted_def return_seven_def wf_reg_def slot_total_def slot_start_def slot_width_def)

lemma sample_sound:
  "relies_on_sound newest_first (\<lambda>_. True) (counted Slt 0 3 10) loop_cfg (config_with_loop_steps 100)"
  "relies_on_sound newest_first (\<lambda>_. False) return_seven return_cfg config_default"
  by code_simp+

lemma verify_return:
  "verify newest_first incoming chain_doms (\<lambda>_. False) return_seven return_cfg = Some (Inr \<lparr>vp_total_pc = 2\<rparr>)"
  by code_simp


section \<open>Properties\<close>

text \<open>
  C2: The verifier always answers: on every program with a graph, with a widening threshold and a map
  table far below \<open>u32::MAX\<close>, the worklist and the loop analysis both end; and a verified program's
  count of visited instructions is at most its length.
\<close>

theorem verify_terminates:
  assumes "build_cfg po insns = Some (Inr cfg)" "petgraph_ok outs ins po (c_graph cfg)" "table_room config"
  shows "\<exists>r. verify_core outs ins doms cyclic insns cfg config = Some r
    \<and> (\<forall>p. r = Inr p \<longrightarrow> vp_total_pc p \<le> length insns)"
proof -
  have "wk_total_pc w \<le> length insns" if "visited_ok insns w" for w
    using that length_filter_le [of id "wk_visited w"] by (simp add: visited_ok_def)
  then show ?thesis using core_result [OF assms, of doms cyclic] by (elim exE conjE) (rule exI, rule conjI, assumption, metis)
qed

theorem verify_terminates_witness:
  "\<exists>r. verify_core newest_first incoming chain_doms (\<lambda>_. True) (counted Slt 0 3 10) loop_cfg (config_with_loop_steps 100) = Some r
    \<and> (case r of Inr p \<Rightarrow> vp_total_pc p \<le> 6 | Inl e \<Rightarrow> False)"
  using verify_terminates [OF build_counted [of Slt 0 3 10] loop_petgraph sample_room(1) [of 100],
      where doms = chain_doms and cyclic = "\<lambda>_. True"]
  by (simp add: verify_counted(1) length_counted)

text \<open>
  C1: Accepted programs do not fault: if the verifier accepts, and no transfer its fixpoint relied on is
  one of the unsound ones, then from the machine a caller prepares for the same configuration every
  machine the interpreter reaches steps without a fault and without a panic, except that it may run
  off the end of the program.
\<close>

theorem verify_sound:
  assumes "build_cfg po insns = Some (Inr cfg)" "petgraph_ok outs ins po (c_graph cfg)" "table_room config"
    and "verify_core outs ins doms cyclic insns cfg config = Some (Inr p)" "relies_on_sound outs cyclic insns cfg config"
    and "loadable insns" "launch_ok config stores data packet"
    and "reachable custom (start_vm insns stores data packet) vm"
  shows "v_pc vm = length insns \<or>
    (case fst (step custom vm) of Continue \<Rightarrow> True | SExit code \<Rightarrow> True | SError e \<Rightarrow> False | Panic \<Rightarrow> False)"
proof (rule core_covers [OF assms(1-7)])
  fix w
  assume w: "fixpoint outs insns cfg (length (build_map_table config)) w" "fixpoint_sound insns cfg w"
    "covered insns cfg (length (build_map_table config)) w (start_vm insns stores data packet :: 'a vm)"
  have cov: "covered insns cfg (length (build_map_table config)) w vm"
    by (rule covered_reachable [OF assms(8) w(3) assms(1) _ w(1,2)]) (use assms(2,6) in \<open>auto simp: petgraph_ok_def loadable_def\<close>)
  show ?thesis
  proof (cases "v_pc vm = length insns")
    case False
    with cov have "v_pc vm < length insns" by (simp add: covered_def)
    from covered_next [OF cov this assms(1,2) w(1,2) assms(6), of custom] show ?thesis
      by (auto split: prod.splits step_result.splits)
  qed simp
qed

theorem verify_sound_witness:
  "case fst (step (\<lambda>_ vm. (Continue, vm)) (start_vm (counted Slt 0 3 10) [] None None :: unit vm)) of
     Continue \<Rightarrow> True | SExit code \<Rightarrow> True | SError e \<Rightarrow> False | Panic \<Rightarrow> False"
  using verify_sound [OF build_counted loop_petgraph sample_room(1) verify_counted(1) sample_sound(1) sample_loadable(1)
      sample_launch(1) reach_start, of "\<lambda>_ vm. (Continue, vm)"]
  by (simp add: counted_def)

text \<open>
  C6: Accepted programs without loops finish: within one step more than it has instructions, the
  interpreter leaves an accepted program whose graph is acyclic through an exit, or off its end.
\<close>

theorem acyclic_accepted_finishes:
  assumes "build_cfg po insns = Some (Inr cfg)" "petgraph_ok outs ins po (c_graph cfg)" "table_room config"
    and "verify_core outs ins doms cyclic insns cfg config = Some (Inr p)" "relies_on_sound outs cyclic insns cfg config"
    and "loadable insns" "launch_ok config stores data packet"
    and "acyclic (edge_rel (c_graph cfg))" "length insns < max_steps"
  shows "finishes insns (fst (run custom max_steps (start_vm insns stores data packet)))"
proof (rule core_covers [OF assms(1-7)])
  fix w
  assume w: "fixpoint outs insns cfg (length (build_map_table config)) w" "fixpoint_sound insns cfg w"
    "covered insns cfg (length (build_map_table config)) w (start_vm insns stores data packet :: 'a vm)"
  have "card (still_ahead insns cfg 0) \<le> card {..<length insns}"
    by (rule card_mono) (auto simp: still_ahead_def)
  then have "steps_left insns cfg 0 < max_steps" using assms(9) by (simp add: steps_left_def)
  then show ?thesis
    unfolding run_def using covered_finishes [OF assms(1,8,2) w(1,2) assms(6) w(3), of max_steps] by simp
qed

theorem acyclic_accepted_finishes_witness:
  "finishes return_seven (fst (run (\<lambda>_ vm. (Continue, vm)) 3 (start_vm return_seven [] None None :: unit vm)))"
proof (rule acyclic_accepted_finishes [OF build_return return_petgraph sample_room(2)])
  show "verify_core newest_first incoming chain_doms (\<lambda>_. False) return_seven return_cfg config_default
      = Some (Inr \<lparr>vp_total_pc = 2\<rparr>)"
    using verify_return by (simp add: verify_def verify_with_config_def)
  show "acyclic (edge_rel (c_graph return_cfg))" "length return_seven < 3"
    by (simp_all add: return_cfg_def edge_rel_def acyclic_def return_seven_def)
qed (rule sample_sound(2) sample_loadable(2) sample_launch(2))+

text \<open>
  C21: A verified loop that never ends.  With a budget of a hundred steps the verifier accepts the loop
  that subtracts two from five while the counter is above zero, unsigned: its bound for it is four
  trips.  The counter is odd, steps over zero, and every budget of the interpreter runs out.
\<close>

theorem runaway_loop_accepted:
  "build_cfg dfs_post (counted Gt 5 (- 2) 0) = Some (Inr loop_cfg)
   \<and> verify_core newest_first incoming chain_doms (\<lambda>_. True) (counted Gt 5 (- 2) 0) loop_cfg (config_with_loop_steps 100)
     = Some (Inr \<lparr>vp_total_pc = 6\<rparr>)
   \<and> fst (run custom max_steps (vm_new (counted Gt 5 (- 2) 0))) = Some (Inl (StepsExceeded max_steps))"
proof -
  have "spinning (vm_new (counted Gt 5 (- 2) 0))"
    by (simp add: spinning_def vm_new_def zeroed_with_frame_pointer_def NUM_REGS_def)
  from spinning_runs [OF this] show ?thesis by (simp add: build_counted verify_counted run_def)
qed

text \<open>
  Nothing asks a program to end with an exit.  One without is accepted, and the interpreter runs off
  its end.
\<close>

theorem missing_exit_accepted:
  "build_cfg dfs_post no_exit = Some (Inr no_exit_cfg)
   \<and> verify newest_first incoming chain_doms (\<lambda>_. False) no_exit no_exit_cfg = Some (Inr \<lparr>vp_total_pc = 1\<rparr>)
   \<and> fst (run custom 2 (vm_new no_exit)) = Some (Inl (VmJumpOutOfBounds 1 1))"
proof (intro conjI)
  show "verify newest_first incoming chain_doms (\<lambda>_. False) no_exit no_exit_cfg = Some (Inr \<lparr>vp_total_pc = 1\<rparr>)"
    by code_simp
  have "load no_exit = [AluImm B64 Mov (Reg 0) 7]"
    by (rule nth_equalityI) (auto simp: load_nth no_exit_def is_end_def)
  then show "fst (run custom 2 (vm_new no_exit)) = Some (Inl (VmJumpOutOfBounds 1 1))"
    unfolding run_def numeral_2_eq_2
    by (simp add: vm_new_def step_def write_dst_def is_frame_ptr_def frame_ptr_def reg_get_put i64_or_max_def
        i64_max_def zeroed_with_frame_pointer_def NUM_REGS_def alu_apply_def)
qed (rule build_no_exit)

end
