(* ===== verification/Ssa.thy ===== *)
theory Ssa
  imports Cfg
begin

text \<open>
  The SSA form of \<open>crates/ebpf-ssa/src/lib.rs\<close>: values, operands, instructions, blocks, programs and
  errors, with the accessors that the passes, the allocator and the lowering share.  A \<open>SsaValue\<close>
  (a dense \<open>u32\<close> id) is a natural; a \<open>NodeIndex\<close> is a natural whose \<open>end()\<close> is the start
  sentinel; the \<open>usize::MAX\<close> of the definition table is \<open>None\<close>.  The petgraph graph is the list of
  its nodes and the list of its edges; \<open>adj\<close>, petgraph's \<open>Graph::edges\<close>, is an argument.
\<close>

section \<open>Data\<close>

type_synonym ssa_value = nat

datatype ssa_operand = SVal ssa_value | SImm i32

datatype ssa_insn =
    SConst ssa_value i64
  | SFramePtr ssa_value
  | SEntryCtx ssa_value
  | SCopy ssa_value ssa_value
  | SBinOp ssa_value width alu_op ssa_operand ssa_operand
  | SLoadImm64 ssa_value i64
  | SLoad "ssa_value option" mem_size ssa_value i16
  | SStore mem_size ssa_value i16 ssa_operand
  | SCall ssa_value u32 "ssa_value list"
  | SPhi ssa_value "(nat \<times> ssa_value) list"
  | SBr width jump_op ssa_operand ssa_operand "nat option" "nat option"
  | SJa nat
  | SsaExit ssa_value

record ssa_block =
  sb_start :: nat
  sb_end :: nat
  sb_live :: bool

record ssa_program =
  sp_blocks :: "ssa_block list"
  sp_edges :: "edge list"
  sp_insns :: "ssa_insn list"
  sp_entry :: nat
  sp_def_sites :: "nat option list"

datatype ssa_error =
    SIllegalInstruction nat
  | SEmptyProgram
  | OutOfRegisters
  | PhiCycle
  | CallArgCycle
  | JumpTooFar nat
  | R10FaultingLoad

type_synonym adjacency = "edge list \<Rightarrow> nat \<Rightarrow> edge list"


section \<open>Accessors\<close>

definition start_pred :: nat where
  "start_pred = 2 ^ 32 - 1"

definition is_start_pred :: "nat \<Rightarrow> bool" where
  "is_start_pred n \<longleftrightarrow> n = start_pred"

definition checked_index :: "ssa_value \<Rightarrow> nat \<Rightarrow> nat option" where
  "checked_index v count = (if v < count then Some v else None)"

fun def_dst :: "ssa_insn \<Rightarrow> ssa_value option" where
  "def_dst (SConst dst k) = Some dst"
| "def_dst (SFramePtr dst) = Some dst"
| "def_dst (SEntryCtx dst) = Some dst"
| "def_dst (SCopy dst src) = Some dst"
| "def_dst (SBinOp dst w op lhs rhs) = Some dst"
| "def_dst (SLoadImm64 dst k) = Some dst"
| "def_dst (SCall dst func args) = Some dst"
| "def_dst (SPhi dst inputs) = Some dst"
| "def_dst (SLoad dst sz base off) = dst"
| "def_dst (SStore sz base off src) = None"
| "def_dst (SBr w op lhs rhs t f) = None"
| "def_dst (SJa t) = None"
| "def_dst (SsaExit r0) = None"

definition ssa_len :: "ssa_program \<Rightarrow> nat" where
  "ssa_len prog = length (sp_insns prog)"

definition ssa_is_empty :: "ssa_program \<Rightarrow> bool" where
  "ssa_is_empty prog \<longleftrightarrow> sp_insns prog = []"

definition def_of :: "ssa_program \<Rightarrow> ssa_value \<Rightarrow> ssa_insn option" where
  "def_of prog v =
     (if v < length (sp_def_sites prog)
      then case sp_def_sites prog ! v of
             None \<Rightarrow> None
           | Some idx \<Rightarrow> if idx < length (sp_insns prog) then Some (sp_insns prog ! idx) else None
      else None)"

definition const_value :: "ssa_program \<Rightarrow> ssa_operand \<Rightarrow> i64 option" where
  "const_value prog operand =
     (case operand of
        SImm k \<Rightarrow> Some (scast k)
      | SVal v \<Rightarrow>
          (case def_of prog v of
             Some (SConst dst k) \<Rightarrow> Some k
           | Some (SLoadImm64 dst k) \<Rightarrow> Some k
           | _ \<Rightarrow> None))"

text \<open>The indices and the instructions of one block.\<close>

definition block_range :: "ssa_program \<Rightarrow> nat \<Rightarrow> nat list" where
  "block_range prog b = [sb_start (sp_blocks prog ! b)..<sb_end (sp_blocks prog ! b)]"

definition block_body :: "ssa_program \<Rightarrow> nat \<Rightarrow> ssa_insn list" where
  "block_body prog b = map ((!) (sp_insns prog)) (block_range prog b)"

definition live_block :: "ssa_program \<Rightarrow> nat \<Rightarrow> bool" where
  "live_block prog b \<longleftrightarrow> sb_live (sp_blocks prog ! b)"

definition live_blocks :: "ssa_program \<Rightarrow> nat list" where
  "live_blocks prog = filter (live_block prog) [0..<length (sp_blocks prog)]"

text \<open>The indices of the instructions of live blocks, in node order.\<close>

definition live_range :: "ssa_program \<Rightarrow> nat list" where
  "live_range prog = concat (map (block_range prog) (live_blocks prog))"

definition push_operand :: "nat \<Rightarrow> ssa_operand \<Rightarrow> (nat \<times> ssa_value) list" where
  "push_operand pos operand = (case operand of SVal v \<Rightarrow> [(pos, v)] | SImm k \<Rightarrow> [])"

fun uses_at :: "ssa_program \<Rightarrow> nat \<Rightarrow> ssa_insn \<Rightarrow> (nat \<times> ssa_value) list" where
  "uses_at prog pos (SCopy dst src) = [(pos, src)]"
| "uses_at prog pos (SBinOp dst w op lhs rhs) = push_operand pos lhs @ push_operand pos rhs"
| "uses_at prog pos (SBr w op lhs rhs t f) = push_operand pos lhs @ push_operand pos rhs"
| "uses_at prog pos (SLoad dst sz base off) = [(pos, base)]"
| "uses_at prog pos (SStore sz base off src) = (pos, base) # push_operand pos src"
| "uses_at prog pos (SCall dst func args) = map (\<lambda>arg. (pos, arg)) args"
| "uses_at prog pos (SPhi dst inputs) =
     map (\<lambda>(pred, v). (sb_end (sp_blocks prog ! pred), v))
       (filter (\<lambda>(pred, v). \<not> is_start_pred pred \<and> live_block prog pred) inputs)"
| "uses_at prog pos (SsaExit r0) = [(pos, r0)]"
| "uses_at prog pos _ = []"

definition reg_uses :: "ssa_program \<Rightarrow> (nat \<times> ssa_value) list" where
  "reg_uses prog = concat (map (\<lambda>pos. uses_at prog pos (sp_insns prog ! pos)) (live_range prog))"

definition start_uses :: "ssa_program \<Rightarrow> (nat \<times> ssa_value) list" where
  "start_uses prog = concat (map (\<lambda>pos.
     case sp_insns prog ! pos of
       SPhi dst inputs \<Rightarrow> map (\<lambda>(pred, v). (pos, v)) (filter (\<lambda>(pred, v). is_start_pred pred) inputs)
     | _ \<Rightarrow> []) (live_range prog))"

definition record_def :: "ssa_insn list \<Rightarrow> nat \<Rightarrow> nat option list \<Rightarrow> nat option list" where
  "record_def insns idx sites =
     (case def_dst (insns ! idx) of
        None \<Rightarrow> sites
      | Some dst \<Rightarrow> if dst < length sites then sites[dst := Some idx] else sites)"

definition rebuild_def_sites :: "ssa_program \<Rightarrow> ssa_program" where
  "rebuild_def_sites prog = prog\<lparr>sp_def_sites :=
     fold (record_def (sp_insns prog)) (live_range prog) (replicate (length (sp_def_sites prog)) None)\<rparr>"


section \<open>Successors\<close>

text \<open>The terminator and the successors of \<open>lower.rs\<close>, which the passes use.\<close>

definition is_control :: "ssa_insn \<Rightarrow> bool" where
  "is_control insn = (case insn of SBr w op lhs rhs t f \<Rightarrow> True | SJa t \<Rightarrow> True | SsaExit r0 \<Rightarrow> True | _ \<Rightarrow> False)"

definition terminator :: "ssa_program \<Rightarrow> nat \<Rightarrow> ssa_insn option" where
  "terminator prog block = find is_control (block_body prog block)"

definition dead_taken :: "ssa_insn option \<Rightarrow> bool" where
  "dead_taken term = (case term of Some (SBr w op lhs rhs t f) \<Rightarrow> op = JCall \<or> op = JExit | _ \<Rightarrow> False)"

definition live_successors :: "adjacency \<Rightarrow> ssa_program \<Rightarrow> nat \<Rightarrow> nat list" where
  "live_successors adj prog block =
     map (\<lambda>(source, target, kind). target)
       (filter (\<lambda>(source, target, kind). \<not> (dead_taken (terminator prog block) \<and> kind = BranchTrue))
         (adj (sp_edges prog) block))"

text \<open>Breadth-first reachability over a successor function: the stack's top is the head of the list.\<close>

definition reach_push :: "nat \<Rightarrow> bool list \<times> nat list \<Rightarrow> bool list \<times> nat list" where
  "reach_push succ = (\<lambda>(reachable, stack).
     if \<not> reachable ! succ then (reachable[succ := True], succ # stack) else (reachable, stack))"

partial_function (option) reach_loop :: "(nat \<Rightarrow> nat list) \<Rightarrow> bool list \<Rightarrow> nat list \<Rightarrow> bool list option" where
  "reach_loop succs reachable stack =
     (case stack of
        [] \<Rightarrow> Some reachable
      | block # rest \<Rightarrow>
          (let (reachable, rest) = fold reach_push (succs block) (reachable, rest)
           in reach_loop succs reachable rest))"

declare reach_loop.simps [code]

definition reachable_from :: "(nat \<Rightarrow> nat list) \<Rightarrow> nat \<Rightarrow> nat \<Rightarrow> bool list option" where
  "reachable_from succs blocks entry = reach_loop succs ((replicate blocks False)[entry := True]) [entry]"


section \<open>Reachability\<close>

definition succ_rel :: "(nat \<Rightarrow> nat list) \<Rightarrow> (nat \<times> nat) set" where
  "succ_rel succs = {(a, b). b \<in> set (succs a)}"

lemma reach_push_all:
  assumes "\<forall>s \<in> set ss. s < length r"
  shows "case fold reach_push ss (r, st) of (r', st') \<Rightarrow>
      length r' = length r \<and> set st \<subseteq> set st' \<and> set st' \<subseteq> set st \<union> set ss
    \<and> (\<forall>b < length r. r' ! b \<longleftrightarrow> r ! b \<or> b \<in> set ss)
    \<and> (\<forall>b \<in> set ss. \<not> r ! b \<longrightarrow> b \<in> set st')
    \<and> length (filter Not r') + length st' = length (filter Not r) + length st"
  using assms
proof (induction ss arbitrary: r st)
  case (Cons s ss)
  have mark: "length (filter Not (r[s := True])) + 1 = length (filter Not r)" if "\<not> r ! s" "s < length r"
    using that
  proof (induction r arbitrary: s)
    case (Cons x r)
    then show ?case by (cases s) auto
  qed simp
  show ?case
  proof (cases "r ! s")
    case True
    then show ?thesis using Cons.IH [of r st] Cons.prems by (auto simp: reach_push_def split: prod.splits)
  next
    case False
    then have step: "fold reach_push (s # ss) (r, st) = fold reach_push ss (r[s := True], s # st)"
      by (simp add: reach_push_def)
    have "\<forall>x \<in> set ss. x < length (r[s := True])" using Cons.prems by simp
    from Cons.IH [OF this, of "s # st"] mark [OF False] Cons.prems show ?thesis
      unfolding step by (auto simp: nth_list_update split: prod.splits if_splits)
  qed
qed simp

lemma reach_loop_result:
  assumes "\<forall>a < m. \<forall>b \<in> set (succs a). b < m" "length r = m" "\<forall>b \<in> set st. b < m \<and> r ! b"
    and "\<forall>a < m. r ! a \<longrightarrow> a \<notin> set st \<longrightarrow> (\<forall>b \<in> set (succs a). r ! b)"
  shows "\<exists>r'. reach_loop succs r st = Some r' \<and> length r' = m
    \<and> (\<forall>a < m. r ! a \<longrightarrow> r' ! a) \<and> (\<forall>a < m. r' ! a \<longrightarrow> (\<forall>b \<in> set (succs a). r' ! b))
    \<and> (\<forall>a < m. r' ! a \<longrightarrow> r ! a \<or> (\<exists>s \<in> set st. (s, a) \<in> (succ_rel succs)\<^sup>*))"
  using assms(2-4)
proof (induction "2 * length (filter Not r) + length st" arbitrary: r st rule: less_induct)
  case less
  show ?case
  proof (cases st)
    case Nil
    then show ?thesis using less.prems by (subst reach_loop.simps) auto
  next
    case (Cons a rest)
    obtain r1 st1 where f: "fold reach_push (succs a) (r, rest) = (r1, st1)" by force
    have a: "a < m" "r ! a" using less.prems(2) Cons by auto
    have "\<forall>s \<in> set (succs a). s < length r" using assms(1) a less.prems(1) by auto
    from reach_push_all [OF this, of rest] f have F: "length r1 = m" "set rest \<subseteq> set st1"
      "set st1 \<subseteq> set rest \<union> set (succs a)" "\<And>b. b < m \<Longrightarrow> r1 ! b \<longleftrightarrow> r ! b \<or> b \<in> set (succs a)"
      "\<And>b. b \<in> set (succs a) \<Longrightarrow> \<not> r ! b \<Longrightarrow> b \<in> set st1"
      "length (filter Not r1) + length st1 = length (filter Not r) + length rest"
      using less.prems(1) by auto
    have "length (filter Not r1) \<le> length (filter Not r)"
    proof -
      have "{b. b < m \<and> \<not> r1 ! b} \<subseteq> {b. b < m \<and> \<not> r ! b}" using F(4) by auto
      then show ?thesis
        using F(1) less.prems(1) card_mono [of "{b. b < m \<and> \<not> r ! b}" "{b. b < m \<and> \<not> r1 ! b}"]
        by (simp add: length_filter_conv_card)
    qed
    then have small: "2 * length (filter Not r1) + length st1 < 2 * length (filter Not r) + length st"
      using F(6) Cons by simp
    have inv: "\<forall>b \<in> set st1. b < m \<and> r1 ! b" using F(3,4) less.prems(2) assms(1) a Cons by auto
    have closed: "\<forall>x < m. r1 ! x \<longrightarrow> x \<notin> set st1 \<longrightarrow> (\<forall>b \<in> set (succs x). r1 ! b)"
    proof (intro allI impI ballI)
      fix x b assume x: "x < m" "r1 ! x" "x \<notin> set st1" and b: "b \<in> set (succs x)"
      have bm: "b < m" using assms(1) x(1) b by blast
      show "r1 ! b"
      proof (cases "x = a")
        case False
        then have "r ! x" "x \<notin> set st" using F(2,4,5) x Cons by auto
        then show ?thesis using less.prems(3) x(1) b F(4) [OF bm] by blast
      qed (use b F(4) [OF bm] in simp)
    qed
    from less.hyps [OF small F(1) inv closed] obtain r' where r': "reach_loop succs r1 st1 = Some r'" "length r' = m"
      "\<forall>x < m. r1 ! x \<longrightarrow> r' ! x" "\<forall>x < m. r' ! x \<longrightarrow> (\<forall>b \<in> set (succs x). r' ! b)"
      "\<forall>x < m. r' ! x \<longrightarrow> r1 ! x \<or> (\<exists>s \<in> set st1. (s, x) \<in> (succ_rel succs)\<^sup>*)" by blast
    have eq: "reach_loop succs r st = Some r'"
      using r'(1) f Cons by (subst reach_loop.simps) simp
    have from_a: "\<exists>s \<in> set st. (s, x) \<in> (succ_rel succs)\<^sup>*" if "s \<in> set rest \<union> set (succs a)" "(s, x) \<in> (succ_rel succs)\<^sup>*" for s x
      using that Cons by (auto simp: succ_rel_def intro: converse_rtrancl_into_rtrancl)
    have "r ! x \<or> (\<exists>s \<in> set st. (s, x) \<in> (succ_rel succs)\<^sup>*)" if "x < m" "r' ! x" for x
      using r'(5) that F(3,4) from_a by blast
    then show ?thesis using eq r'(2,3,4) F(4) by blast
  qed
qed

lemma reachable_from_result:
  assumes "\<forall>a < m. \<forall>b \<in> set (succs a). b < m" "entry < m"
  shows "\<exists>r. reachable_from succs m entry = Some r \<and> length r = m
    \<and> (\<forall>a < m. r ! a \<longleftrightarrow> (entry, a) \<in> (succ_rel succs)\<^sup>*)"
proof -
  let ?r = "(replicate m False)[entry := True]"
  have at: "?r ! a \<longleftrightarrow> a = entry" if "a < m" for a using that assms(2) by (simp add: nth_list_update)
  have start: "length ?r = m" "\<forall>b \<in> set [entry]. b < m \<and> ?r ! b" using assms(2) by simp_all
  have closed: "\<forall>a < m. ?r ! a \<longrightarrow> a \<notin> set [entry] \<longrightarrow> (\<forall>b \<in> set (succs a). ?r ! b)" using at by simp
  obtain r where r: "reach_loop succs ?r [entry] = Some r" "length r = m" "\<forall>a < m. ?r ! a \<longrightarrow> r ! a"
    "\<forall>a < m. r ! a \<longrightarrow> (\<forall>b \<in> set (succs a). r ! b)"
    "\<forall>a < m. r ! a \<longrightarrow> ?r ! a \<or> (\<exists>s \<in> set [entry]. (s, a) \<in> (succ_rel succs)\<^sup>*)"
    using reach_loop_result [OF assms(1) start closed] by blast
  have "r ! a \<and> a < m" if "(entry, a) \<in> (succ_rel succs)\<^sup>*" for a
    using that
  proof (induction)
    case (step y z)
    then show ?case using r(4) assms(1) by (auto simp: succ_rel_def)
  qed (use r(3) at assms(2) in simp)
  moreover have "(entry, a) \<in> (succ_rel succs)\<^sup>*" if "a < m" "r ! a" for a
    using r(5) that at by auto
  ultimately show ?thesis using r(1,2) unfolding reachable_from_def by blast
qed

end
