(* ===== verification/SsaOpt.thy ===== *)
theory SsaOpt
  imports Ssa
begin

text \<open>
  The optimization passes of \<open>crates/ebpf-ssa/src/opt.rs\<close>: constant folding over a table of known
  values, copy propagation, dead-code elimination by marking, unreachable-block elimination, and
  the driver that repeats them.  A pass that mutates the program in place returns it with the
  flag of the code.  The mark phase, the reachability walk and the driver are \<open>partial_function\<close>s.
\<close>

section \<open>Constant folding\<close>

type_synonym const_table = "i64 option list"

definition consts_record :: "ssa_value \<Rightarrow> i64 \<Rightarrow> const_table \<Rightarrow> const_table" where
  "consts_record dst k t = (if dst < length t then t[dst := Some k] else t)"

definition consts_build :: "ssa_program \<Rightarrow> const_table" where
  "consts_build prog = fold (\<lambda>insn t.
     case insn of
       SConst dst k \<Rightarrow> consts_record dst k t
     | SLoadImm64 dst k \<Rightarrow> consts_record dst k t
     | _ \<Rightarrow> t) (sp_insns prog) (replicate (length (sp_def_sites prog)) None)"

definition consts_resolve :: "const_table \<Rightarrow> ssa_operand \<Rightarrow> i64 option" where
  "consts_resolve t operand =
     (case operand of
        SImm k \<Rightarrow> Some (scast k)
      | SVal v \<Rightarrow> if v < length t then t ! v else None)"

definition end_width :: "i64 \<Rightarrow> bool" where
  "end_width r \<longleftrightarrow> r = 16 \<or> r = 32 \<or> r = 64"

text \<open>The folded value of an instruction; the inner \<open>None\<close> of \<open>alu_apply\<close>, a panic, is not reached.\<close>

definition fold_value :: "const_table \<Rightarrow> ssa_insn \<Rightarrow> (ssa_value \<times> i64) option" where
  "fold_value t insn =
     (case insn of
        SBinOp dst w op lhs rhs \<Rightarrow>
          map_option (Pair dst)
            (case op of
               Mov \<Rightarrow> Option.bind (consts_resolve t rhs) (\<lambda>r. alu_apply op 0 r w)
             | Neg \<Rightarrow> Option.bind (consts_resolve t lhs) (\<lambda>l. alu_apply op l 0 w)
             | _ \<Rightarrow>
                 Option.bind (consts_resolve t lhs) (\<lambda>l. Option.bind (consts_resolve t rhs) (\<lambda>r.
                   if is_end op \<and> \<not> end_width r then None else alu_apply op l r w)))
      | _ \<Rightarrow> None)"

definition fold_at :: "nat \<Rightarrow> ssa_insn list \<times> const_table \<times> bool \<Rightarrow> ssa_insn list \<times> const_table \<times> bool" where
  "fold_at idx = (\<lambda>(insns, t, changed).
     case fold_value t (insns ! idx) of
       None \<Rightarrow> (insns, t, changed)
     | Some (dst, k) \<Rightarrow> (insns[idx := SConst dst k], consts_record dst k t, True))"

definition constant_fold :: "ssa_program \<Rightarrow> const_table \<Rightarrow> ssa_program \<times> const_table \<times> bool" where
  "constant_fold prog t =
     (let (insns, t, changed) = fold fold_at (live_range prog) (sp_insns prog, t, False)
      in (prog\<lparr>sp_insns := insns\<rparr>, t, changed))"


section \<open>Copy propagation\<close>

fun dedup :: "'a list \<Rightarrow> 'a list" where
  "dedup (x # y # xs) = (if x = y then dedup (x # xs) else x # dedup (y # xs))"
| "dedup xs = xs"

definition copy_rewrite :: "ssa_program \<Rightarrow> ssa_insn \<Rightarrow> (ssa_value \<times> ssa_value) list" where
  "copy_rewrite prog insn =
     (case insn of
        SCopy dst src \<Rightarrow> [(dst, src)]
      | SBinOp dst w op lhs (SVal u) \<Rightarrow> if op = Mov \<and> w = B64 then [(dst, u)] else []
      | SPhi dst inputs \<Rightarrow>
          (case dedup (filter (\<lambda>v. v \<noteq> dst) (map snd
                  (filter (\<lambda>(pred, v). is_start_pred pred \<or> live_block prog pred) inputs))) of
             [u] \<Rightarrow> [(dst, u)]
           | _ \<Rightarrow> [])
      | _ \<Rightarrow> [])"

definition copy_rewrites :: "ssa_program \<Rightarrow> (ssa_value \<times> ssa_value) list" where
  "copy_rewrites prog = concat (map (\<lambda>idx. copy_rewrite prog (sp_insns prog ! idx)) (live_range prog))"

definition rewrite_value :: "ssa_value \<Rightarrow> ssa_value \<Rightarrow> ssa_value \<Rightarrow> ssa_value" where
  "rewrite_value from to v = (if v = from then to else v)"

fun rewrite_operand :: "ssa_value \<Rightarrow> ssa_value \<Rightarrow> ssa_operand \<Rightarrow> ssa_operand" where
  "rewrite_operand from to (SVal v) = SVal (rewrite_value from to v)"
| "rewrite_operand from to (SImm k) = SImm k"

fun rewrite_uses :: "ssa_value \<Rightarrow> ssa_value \<Rightarrow> ssa_insn \<Rightarrow> ssa_insn" where
  "rewrite_uses from to (SCopy dst src) = SCopy dst (rewrite_value from to src)"
| "rewrite_uses from to (SBinOp dst w op lhs rhs) =
     SBinOp dst w op (rewrite_operand from to lhs) (rewrite_operand from to rhs)"
| "rewrite_uses from to (SLoad dst sz base off) = SLoad dst sz (rewrite_value from to base) off"
| "rewrite_uses from to (SStore sz base off src) =
     SStore sz (rewrite_value from to base) off (rewrite_operand from to src)"
| "rewrite_uses from to (SCall dst func args) = SCall dst func (map (rewrite_value from to) args)"
| "rewrite_uses from to (SPhi dst inputs) = SPhi dst (map (\<lambda>(pred, v). (pred, rewrite_value from to v)) inputs)"
| "rewrite_uses from to (SBr w op lhs rhs t f) =
     SBr w op (rewrite_operand from to lhs) (rewrite_operand from to rhs) t f"
| "rewrite_uses from to (SsaExit r0) = SsaExit (rewrite_value from to r0)"
| "rewrite_uses from to insn = insn"

text \<open>The uses of an instruction, in the order of \<open>for_each_use\<close>.\<close>

definition operand_uses :: "ssa_operand \<Rightarrow> ssa_value list" where
  "operand_uses operand = (case operand of SVal v \<Rightarrow> [v] | SImm k \<Rightarrow> [])"

fun insn_uses :: "ssa_insn \<Rightarrow> ssa_value list" where
  "insn_uses (SCopy dst src) = [src]"
| "insn_uses (SBinOp dst w op lhs rhs) = operand_uses lhs @ operand_uses rhs"
| "insn_uses (SBr w op lhs rhs t f) = operand_uses lhs @ operand_uses rhs"
| "insn_uses (SLoad dst sz base off) = [base]"
| "insn_uses (SStore sz base off src) = base # operand_uses src"
| "insn_uses (SCall dst func args) = args"
| "insn_uses (SPhi dst inputs) = map snd inputs"
| "insn_uses (SsaExit r0) = [r0]"
| "insn_uses insn = []"

text \<open>All rewrites in order; the flag tells whether one of them found its value.\<close>

definition rewrite_step :: "ssa_value \<times> ssa_value \<Rightarrow> ssa_insn \<times> bool \<Rightarrow> ssa_insn \<times> bool" where
  "rewrite_step = (\<lambda>(from, to) (insn, changed).
     (rewrite_uses from to insn, changed \<or> from \<in> set (insn_uses insn)))"

definition rewrite_at :: "(ssa_value \<times> ssa_value) list \<Rightarrow> nat \<Rightarrow> ssa_insn list \<times> bool \<Rightarrow> ssa_insn list \<times> bool" where
  "rewrite_at rewrites idx = (\<lambda>(insns, changed).
     let (insn, changed) = fold rewrite_step rewrites (insns ! idx, changed) in (insns[idx := insn], changed))"

definition copy_propagate :: "ssa_program \<Rightarrow> ssa_program \<times> bool" where
  "copy_propagate prog =
     (let rewrites = copy_rewrites prog in
      if rewrites = [] then (prog, False)
      else let (insns, changed) = fold (rewrite_at rewrites) (live_range prog) (sp_insns prog, False)
           in (prog\<lparr>sp_insns := insns\<rparr>, changed))"


section \<open>Dead-code elimination\<close>

definition is_root :: "ssa_program \<Rightarrow> ssa_insn \<Rightarrow> bool" where
  "is_root prog insn =
     (case insn of
        SLoad dst sz base off \<Rightarrow> True
      | SStore sz base off src \<Rightarrow> True
      | SCall dst func args \<Rightarrow> True
      | SBr w op lhs rhs t f \<Rightarrow> True
      | SJa t \<Rightarrow> True
      | SsaExit r0 \<Rightarrow> True
      | SBinOp dst w op lhs rhs \<Rightarrow>
          is_end op \<and> \<not> (case const_value prog rhs of Some r \<Rightarrow> end_width r | None \<Rightarrow> False)
      | _ \<Rightarrow> False)"

definition def_index :: "ssa_program \<Rightarrow> ssa_value \<Rightarrow> nat option" where
  "def_index prog v =
     (if v < length (sp_def_sites prog)
      then case sp_def_sites prog ! v of
             None \<Rightarrow> None
           | Some idx \<Rightarrow> if idx < length (sp_insns prog) then Some idx else None
      else None)"

definition mark_use :: "ssa_program \<Rightarrow> ssa_value \<Rightarrow> bool list \<times> nat list \<Rightarrow> bool list \<times> nat list" where
  "mark_use prog v = (\<lambda>(marked, wl).
     case def_index prog v of
       None \<Rightarrow> (marked, wl)
     | Some d \<Rightarrow> if \<not> marked ! d then (marked[d := True], d # wl) else (marked, wl))"

partial_function (option) mark_loop :: "ssa_program \<Rightarrow> bool list \<Rightarrow> nat list \<Rightarrow> bool list option" where
  "mark_loop prog marked wl =
     (case wl of
        [] \<Rightarrow> Some marked
      | idx # rest \<Rightarrow>
          (let (marked, rest) = fold (mark_use prog) (insn_uses (sp_insns prog ! idx)) (marked, rest)
           in mark_loop prog marked rest))"

declare mark_loop.simps [code]

definition root_indices :: "ssa_program \<Rightarrow> nat list" where
  "root_indices prog = filter (\<lambda>idx. is_root prog (sp_insns prog ! idx)) (live_range prog)"

definition mark_roots :: "ssa_program \<Rightarrow> bool list option" where
  "mark_roots prog =
     (let roots = root_indices prog
      in mark_loop prog (fold (\<lambda>idx marked. marked[idx := True]) roots (replicate (length (sp_insns prog)) False))
           (rev roots))"

text \<open>The instructions of a block that survive, and the rebuilt storage.\<close>

definition block_kept :: "ssa_program \<Rightarrow> bool list \<Rightarrow> nat \<Rightarrow> ssa_insn list" where
  "block_kept prog marked b =
     (if live_block prog b then map ((!) (sp_insns prog)) (filter ((!) marked) (block_range prog b)) else [])"

fun sweep_blocks :: "ssa_program \<Rightarrow> bool list \<Rightarrow> nat \<Rightarrow> nat list \<Rightarrow> ssa_block list" where
  "sweep_blocks prog marked pos [] = []"
| "sweep_blocks prog marked pos (b # bs) =
     (let len = length (block_kept prog marked b)
      in \<lparr>sb_start = pos, sb_end = pos + len, sb_live = live_block prog b\<rparr> # sweep_blocks prog marked (pos + len) bs)"

definition sweep :: "ssa_program \<Rightarrow> bool list \<Rightarrow> ssa_program" where
  "sweep prog marked =
     (let nodes = [0..<length (sp_blocks prog)]
      in prog\<lparr>sp_blocks := sweep_blocks prog marked 0 nodes,
              sp_insns := concat (map (block_kept prog marked) nodes)\<rparr>)"

definition dead_len :: "ssa_program \<Rightarrow> nat" where
  "dead_len prog = sum_list (map (\<lambda>b. length (block_range prog b))
     (filter (\<lambda>b. \<not> live_block prog b) [0..<length (sp_blocks prog)]))"

definition removed_len :: "ssa_program \<Rightarrow> bool list \<Rightarrow> nat" where
  "removed_len prog marked = sum_list (map (\<lambda>b. length (block_range prog b) - length (block_kept prog marked b))
     [0..<length (sp_blocks prog)])"

definition dead_code_eliminate :: "ssa_program \<Rightarrow> (ssa_program \<times> bool) option" where
  "dead_code_eliminate prog =
     map_option (\<lambda>marked.
       if dead_len prog = 0 \<and> list_all id marked then (prog, False)
       else if removed_len prog marked = 0 then (sweep prog marked, False)
       else (rebuild_def_sites (sweep prog marked), True))
     (mark_roots prog)"


section \<open>Unreachable blocks\<close>

definition prune_phi :: "ssa_program \<Rightarrow> ssa_insn \<Rightarrow> ssa_insn" where
  "prune_phi prog insn =
     (case insn of
        SPhi dst inputs \<Rightarrow> SPhi dst (filter (\<lambda>(pred, v). is_start_pred pred \<or> live_block prog pred) inputs)
      | _ \<Rightarrow> insn)"

definition prune_at :: "ssa_program \<Rightarrow> nat \<Rightarrow> ssa_insn list \<times> bool \<Rightarrow> ssa_insn list \<times> bool" where
  "prune_at prog idx = (\<lambda>(insns, changed).
     (insns[idx := prune_phi prog (insns ! idx)], changed \<or> prune_phi prog (insns ! idx) \<noteq> insns ! idx))"

definition kill_blocks :: "ssa_program \<Rightarrow> bool list \<Rightarrow> ssa_program" where
  "kill_blocks prog reachable = prog\<lparr>sp_blocks :=
     map (\<lambda>(b, block). block\<lparr>sb_live := sb_live block \<and> reachable ! b\<rparr>) (enumerate 0 (sp_blocks prog))\<rparr>"

definition unreachable_block_eliminate :: "adjacency \<Rightarrow> ssa_program \<Rightarrow> (ssa_program \<times> bool) option" where
  "unreachable_block_eliminate adj prog =
     map_option (\<lambda>reachable.
       let killed = list_ex (\<lambda>b. live_block prog b \<and> \<not> reachable ! b) [0..<length (sp_blocks prog)];
           prog = kill_blocks prog reachable;
           (insns, changed) = fold (prune_at prog) (live_range prog) (sp_insns prog, killed);
           prog = prog\<lparr>sp_insns := insns\<rparr>
       in if changed then (rebuild_def_sites prog, True) else (prog, False))
     (reachable_from (live_successors adj prog) (length (sp_blocks prog)) (sp_entry prog))"


section \<open>The driver\<close>

definition optimize_round :: "adjacency \<Rightarrow> ssa_program \<Rightarrow> const_table \<Rightarrow> (ssa_program \<times> const_table \<times> bool) option" where
  "optimize_round adj prog t =
     (let (prog, t, c1) = constant_fold prog t;
          (prog, c2) = copy_propagate prog
      in Option.bind (dead_code_eliminate prog) (\<lambda>(prog, c3).
         map_option (\<lambda>(prog, c4). (prog, t, c1 \<or> c2 \<or> c3 \<or> c4)) (unreachable_block_eliminate adj prog)))"

partial_function (option) optimize_loop :: "adjacency \<Rightarrow> ssa_program \<Rightarrow> const_table \<Rightarrow> ssa_program option" where
  "optimize_loop adj prog t =
     (case optimize_round adj prog t of
        None \<Rightarrow> None
      | Some (prog, t, changed) \<Rightarrow> if changed then optimize_loop adj prog t else Some prog)"

declare optimize_loop.simps [code]

definition optimize :: "adjacency \<Rightarrow> ssa_program \<Rightarrow> ssa_program option" where
  "optimize adj prog = optimize_loop adj prog (consts_build prog)"

end
