(* ===== verification/SsaSem.thy ===== *)
theory SsaSem
  imports SsaOpt Vm
begin

text \<open>
  What an SSA program means: the reference against which the passes of \<open>opt.rs\<close> are proved.  The
  repository never executes SSA; this semantics reads values from an environment, evaluates
  arithmetic and branches with the interpreter's own functions, merges phis in parallel at block
  entry, and leaves memory and helpers to the effects of an arbitrary world.  Reading a value
  that is not defined is \<open>Stuck\<close>, which is no run at all.
\<close>

section \<open>Semantics\<close>

record 'w effects =
  fx_fp :: i64
  fx_ctx :: i64
  fx_load :: "mem_size \<Rightarrow> i64 \<Rightarrow> i16 \<Rightarrow> 'w \<Rightarrow> i64 option"
  fx_store :: "mem_size \<Rightarrow> i64 \<Rightarrow> i16 \<Rightarrow> i64 \<Rightarrow> 'w \<Rightarrow> 'w option"
  fx_call :: "u32 \<Rightarrow> i64 list \<Rightarrow> 'w \<Rightarrow> (i64 \<times> 'w) option"

type_synonym env = "ssa_value \<Rightarrow> i64 option"

datatype 'w outcome = Exited i64 'w | Faulted 'w | FellOff 'w | Stuck

datatype 'w flow = Cont env 'w | Goto nat env 'w | Halt "'w outcome"

definition assign :: "(ssa_value \<times> i64) list \<Rightarrow> env \<Rightarrow> env" where
  "assign defs env = (\<lambda>v. case map_of defs v of Some x \<Rightarrow> Some x | None \<Rightarrow> env v)"

fun operand_val :: "env \<Rightarrow> ssa_operand \<Rightarrow> i64 option" where
  "operand_val env (SVal v) = env v"
| "operand_val env (SImm k) = Some (scast k)"

text \<open>The outer \<open>None\<close> is an undefined operand, the inner one the trap of a bad \<open>End\<close> width.\<close>

definition eval_binop :: "env \<Rightarrow> width \<Rightarrow> alu_op \<Rightarrow> ssa_operand \<Rightarrow> ssa_operand \<Rightarrow> i64 option option" where
  "eval_binop env w op lhs rhs =
     (case op of
        Mov \<Rightarrow> map_option (\<lambda>r. alu_apply op 0 r w) (operand_val env rhs)
      | Neg \<Rightarrow> map_option (\<lambda>l. alu_apply op l 0 w) (operand_val env lhs)
      | _ \<Rightarrow>
          Option.bind (operand_val env lhs) (\<lambda>l. map_option (\<lambda>r.
            if is_end op \<and> \<not> end_width r then None else alu_apply op l r w) (operand_val env rhs)))"

definition goto_target :: "nat option \<Rightarrow> env \<Rightarrow> 'w \<Rightarrow> 'w flow" where
  "goto_target target env w = (case target of None \<Rightarrow> Halt (FellOff w) | Some b \<Rightarrow> Goto b env w)"

definition define_value :: "ssa_value \<Rightarrow> i64 option \<Rightarrow> env \<Rightarrow> 'w \<Rightarrow> 'w flow" where
  "define_value dst x env w = (case x of None \<Rightarrow> Halt Stuck | Some x \<Rightarrow> Cont (assign [(dst, x)] env) w)"

fun eval_insn :: "'w effects \<Rightarrow> ssa_insn \<Rightarrow> env \<Rightarrow> 'w \<Rightarrow> 'w flow" where
  "eval_insn fx (SConst dst k) env w = define_value dst (Some k) env w"
| "eval_insn fx (SFramePtr dst) env w = define_value dst (Some (fx_fp fx)) env w"
| "eval_insn fx (SEntryCtx dst) env w = define_value dst (Some (fx_ctx fx)) env w"
| "eval_insn fx (SCopy dst src) env w = define_value dst (env src) env w"
| "eval_insn fx (SBinOp dst wd op lhs rhs) env w =
     (case eval_binop env wd op lhs rhs of
        None \<Rightarrow> Halt Stuck
      | Some None \<Rightarrow> Halt (Faulted w)
      | Some (Some x) \<Rightarrow> define_value dst (Some x) env w)"
| "eval_insn fx (SLoadImm64 dst k) env w = define_value dst (Some k) env w"
| "eval_insn fx (SLoad dst sz base off) env w =
     (case env base of
        None \<Rightarrow> Halt Stuck
      | Some addr \<Rightarrow>
          (case fx_load fx sz addr off w of
             None \<Rightarrow> Halt (Faulted w)
           | Some x \<Rightarrow> (case dst of None \<Rightarrow> Cont env w | Some d \<Rightarrow> define_value d (Some x) env w)))"
| "eval_insn fx (SStore sz base off src) env w =
     (case (env base, operand_val env src) of
        (Some addr, Some x) \<Rightarrow>
          (case fx_store fx sz addr off x w of None \<Rightarrow> Halt (Faulted w) | Some w \<Rightarrow> Cont env w)
      | _ \<Rightarrow> Halt Stuck)"
| "eval_insn fx (SCall dst func args) env w =
     (case those (map env args) of
        None \<Rightarrow> Halt Stuck
      | Some xs \<Rightarrow>
          (case fx_call fx func xs w of
             None \<Rightarrow> Halt (Faulted w)
           | Some (x, w) \<Rightarrow> define_value dst (Some x) env w))"
| "eval_insn fx (SPhi dst inputs) env w = Cont env w"
| "eval_insn fx (SBr wd op lhs rhs t f) env w =
     (case (operand_val env lhs, operand_val env rhs) of
        (Some l, Some r) \<Rightarrow> goto_target (if jump_taken op l r wd then t else f) env w
      | _ \<Rightarrow> Halt Stuck)"
| "eval_insn fx (SJa t) env w = Goto t env w"
| "eval_insn fx (SsaExit r0) env w = (case env r0 of None \<Rightarrow> Halt Stuck | Some x \<Rightarrow> Halt (Exited x w))"

fun eval_body :: "'w effects \<Rightarrow> ssa_insn list \<Rightarrow> env \<Rightarrow> 'w \<Rightarrow> 'w flow" where
  "eval_body fx [] env w = Cont env w"
| "eval_body fx (i # is) env w =
     (case eval_insn fx i env w of Cont env w \<Rightarrow> eval_body fx is env w | flow \<Rightarrow> flow)"

text \<open>The phis of a block, read at the end of the predecessor.\<close>

definition phi_def :: "nat \<Rightarrow> env \<Rightarrow> ssa_insn \<Rightarrow> (ssa_value \<times> i64) option list" where
  "phi_def pred env insn =
     (case insn of
        SPhi dst inputs \<Rightarrow> [Option.bind (map_of inputs pred) (\<lambda>v. map_option (Pair dst) (env v))]
      | _ \<Rightarrow> [])"

definition phi_defs :: "nat \<Rightarrow> env \<Rightarrow> ssa_insn list \<Rightarrow> (ssa_value \<times> i64) list option" where
  "phi_defs pred env body = those (concat (map (phi_def pred env) body))"

definition enter_block :: "'w effects \<Rightarrow> ssa_insn list \<Rightarrow> nat \<Rightarrow> env \<Rightarrow> 'w \<Rightarrow> 'w flow" where
  "enter_block fx body pred env w =
     (case phi_defs pred env body of
        None \<Rightarrow> Halt Stuck
      | Some defs \<Rightarrow> eval_body fx body (assign defs env) w)"

text \<open>A run of at most \<open>n\<close> blocks; \<open>None\<close> when they do not suffice.\<close>

fun run_blocks :: "'w effects \<Rightarrow> adjacency \<Rightarrow> ssa_program \<Rightarrow> nat \<Rightarrow> nat \<Rightarrow> nat \<Rightarrow> env \<Rightarrow> 'w
    \<Rightarrow> 'w outcome option" where
  "run_blocks fx adj prog 0 pred b env w = None"
| "run_blocks fx adj prog (Suc n) pred b env w =
     (if \<not> (b < length (sp_blocks prog) \<and> live_block prog b) then Some Stuck
      else case enter_block fx (block_body prog b) pred env w of
             Halt out \<Rightarrow> Some out
           | Goto t env w \<Rightarrow> run_blocks fx adj prog n b t env w
           | Cont env w \<Rightarrow>
               (case live_successors adj prog b of
                  [] \<Rightarrow> Some (FellOff w)
                | t # ts \<Rightarrow> run_blocks fx adj prog n b t env w))"

text \<open>The machine's initial registers: the pseudos of the entry block hold before it runs.\<close>

definition pseudo_def :: "'w effects \<Rightarrow> ssa_insn \<Rightarrow> (ssa_value \<times> i64) list" where
  "pseudo_def fx insn =
     (case insn of
        SConst dst k \<Rightarrow> [(dst, k)]
      | SFramePtr dst \<Rightarrow> [(dst, fx_fp fx)]
      | SEntryCtx dst \<Rightarrow> [(dst, fx_ctx fx)]
      | _ \<Rightarrow> [])"

definition entry_env :: "'w effects \<Rightarrow> ssa_program \<Rightarrow> env" where
  "entry_env fx prog = map_of (concat (map (pseudo_def fx) (block_body prog (sp_entry prog))))"

definition run_ssa :: "'w effects \<Rightarrow> adjacency \<Rightarrow> ssa_program \<Rightarrow> nat \<Rightarrow> 'w \<Rightarrow> 'w outcome option" where
  "run_ssa fx adj prog n w = run_blocks fx adj prog n start_pred (sp_entry prog) (entry_env fx prog) w"

text \<open>Every run of the first program that does not get stuck is a run of the second.\<close>

definition simulates :: "adjacency \<Rightarrow> ssa_program \<Rightarrow> ssa_program \<Rightarrow> 'w itself \<Rightarrow> bool" where
  "simulates adj prog prog' T \<longleftrightarrow>
     (\<forall>(fx :: 'w effects) n w. run_ssa fx adj prog n w \<noteq> Some Stuck \<longrightarrow>
        run_ssa fx adj prog' n w = run_ssa fx adj prog n w)"

lemma simulates_trans: "simulates adj p q T \<Longrightarrow> simulates adj q r T \<Longrightarrow> simulates adj p r T"
  by (simp add: simulates_def)


section \<open>Environments that agree where it matters\<close>

definition env_le :: "ssa_value set \<Rightarrow> env \<Rightarrow> env \<Rightarrow> bool" where
  "env_le N e e' \<longleftrightarrow> (\<forall>v \<in> N. \<forall>x. e v = Some x \<longrightarrow> e' v = Some x)"

lemma env_leD: "env_le N e e' \<Longrightarrow> v \<in> N \<Longrightarrow> e v = Some x \<Longrightarrow> e' v = Some x"
  by (simp add: env_le_def)

lemma env_le_refl [simp]: "env_le N e e"
  by (simp add: env_le_def)

text \<open>The first flow may be stuck; otherwise the second is the same, up to the environment.\<close>

fun flow_le :: "ssa_value set \<Rightarrow> 'w flow \<Rightarrow> 'w flow \<Rightarrow> bool" where
  "flow_le N (Halt Stuck) g = True"
| "flow_le N (Cont e w) g = (\<exists>e'. g = Cont e' w \<and> env_le N e e')"
| "flow_le N (Goto t e w) g = (\<exists>e'. g = Goto t e' w \<and> env_le N e e')"
| "flow_le N (Halt out) g = (g = Halt out)"

lemma flow_le_refl [simp]: "flow_le N f f"
  by (cases f; cases "case f of Halt out \<Rightarrow> out") (auto split: outcome.split) 

lemma env_le_assign: "env_le N e e' \<Longrightarrow> env_le N (assign defs e) (assign defs e')"
  by (auto simp: env_le_def assign_def split: option.splits)

lemma operand_val_le:
  "env_le N e e' \<Longrightarrow> set (operand_uses o1) \<subseteq> N \<Longrightarrow> operand_val e o1 = Some x \<Longrightarrow> operand_val e' o1 = Some x"
  by (cases o1) (auto simp: operand_uses_def dest: env_leD)

end
