(* ===== verification/SsaPass.thy ===== *)
theory SsaPass
  imports SsaSem
begin

text \<open>
  What a pass has to show: a pass maps the instructions of every block one by one, to themselves, to
  another instruction or to nothing, so that each step and each phi is matched on the values that
  are still needed.  \<open>pass_sim\<close> turns this into a simulation of runs.
\<close>

section \<open>Renaming uses\<close>

fun rename_operand :: "(ssa_value \<Rightarrow> ssa_value) \<Rightarrow> ssa_operand \<Rightarrow> ssa_operand" where
  "rename_operand f (SVal v) = SVal (f v)"
| "rename_operand f (SImm k) = SImm k"

fun rename :: "(ssa_value \<Rightarrow> ssa_value) \<Rightarrow> ssa_insn \<Rightarrow> ssa_insn" where
  "rename f (SCopy dst src) = SCopy dst (f src)"
| "rename f (SBinOp dst w op lhs rhs) = SBinOp dst w op (rename_operand f lhs) (rename_operand f rhs)"
| "rename f (SLoad dst sz base off) = SLoad dst sz (f base) off"
| "rename f (SStore sz base off src) = SStore sz (f base) off (rename_operand f src)"
| "rename f (SCall dst func args) = SCall dst func (map f args)"
| "rename f (SPhi dst inputs) = SPhi dst (map (\<lambda>(pred, v). (pred, f v)) inputs)"
| "rename f (SBr w op lhs rhs t fl) = SBr w op (rename_operand f lhs) (rename_operand f rhs) t fl"
| "rename f (SsaExit r0) = SsaExit (f r0)"
| "rename f insn = insn"

lemma rename_operand_comp [simp]: "rename_operand f (rename_operand g operand) = rename_operand (\<lambda>v. f (g v)) operand"
  by (cases operand) simp_all

lemma rename_comp [simp]: "rename f (rename g i) = rename (\<lambda>v. f (g v)) i"
  by (cases i) auto

lemma rename_operand_id [simp]: "rename_operand (\<lambda>v. v) operand = operand"
  by (cases operand) simp_all

lemma rename_id [simp]: "rename (\<lambda>v. v) i = i"
  by (cases i) simp_all

lemma operand_uses_rename [simp]: "operand_uses (rename_operand f operand) = map f (operand_uses operand)"
  by (cases operand) (simp_all add: operand_uses_def)

lemma insn_uses_rename [simp]: "insn_uses (rename f i) = map f (insn_uses i)"
  by (cases i) (auto simp: comp_def)

lemma rename_shape [simp]:
  "def_dst (rename f i) = def_dst i" "is_control (rename f i) = is_control i" "pseudo_def fx (rename f i) = pseudo_def fx i"
  by (cases i; simp add: is_control_def pseudo_def_def)+

lemma define_value_le: "env_le N e e' \<Longrightarrow> flow_le N (define_value d x e w) (define_value d x e' w)"
  by (auto simp: define_value_def env_le_assign split: option.split)

text \<open>A renamed instruction computes the same when every renamed value is defined alike.\<close>

lemma operand_val_rename:
  assumes "\<forall>v \<in> set (operand_uses operand). \<forall>y. e v = Some y \<longrightarrow> e' (f v) = Some y" "operand_val e operand = Some y"
  shows "operand_val e' (rename_operand f operand) = Some y"
  using assms by (cases operand) (simp_all add: operand_uses_def)

lemma eval_binop_rename:
  assumes "\<forall>v \<in> set (operand_uses lhs) \<union> set (operand_uses rhs). \<forall>y. e v = Some y \<longrightarrow> e' (f v) = Some y" "eval_binop e w op lhs rhs = Some x"
  shows "eval_binop e' w op (rename_operand f lhs) (rename_operand f rhs) = Some x"
proof -
  have l: "operand_val e lhs = Some y \<Longrightarrow> operand_val e' (rename_operand f lhs) = Some y" for y
    using operand_val_rename [of lhs] assms(1) by blast
  have r: "operand_val e rhs = Some y \<Longrightarrow> operand_val e' (rename_operand f rhs) = Some y" for y
    using operand_val_rename [of rhs] assms(1) by blast
  show ?thesis using assms(2)
    by (cases op) (auto simp: eval_binop_def bind_eq_Some_conv dest!: l r)
qed

lemma those_map_rename:
  "\<forall>v \<in> set vs. \<forall>y. e v = Some y \<longrightarrow> e' (f v) = Some y \<Longrightarrow> those (map e vs) = Some xs \<Longrightarrow> those (map e' (map f vs)) = Some xs"
  by (induction vs arbitrary: xs) (auto split: option.splits)

lemma eval_insn_rename:
  assumes le: "env_le N e e'" and uses: "\<forall>v \<in> set (insn_uses i). \<forall>y. e v = Some y \<longrightarrow> e' (f v) = Some y"
  shows "flow_le N (eval_insn fx i e w) (eval_insn fx (rename f i) e' w)"
proof (cases i)
  case (SCopy d s)
  then show ?thesis using uses define_value_le [OF le]
    by (cases "e s") (simp_all add: define_value_def env_le_assign [OF le])
next
  case (SBinOp d wd op lhs rhs)
  show ?thesis
  proof (cases "eval_binop e wd op lhs rhs")
    case (Some x)
    from eval_binop_rename [OF _ Some] uses SBinOp
    have "eval_binop e' wd op (rename_operand f lhs) (rename_operand f rhs) = Some x" by simp
    then show ?thesis using Some SBinOp define_value_le [OF le] by (cases x) simp_all
  qed (simp add: SBinOp)
next
  case (SLoad d sz base off)
  then show ?thesis using uses define_value_le [OF le] le
    by (cases "e base") (auto split: option.split)
next
  case (SStore sz base off src)
  then show ?thesis using uses operand_val_rename [of src e e' f] le
    by (cases "e base"; cases "operand_val e src") (auto split: option.split)
next
  case (SCall d func args)
  then show ?thesis using uses those_map_rename [of args e e' f] define_value_le [OF le]
    by (cases "those (map e args)") (auto split: option.split prod.split)
next
  case (SBr wd op lhs rhs t fl)
  then show ?thesis using uses operand_val_rename [of lhs e e' f] operand_val_rename [of rhs e e' f] le
    by (cases "operand_val e lhs"; cases "operand_val e rhs") (auto simp: goto_target_def split: option.split)
next
  case (SsaExit r0)
  then show ?thesis using uses by (cases "e r0") simp_all
qed (use le in \<open>simp_all add: define_value_le\<close>)

lemma eval_insn_le:
  assumes "env_le N e e'" "set (insn_uses i) \<subseteq> N"
  shows "flow_le N (eval_insn fx i e w) (eval_insn fx i e' w)"
  using eval_insn_rename [OF assms(1), of i "\<lambda>v. v" fx w] assms by (fastforce simp: env_le_def)

lemma eval_body_single: "eval_body fx [i] e w = eval_insn fx i e w"
  by (simp split: flow.split)

lemma eval_insn_goto: "eval_insn fx i e w = Goto t e1 w1 \<Longrightarrow> e1 = e"
  by (cases i) (auto simp: define_value_def goto_target_def split: option.splits prod.splits if_splits)


section \<open>Bodies\<close>

lemma eval_body_append:
  "eval_body fx (as @ bs) e w = (case eval_body fx as e w of Cont e w \<Rightarrow> eval_body fx bs e w | flow \<Rightarrow> flow)"
  by (induction as arbitrary: e w) (auto split: flow.split)

definition body_matches :: "(env \<Rightarrow> bool) \<Rightarrow> ssa_value set \<Rightarrow> 'w flow \<Rightarrow> 'w flow \<Rightarrow> bool" where
  "body_matches P N f f' \<longleftrightarrow> flow_le N f f' \<and> (\<forall>e w. f = Cont e w \<longrightarrow> P e) \<and> (\<forall>t e w. f = Goto t e w \<longrightarrow> P e)"

lemma body_sim:
  assumes step: "\<And>x e e' w. x \<in> set [s..<t] \<Longrightarrow> P x e \<Longrightarrow> env_le N e e' \<Longrightarrow>
        flow_le N (eval_insn fx (f x) e w) (eval_body fx (g x) e' w)"
    and pres: "\<And>x e w e1 w1. x \<in> set [s..<t] \<Longrightarrow> P x e \<Longrightarrow> eval_insn fx (f x) e w = Cont e1 w1 \<Longrightarrow> P (Suc x) e1"
    and leave: "\<And>x e. x \<in> set [s..<t] \<Longrightarrow> P x e \<Longrightarrow> is_control (f x) \<Longrightarrow> PE e"
    and fall: "\<And>x e. t \<le> x \<Longrightarrow> P x e \<Longrightarrow> PE e"
    and start: "P s e" "env_le N e e'"
  shows "body_matches PE N (eval_body fx (map f [s..<t]) e w) (eval_body fx (concat (map g [s..<t])) e' w)"
  using assms
proof (induction "t - s" arbitrary: s e e' w)
  case 0
  then show ?case by (simp add: body_matches_def)
next
  case (Suc n)
  then have less: "s < t" by simp
  then have cons: "[s..<t] = s # [Suc s..<t]" by (rule upt_conv_Cons)
  have S: "flow_le N (eval_insn fx (f s) e w) (eval_body fx (g s) e' w)" using Suc.prems(1,5,6) less by simp
  show ?case
  proof (cases "eval_insn fx (f s) e w")
    case (Cont e1 w1)
    then obtain e1' where e1': "eval_body fx (g s) e' w = Cont e1' w1" "env_le N e1 e1'" using S by auto
    have "P (Suc s) e1" using Suc.prems(2) [of s e w e1 w1] Suc.prems(5) Cont less by simp
    then have "body_matches PE N (eval_body fx (map f [Suc s..<t]) e1 w1) (eval_body fx (concat (map g [Suc s..<t])) e1' w1)"
      using e1'(2) Suc.hyps(2) less
      by (intro Suc.hyps(1)) (simp_all add: Suc.prems(1), (rule Suc.prems(2-4), simp_all)+)
    then show ?thesis using Cont e1'(1) by (simp add: cons eval_body_append)
  next
    case (Goto t' e1 w1)
    moreover obtain e1' where "eval_body fx (g s) e' w = Goto t' e1' w1" "env_le N e1 e1'" using S Goto by auto
    moreover have "e1 = e" by (rule eval_insn_goto [OF Goto])
    moreover have "is_control (f s)" using Goto by (cases "f s") (auto simp: is_control_def define_value_def split: option.splits prod.splits)
    ultimately show ?thesis using Suc.prems(3) [of s e] Suc.prems(5) less by (simp add: cons eval_body_append body_matches_def)
  next
    case (Halt out)
    then show ?thesis using S by (cases out) (simp_all add: cons eval_body_append body_matches_def)
  qed
qed

lemma map_of_filter_keep:
  "(\<forall>(d, x) \<in> set defs. d \<in> N \<longrightarrow> keep (d, x)) \<Longrightarrow> v \<in> N \<Longrightarrow> map_of (filter keep defs) v = map_of defs v"
  by (induction defs) auto

text \<open>The phis of a block: those that are needed get the same values.\<close>

lemma phi_sim:
  assumes phi: "\<And>x ds. x \<in> set xs \<Longrightarrow> those (phi_def pred e (f x)) = Some ds \<Longrightarrow>
        \<exists>ds'. those (concat (map (phi_def pred e') (g x))) = Some ds' \<and> (ds' = ds \<or> ds' = [] \<and> fst ` set ds \<inter> N = {})"
    and "phi_defs pred e (map f xs) = Some defs"
  shows "\<exists>defs'. phi_defs pred e' (concat (map g xs)) = Some defs'
    \<and> (\<forall>v \<in> N. map_of defs' v = map_of defs v)"
  using assms
proof (induction xs arbitrary: defs)
  case (Cons x xs)
  have app: "those (as @ bs) = Option.bind (those as) (\<lambda>xs. map_option ((@) xs) (those bs))" for as bs :: "'x option list"
    by (induction as) (auto split: option.split simp: map_option_case bind_eq_Some_conv intro: option.exhaust)
  obtain ds rest where ds: "those (phi_def pred e (f x)) = Some ds" and rest: "phi_defs pred e (map f xs) = Some rest"
    and defs: "defs = ds @ rest"
    using Cons.prems(2) by (auto simp: phi_defs_def app bind_eq_Some_conv)
  obtain ds' where ds': "those (concat (map (phi_def pred e') (g x))) = Some ds'" "ds' = ds \<or> ds' = [] \<and> fst ` set ds \<inter> N = {}"
    using Cons.prems(1) [OF _ ds] by auto
  obtain rest' where rest': "phi_defs pred e' (concat (map g xs)) = Some rest'" "\<forall>v \<in> N. map_of rest' v = map_of rest v"
    using Cons.IH [OF _ rest] Cons.prems(1) by auto
  have "phi_defs pred e' (concat (map g (x # xs))) = Some (ds' @ rest')"
    using ds'(1) rest'(1) by (simp add: phi_defs_def app)
  moreover have "map_of (ds' @ rest') v = map_of defs v" if "v \<in> N" for v
  proof (cases "ds' = ds")
    case False
    then have "v \<notin> fst ` set ds" "ds' = []" using ds'(2) that by auto
    then have "map_of ds v = None" by (simp add: map_of_eq_None_iff)
    then show ?thesis using \<open>ds' = []\<close> rest'(2) that by (simp add: defs map_add_def)
  qed (use rest'(2) that in \<open>simp add: defs map_add_def split: option.split\<close>)
  ultimately show ?case by blast
qed (simp add: phi_defs_def)

lemma assign_sim:
  "env_le N e e' \<Longrightarrow> \<forall>v \<in> N. map_of defs' v = map_of defs v \<Longrightarrow> env_le N (assign defs e) (assign defs' e')"
  by (auto simp: env_le_def assign_def split: option.splits)


section \<open>Where a block goes\<close>

fun control_targets :: "ssa_insn \<Rightarrow> nat set" where
  "control_targets (SBr w op lhs rhs t f) = (if op = JCall \<or> op = JExit then {} else set_option t) \<union> set_option f"
| "control_targets (SJa t) = {t}"
| "control_targets i = {}"

lemma eval_insn_target:
  assumes "eval_insn fx i e w = Goto t e1 w1"
  shows "is_control i \<and> t \<in> control_targets i"
proof (cases i)
  case (SBr wd op lhs rhs tt ff)
  have never: "\<not> jump_taken JCall l r wd" "\<not> jump_taken JExit l r wd" for l r
    by (cases wd; simp add: jump_taken_def jump_taken_32_def)+
  from SBr assms show ?thesis
    by (auto simp: goto_target_def is_control_def never split: option.splits if_splits)
qed (use assms in \<open>auto simp: define_value_def is_control_def split: option.splits prod.splits\<close>)

lemma eval_body_target:
  "eval_body fx ins e w = Goto t e1 w1 \<Longrightarrow> \<exists>i. find is_control ins = Some i \<and> t \<in> control_targets i"
proof (induction ins arbitrary: e w)
  case (Cons i ins)
  show ?case
  proof (cases "eval_insn fx i e w")
    case (Cont e' w')
    then have "\<not> is_control i"
      by (cases i) (auto simp: is_control_def goto_target_def split: option.splits if_splits)
    then show ?thesis using Cons Cont by simp
  next
    case (Goto t' e' w')
    then show ?thesis using Cons.prems eval_insn_target [OF Goto] by simp
  qed (use Cons.prems in simp)
qed simp


section \<open>Well-formed programs\<close>

text \<open>
  The blocks tile the instructions in node order; every definition in a live block is the one the
  definition table names; edges stay inside the graph and lead where the terminators go.
\<close>

definition layout_ok :: "ssa_program \<Rightarrow> bool" where
  "layout_ok prog \<longleftrightarrow>
     concat (map (block_range prog) [0..<length (sp_blocks prog)]) = [0..<length (sp_insns prog)]"

definition def_recorded :: "ssa_program \<Rightarrow> nat \<Rightarrow> bool" where
  "def_recorded prog pos = (case def_dst (sp_insns prog ! pos) of
      None \<Rightarrow> True
    | Some d \<Rightarrow> d < length (sp_def_sites prog) \<and> sp_def_sites prog ! d = Some pos)"

definition defs_ok :: "ssa_program \<Rightarrow> bool" where
  "defs_ok prog \<longleftrightarrow> list_all (def_recorded prog) (live_range prog)"

definition edges_ok :: "ssa_program \<Rightarrow> bool" where
  "edges_ok prog \<longleftrightarrow> sp_entry prog < length (sp_blocks prog) \<and> length (sp_blocks prog) \<le> start_pred
     \<and> list_all (\<lambda>(source, target, kind). target < length (sp_blocks prog)) (sp_edges prog)"

definition targets_at :: "adjacency \<Rightarrow> ssa_program \<Rightarrow> nat \<Rightarrow> bool" where
  "targets_at adj prog b = (case terminator prog b of
      None \<Rightarrow> True
    | Some i \<Rightarrow> control_targets i \<subseteq> set (live_successors adj prog b))"

definition ssa_ok :: "adjacency \<Rightarrow> ssa_program \<Rightarrow> bool" where
  "ssa_ok adj prog \<longleftrightarrow> layout_ok prog \<and> defs_ok prog \<and> edges_ok prog \<and> list_all (targets_at adj prog) (live_blocks prog)"

text \<open>What the documentation of petgraph's \<open>edges\<close> promises: only edges of the graph.\<close>

definition adj_sound :: "adjacency \<Rightarrow> bool" where
  "adj_sound adj \<longleftrightarrow> (\<forall>edges n. set (adj edges n) \<subseteq> set edges)"

lemma distinct_concat_filter: "distinct (concat (map f xs)) \<Longrightarrow> distinct (concat (map f (filter p xs)))"
  by (induction xs) auto

lemma live_range_distinct: "ssa_ok adj prog \<Longrightarrow> distinct (live_range prog)"
  unfolding live_range_def live_blocks_def ssa_ok_def layout_ok_def
  by (rule distinct_concat_filter) (metis distinct_upt)

lemma live_range_bound:
  assumes "ssa_ok adj prog" "x \<in> set (live_range prog)"
  shows "x < length (sp_insns prog)"
proof -
  have "x \<in> set (concat (map (block_range prog) [0..<length (sp_blocks prog)]))"
    using assms(2) by (auto simp: live_range_def live_blocks_def)
  then show ?thesis using assms(1) by (simp only: ssa_ok_def layout_ok_def) simp
qed

lemma live_rangeI: "b < length (sp_blocks prog) \<Longrightarrow> live_block prog b \<Longrightarrow> x \<in> set (block_range prog b) \<Longrightarrow> x \<in> set (live_range prog)"
  by (auto simp: live_range_def live_blocks_def)

lemma live_rangeE:
  assumes "x \<in> set (live_range prog)"
  obtains b where "b < length (sp_blocks prog)" "live_block prog b" "x \<in> set (block_range prog b)"
  using assms by (auto simp: live_range_def live_blocks_def)

lemma def_site: "ssa_ok adj prog \<Longrightarrow> x \<in> set (live_range prog) \<Longrightarrow> def_dst (sp_insns prog ! x) = Some d
  \<Longrightarrow> d < length (sp_def_sites prog) \<and> sp_def_sites prog ! d = Some x"
  by (auto simp: ssa_ok_def defs_ok_def list_all_iff def_recorded_def)

lemma def_unique: "ssa_ok adj prog \<Longrightarrow> x \<in> set (live_range prog) \<Longrightarrow> y \<in> set (live_range prog)
  \<Longrightarrow> def_dst (sp_insns prog ! x) = Some d \<Longrightarrow> def_dst (sp_insns prog ! y) = Some d \<Longrightarrow> x = y"
  by (metis def_site option.inject)

text \<open>The values that hold before the entry block runs.\<close>

lemma pseudo_def_dst: "(v, x) \<in> set (pseudo_def fx i) \<Longrightarrow> def_dst i = Some v \<and> pseudo_def fx i = [(v, x)]"
  by (cases i) (auto simp: pseudo_def_def)

lemma entry_env_iff:
  assumes "ssa_ok adj prog" "live_block prog (sp_entry prog)"
  shows "entry_env fx prog v = Some x \<longleftrightarrow>
    (\<exists>pos \<in> set (block_range prog (sp_entry prog)). pseudo_def fx (sp_insns prog ! pos) = [(v, x)])"
    (is "?l \<longleftrightarrow> ?r")
proof
  assume ?l
  then have "(v, x) \<in> set (concat (map (pseudo_def fx) (block_body prog (sp_entry prog))))"
    unfolding entry_env_def by (rule map_of_SomeD)
  then obtain pos where "pos \<in> set (block_range prog (sp_entry prog))" "(v, x) \<in> set (pseudo_def fx (sp_insns prog ! pos))"
    by (auto simp: block_body_def)
  then show ?r using pseudo_def_dst by blast
next
  have live: "pos \<in> set (live_range prog)" if "pos \<in> set (block_range prog (sp_entry prog))" for pos
    using that assms by (auto simp: ssa_ok_def edges_ok_def intro: live_rangeI)
  assume ?r
  then obtain pos where pos: "pos \<in> set (block_range prog (sp_entry prog))" "pseudo_def fx (sp_insns prog ! pos) = [(v, x)]" by auto
  have one: "x' = x" if at: "(v, x') \<in> set (concat (map (pseudo_def fx) (block_body prog (sp_entry prog))))" for x'
  proof -
    obtain q where q: "q \<in> set (block_range prog (sp_entry prog))" "(v, x') \<in> set (pseudo_def fx (sp_insns prog ! q))"
      using at by (auto simp: block_body_def)
    have "(v, x) \<in> set (pseudo_def fx (sp_insns prog ! pos))" using pos(2) by simp
    note dst = pseudo_def_dst [OF q(2), THEN conjunct1] pseudo_def_dst [OF this, THEN conjunct1]
    have "q = pos" by (rule def_unique [OF assms(1) live [OF q(1)] live [OF pos(1)] dst])
    then show ?thesis using q(2) pos(2) by simp
  qed
  have "(v, x) \<in> set (concat (map (pseudo_def fx) (block_body prog (sp_entry prog))))"
    using pos by (force simp: block_body_def)
  then obtain x' where "entry_env fx prog v = Some x'"
    unfolding entry_env_def by (metis map_of_eq_None_iff image_eqI fst_conv not_None_eq)
  then show ?l using one unfolding entry_env_def by (metis map_of_SomeD)
qed


section \<open>Runs\<close>

definition reach :: "adjacency \<Rightarrow> ssa_program \<Rightarrow> nat \<Rightarrow> bool" where
  "reach adj prog b \<longleftrightarrow> (sp_entry prog, b) \<in> (succ_rel (live_successors adj prog))\<^sup>*"

definition visits :: "adjacency \<Rightarrow> ssa_program \<Rightarrow> nat \<Rightarrow> bool" where
  "visits adj prog b \<longleftrightarrow> reach adj prog b \<and> b < length (sp_blocks prog) \<and> live_block prog b"

definition came_from :: "adjacency \<Rightarrow> ssa_program \<Rightarrow> nat \<Rightarrow> nat \<Rightarrow> bool" where
  "came_from adj prog pred b \<longleftrightarrow> is_start_pred pred \<and> b = sp_entry prog
     \<or> visits adj prog pred \<and> b \<in> set (live_successors adj prog pred)"

lemma reach_step: "reach adj prog b \<Longrightarrow> t \<in> set (live_successors adj prog b) \<Longrightarrow> reach adj prog t"
  unfolding reach_def by (erule rtrancl_into_rtrancl) (simp add: succ_rel_def)

lemma came_from_reach: "came_from adj prog pred b \<Longrightarrow> reach adj prog b"
  by (auto simp: came_from_def visits_def intro: reach_step) (simp add: reach_def)

lemma visits_range: "visits adj prog b \<Longrightarrow> x \<in> set (block_range prog b) \<Longrightarrow> x \<in> set (live_range prog)"
  by (auto simp: visits_def intro: live_rangeI)

lemma visits_target:
  assumes "ssa_ok adj prog" "visits adj prog b" "find is_control (block_body prog b) = Some i" "t \<in> control_targets i"
  shows "t \<in> set (live_successors adj prog b)"
  using assms by (force simp: ssa_ok_def list_all_iff targets_at_def terminator_def visits_def live_blocks_def)

text \<open>
  \<open>P b x\<close> holds of the environment before instruction \<open>x\<close> of block \<open>b\<close>, \<open>PE b\<close> when \<open>b\<close> is left;
  both are about the first program only.
\<close>

lemma pass_sim:
  fixes fx :: "'w effects"
  assumes ok: "ssa_ok adj prog"
    and len: "length (sp_blocks prog') = length (sp_blocks prog)"
    and body: "\<And>b. visits adj prog b \<Longrightarrow> block_body prog' b = concat (map g (block_range prog b))"
    and step: "\<And>b x e e' w. visits adj prog b \<Longrightarrow> x \<in> set (block_range prog b) \<Longrightarrow> P b x e \<Longrightarrow> env_le N e e' \<Longrightarrow>
        flow_le N (eval_insn fx (sp_insns prog ! x) e w) (eval_body fx (g x) e' w)"
    and pres: "\<And>b x e w e1 w1. visits adj prog b \<Longrightarrow> x \<in> set (block_range prog b) \<Longrightarrow> P b x e \<Longrightarrow>
        eval_insn fx (sp_insns prog ! x) e w = Cont e1 w1 \<Longrightarrow> P b (Suc x) e1"
    and leave: "\<And>b x e. visits adj prog b \<Longrightarrow> x \<in> set (block_range prog b) \<Longrightarrow> P b x e \<Longrightarrow>
        is_control (sp_insns prog ! x) \<Longrightarrow> PE b e"
    and fall: "\<And>b x e. visits adj prog b \<Longrightarrow> sb_end (sp_blocks prog ! b) \<le> x \<Longrightarrow> P b x e \<Longrightarrow> PE b e"
    and phi: "\<And>b x pred e e' ds. visits adj prog b \<Longrightarrow> x \<in> set (block_range prog b) \<Longrightarrow> came_from adj prog pred b \<Longrightarrow>
        PE pred e \<Longrightarrow> env_le N e e' \<Longrightarrow> those (phi_def pred e (sp_insns prog ! x)) = Some ds \<Longrightarrow>
        \<exists>ds'. those (concat (map (phi_def pred e') (g x))) = Some ds' \<and> (ds' = ds \<or> ds' = [] \<and> fst ` set ds \<inter> N = {})"
    and phi_pres: "\<And>b pred e defs. visits adj prog b \<Longrightarrow> came_from adj prog pred b \<Longrightarrow> PE pred e \<Longrightarrow>
        phi_defs pred e (block_body prog b) = Some defs \<Longrightarrow> P b (sb_start (sp_blocks prog ! b)) (assign defs e)"
    and live: "\<And>b. visits adj prog b \<Longrightarrow> live_block prog' b"
    and succs: "\<And>b. visits adj prog b \<Longrightarrow> live_successors adj prog' b = live_successors adj prog b"
    and start: "came_from adj prog pred b" "PE pred e" "env_le N e e'" "run_blocks fx adj prog n pred b e w \<noteq> Some Stuck"
  shows "run_blocks fx adj prog' n pred b e' w = run_blocks fx adj prog n pred b e w"
  using start
proof (induction n arbitrary: pred b e e' w)
  case (Suc n)
  show ?case
  proof (cases "b < length (sp_blocks prog) \<and> live_block prog b")
    case False
    then show ?thesis using Suc.prems(4) by simp
  next
    case True
    then have b: "visits adj prog b" using came_from_reach [OF Suc.prems(1)] by (simp add: visits_def)
    let ?f = "enter_block fx (block_body prog b) pred e w"
    show ?thesis
    proof (cases "phi_defs pred e (block_body prog b)")
      case None
      then have "?f = Halt Stuck" by (simp add: enter_block_def)
      then show ?thesis using Suc.prems(4) True by simp
    next
      case (Some defs)
      from phi_sim [where f = "(!) (sp_insns prog)" and xs = "block_range prog b" and g = g,
          OF phi [OF b _ Suc.prems(1-3)] Some [unfolded block_body_def]]
      obtain defs' where defs': "phi_defs pred e' (block_body prog' b) = Some defs'"
        "\<forall>v \<in> N. map_of defs' v = map_of defs v" unfolding body [OF b] by blast
      note e1 = phi_pres [OF b Suc.prems(1,2) Some] assign_sim [OF Suc.prems(3) defs'(2)]
      have "body_matches (PE b) N
          (eval_body fx (map ((!) (sp_insns prog)) (block_range prog b)) (assign defs e) w)
          (eval_body fx (concat (map g (block_range prog b))) (assign defs' e') w)"
        unfolding block_range_def
        by (rule body_sim [where P = "P b", OF _ _ _ _ e1])
          (use step [OF b] pres [OF b] leave [OF b] fall [OF b] in \<open>unfold block_range_def, blast+\<close>)
      then have "body_matches (PE b) N ?f (enter_block fx (block_body prog' b) pred e' w)"
        using Some defs'(1) unfolding enter_block_def body [OF b] by (simp add: block_body_def)
      then have S: "flow_le N ?f (enter_block fx (block_body prog' b) pred e' w)"
        "\<And>e1 w1. ?f = Cont e1 w1 \<Longrightarrow> PE b e1" "\<And>t e1 w1. ?f = Goto t e1 w1 \<Longrightarrow> PE b e1"
        by (simp_all add: body_matches_def)
      show ?thesis
      proof (cases ?f)
        case (Goto t e1 w1)
        then obtain e1' where e1': "enter_block fx (block_body prog' b) pred e' w = Goto t e1' w1" "env_le N e1 e1'"
          using S(1) by auto
        obtain i where "find is_control (block_body prog b) = Some i" "t \<in> control_targets i"
          using eval_body_target Goto Some unfolding enter_block_def by fastforce
        then have "came_from adj prog b t" using visits_target [OF ok b] b by (simp add: came_from_def)
        from Suc.IH [OF this S(3) [OF Goto] e1'(2)] Suc.prems(4) True Goto e1'(1) live [OF b] len
        show ?thesis by simp
      next
        case (Cont e1 w1)
        then obtain e1' where e1': "enter_block fx (block_body prog' b) pred e' w = Cont e1' w1" "env_le N e1 e1'"
          using S(1) by auto
        show ?thesis
        proof (cases "live_successors adj prog b")
          case Nil
          then show ?thesis using True Cont e1'(1) live [OF b] len succs [OF b] by simp
        next
          case (Cons t ts)
          then have "came_from adj prog b t" using b by (simp add: came_from_def)
          from Suc.IH [OF this S(2) [OF Cont] e1'(2)] Suc.prems(4) True Cont e1'(1) live [OF b] len succs [OF b] Cons
          show ?thesis by simp
        qed
      next
        case (Halt out)
        then show ?thesis using S(1) Suc.prems(4) True live [OF b] len by (cases out) auto
      qed
    qed
  qed
qed simp

end
