(* ===== verification/SsaFold.thy ===== *)
theory SsaFold
  imports SsaPass
begin

text \<open>
  Well-formed SSA programs, passes that only replace instructions in place, and constant folding:
  a folded program keeps every run that does not get stuck.
\<close>

section \<open>Replacing instructions in place\<close>

definition same_control :: "ssa_insn \<Rightarrow> ssa_insn \<Rightarrow> bool" where
  "same_control i i' \<longleftrightarrow> is_control i = is_control i' \<and> control_targets i = control_targets i'
     \<and> dead_taken (Some i) = dead_taken (Some i')"

lemma same_control_refl [simp]: "same_control i i"
  by (simp add: same_control_def)

lemma insns_update_simps [simp]:
  "block_range (prog\<lparr>sp_insns := is\<rparr>) = block_range prog"
  "live_block (prog\<lparr>sp_insns := is\<rparr>) = live_block prog"
  "live_blocks (prog\<lparr>sp_insns := is\<rparr>) = live_blocks prog"
  "live_range (prog\<lparr>sp_insns := is\<rparr>) = live_range prog"
proof -
  show r: "block_range (prog\<lparr>sp_insns := is\<rparr>) = block_range prog" and l: "live_block (prog\<lparr>sp_insns := is\<rparr>) = live_block prog"
    by (auto simp: fun_eq_iff block_range_def live_block_def)
  show b: "live_blocks (prog\<lparr>sp_insns := is\<rparr>) = live_blocks prog" by (simp add: live_blocks_def l)
  show "live_range (prog\<lparr>sp_insns := is\<rparr>) = live_range prog" by (simp add: live_range_def r b)
qed

lemma find_control:
  assumes "\<forall>x \<in> set xs. same_control (f x) (g x)"
  shows "rel_option same_control (find is_control (map f xs)) (find is_control (map g xs))"
  using assms by (induction xs) (auto simp: same_control_def)

lemma terminator_update:
  assumes "\<forall>x \<in> set (block_range prog b). same_control (sp_insns prog ! x) (insns ! x)"
  shows "rel_option same_control (terminator prog b) (terminator (prog\<lparr>sp_insns := insns\<rparr>) b)"
  using find_control [OF assms] by (simp add: terminator_def block_body_def)

lemma dead_taken_rel: "rel_option same_control t t' \<Longrightarrow> dead_taken t = dead_taken t'"
  by (cases t; cases t') (auto simp: same_control_def dead_taken_def)

lemma live_successors_update:
  assumes "\<forall>x \<in> set (block_range prog b). same_control (sp_insns prog ! x) (insns ! x)"
  shows "live_successors adj (prog\<lparr>sp_insns := insns\<rparr>) b = live_successors adj prog b"
  using dead_taken_rel [OF terminator_update [OF assms]] by (simp add: live_successors_def)

lemma ssa_ok_update:
  assumes ok: "ssa_ok adj prog" and len: "length insns = length (sp_insns prog)"
    and same: "\<And>x. x \<in> set (live_range prog) \<Longrightarrow>
      same_control (sp_insns prog ! x) (insns ! x) \<and> def_dst (insns ! x) = def_dst (sp_insns prog ! x)"
  shows "ssa_ok adj (prog\<lparr>sp_insns := insns\<rparr>)"
proof -
  let ?p = "prog\<lparr>sp_insns := insns\<rparr>"
  have "layout_ok ?p" "edges_ok ?p" using ok len by (simp_all add: ssa_ok_def layout_ok_def edges_ok_def)
  moreover have "defs_ok ?p"
    using ok same by (auto simp: ssa_ok_def defs_ok_def list_all_iff def_recorded_def split: option.splits)
  moreover have "targets_at adj ?p b" if b: "b \<in> set (live_blocks prog)" for b
  proof -
    have C: "\<forall>x \<in> set (block_range prog b). same_control (sp_insns prog ! x) (insns ! x)"
      using same b by (auto simp: live_blocks_def intro: live_rangeI)
    have "targets_at adj prog b" using ok b by (simp add: ssa_ok_def list_all_iff)
    then show ?thesis
      using terminator_update [OF C] live_successors_update [OF C, of adj]
      by (cases "terminator prog b"; cases "terminator ?p b") (simp_all add: targets_at_def same_control_def)
  qed
  ultimately show ?thesis by (simp add: ssa_ok_def list_all_iff)
qed

lemma insns_sim:
  fixes fx :: "'w effects"
  assumes ok: "ssa_ok adj prog"
    and same: "\<And>x. x \<in> set (live_range prog) \<Longrightarrow> same_control (sp_insns prog ! x) (insns ! x)"
    and step: "\<And>b x e e' w. visits adj prog b \<Longrightarrow> x \<in> set (block_range prog b) \<Longrightarrow> P b x e \<Longrightarrow> env_le UNIV e e' \<Longrightarrow>
        flow_le UNIV (eval_insn fx (sp_insns prog ! x) e w) (eval_insn fx (insns ! x) e' w)"
    and pres: "\<And>b x e w e1 w1. visits adj prog b \<Longrightarrow> x \<in> set (block_range prog b) \<Longrightarrow> P b x e \<Longrightarrow>
        eval_insn fx (sp_insns prog ! x) e w = Cont e1 w1 \<Longrightarrow> P b (Suc x) e1"
    and leave: "\<And>b x e. visits adj prog b \<Longrightarrow> x \<in> set (block_range prog b) \<Longrightarrow> P b x e \<Longrightarrow>
        is_control (sp_insns prog ! x) \<Longrightarrow> PE b e"
    and fall: "\<And>b x e. visits adj prog b \<Longrightarrow> sb_end (sp_blocks prog ! b) \<le> x \<Longrightarrow> P b x e \<Longrightarrow> PE b e"
    and phi: "\<And>b x pred e e' ds. visits adj prog b \<Longrightarrow> x \<in> set (block_range prog b) \<Longrightarrow> came_from adj prog pred b \<Longrightarrow>
        PE pred e \<Longrightarrow> env_le UNIV e e' \<Longrightarrow> those (phi_def pred e (sp_insns prog ! x)) = Some ds \<Longrightarrow>
        those (phi_def pred e' (insns ! x)) = Some ds"
    and phi_pres: "\<And>b pred e defs. visits adj prog b \<Longrightarrow> came_from adj prog pred b \<Longrightarrow> PE pred e \<Longrightarrow>
        phi_defs pred e (block_body prog b) = Some defs \<Longrightarrow> P b (sb_start (sp_blocks prog ! b)) (assign defs e)"
    and start: "live_block prog (sp_entry prog) \<Longrightarrow>
        PE start_pred (entry_env fx prog) \<and> env_le UNIV (entry_env fx prog) (entry_env fx (prog\<lparr>sp_insns := insns\<rparr>))"
    and run: "run_ssa fx adj prog n w \<noteq> Some Stuck"
  shows "run_ssa fx adj (prog\<lparr>sp_insns := insns\<rparr>) n w = run_ssa fx adj prog n w"
proof (cases "live_block prog (sp_entry prog)")
  case False
  then show ?thesis using run by (cases n) (simp_all add: run_ssa_def)
next
  case True
  have single: "eval_body fx [i] e w = eval_insn fx i e w" for i e w by (rule eval_body_single)
  have same': "visits adj prog b \<Longrightarrow> \<forall>x \<in> set (block_range prog b). same_control (sp_insns prog ! x) (insns ! x)" for b
    using same visits_range by blast
  have "run_blocks fx adj (prog\<lparr>sp_insns := insns\<rparr>) n start_pred (sp_entry prog) (entry_env fx (prog\<lparr>sp_insns := insns\<rparr>)) w
      = run_blocks fx adj prog n start_pred (sp_entry prog) (entry_env fx prog) w"
  proof (rule pass_sim [where g = "\<lambda>x. [insns ! x]" and P = P and PE = PE and N = UNIV, OF ok])
    fix b x pred e e' ds
    assume "visits adj prog b" "x \<in> set (block_range prog b)" "came_from adj prog pred b" "PE pred e" "env_le UNIV e e'"
      "those (phi_def pred e (sp_insns prog ! x)) = Some ds"
    from phi [OF this] show "\<exists>ds'. those (concat (map (phi_def pred e') [insns ! x])) = Some ds' \<and> (ds' = ds \<or> ds' = [] \<and> fst ` set ds \<inter> UNIV = {})"
      by simp
  next
    fix b x e e' w
    assume "visits adj prog b" "x \<in> set (block_range prog b)" "P b x e" "env_le UNIV e e'"
    then show "flow_le UNIV (eval_insn fx (sp_insns prog ! x) e w) (eval_body fx [insns ! x] e' w)"
      unfolding single by (rule step)
  next
    show "run_blocks fx adj prog n start_pred (sp_entry prog) (entry_env fx prog) w \<noteq> Some Stuck"
      using run by (simp add: run_ssa_def)
  qed (use start [OF True] in \<open>simp_all add: block_body_def visits_def came_from_def is_start_pred_def
      live_successors_update same' pres leave fall phi_pres [unfolded block_body_def]\<close>)
  then show ?thesis by (simp add: run_ssa_def)
qed


section \<open>Constant folding\<close>

text \<open>What a table promises of an environment, and of the definitions of a program.\<close>

definition table_env :: "const_table \<Rightarrow> env \<Rightarrow> bool" where
  "table_env t e \<longleftrightarrow> (\<forall>v k. v < length t \<longrightarrow> t ! v = Some k \<longrightarrow> e v = None \<or> e v = Some k)"

definition table_insn :: "const_table \<Rightarrow> ssa_insn \<Rightarrow> bool" where
  "table_insn t i = (case def_dst i of
      None \<Rightarrow> True
    | Some v \<Rightarrow> (if v < length t then case t ! v of None \<Rightarrow> True | Some k \<Rightarrow> i = SConst v k \<or> i = SLoadImm64 v k else True))"

definition table_ok :: "const_table \<Rightarrow> ssa_program \<Rightarrow> bool" where
  "table_ok t prog \<longleftrightarrow> list_all (\<lambda>pos. table_insn t (sp_insns prog ! pos)) (live_range prog)"

lemma table_insnD:
  "table_insn t i \<Longrightarrow> def_dst i = Some v \<Longrightarrow> v < length t \<Longrightarrow> t ! v = Some k \<Longrightarrow> i = SConst v k \<or> i = SLoadImm64 v k"
  by (simp add: table_insn_def)

lemma table_env_assign:
  assumes "table_env t e" "\<And>d x k. (d, x) \<in> set defs \<Longrightarrow> d < length t \<Longrightarrow> t ! d = Some k \<Longrightarrow> x = k"
  shows "table_env t (assign defs e)"
  using assms by (auto simp: table_env_def assign_def dest!: map_of_SomeD split: option.splits)

lemma eval_insn_defs:
  assumes "eval_insn fx i e w = Cont e1 w1"
  shows "e1 = e \<or> (\<exists>d x. def_dst i = Some d \<and> e1 = assign [(d, x)] e)"
  using assms by (cases i) (auto simp: define_value_def goto_target_def split: option.splits prod.splits)

lemma eval_insn_table:
  assumes "table_insn t i" "table_env t e" "eval_insn fx i e w = Cont e1 w1"
  shows "table_env t e1"
proof -
  consider "e1 = e" | d x where "def_dst i = Some d" "e1 = assign [(d, x)] e" using eval_insn_defs [OF assms(3)] by blast
  then show ?thesis
  proof cases
    case 2
    have "x' = k" if "(d', x') \<in> set [(d, x)]" "d' < length t" "t ! d' = Some k" for d' x' k
    proof -
      from table_insnD [OF assms(1) 2(1)] that have "i = SConst d k \<or> i = SLoadImm64 d k" by simp
      then have "e1 = assign [(d, k)] e" using assms(3) by (auto simp: define_value_def)
      then have "assign [(d, x)] e d = assign [(d, k)] e d" using 2(2) by simp
      then show ?thesis using that by (simp add: assign_def)
    qed
    then show ?thesis unfolding 2(2) by (rule table_env_assign [OF assms(2)])
  qed (use assms(2) in simp)
qed

lemma phi_defs_from:
  assumes "phi_defs pred e body = Some defs" "(d, x) \<in> set defs"
  shows "\<exists>inputs v. SPhi d inputs \<in> set body \<and> map_of inputs pred = Some v \<and> e v = Some x"
proof -
  have "those ys = Some zs \<Longrightarrow> z \<in> set zs \<Longrightarrow> Some z \<in> set ys" for ys :: "'a option list" and zs z
    by (induction ys arbitrary: zs) (auto split: option.splits)
  from this [OF assms [unfolded phi_defs_def]]
  obtain i where i: "i \<in> set body" "Some (d, x) \<in> set (phi_def pred e i)" by auto
  from i(2) have "\<exists>inputs v. i = SPhi d inputs \<and> map_of inputs pred = Some v \<and> e v = Some x"
    by (cases i) (auto simp: phi_def_def bind_eq_Some_conv dest!: sym [of "Some (d, x)"])
  then show ?thesis using i(1) by blast
qed

lemma phi_defs_table:
  assumes ok: "table_ok t prog" and b: "b \<in> set (live_blocks prog)" and e: "table_env t e"
    and defs: "phi_defs pred e (block_body prog b) = Some defs"
  shows "table_env t (assign defs e)"
proof (rule table_env_assign [OF e])
  fix d x k assume d: "(d, x) \<in> set defs" "d < length t" "t ! d = Some k"
  obtain inputs where "SPhi d inputs \<in> set (block_body prog b)" using phi_defs_from [OF defs d(1)] by auto
  then obtain pos where pos: "pos \<in> set (block_range prog b)" "sp_insns prog ! pos = SPhi d inputs"
    by (force simp: block_body_def)
  moreover have "pos \<in> set (live_range prog)" using pos(1) b by (auto simp: live_blocks_def intro: live_rangeI)
  ultimately have "pos \<in> set (live_range prog)" "sp_insns prog ! pos = SPhi d inputs" by simp_all
  then have "table_insn t (SPhi d inputs)" using ok by (force simp: table_ok_def list_all_iff)
  then show "x = k" using d by (simp add: table_insn_def)
qed

lemma entry_env_table:
  assumes "ssa_ok adj prog" "table_ok t prog" "live_block prog (sp_entry prog)"
  shows "table_env t (entry_env fx prog)"
proof -
  have "x = k" if at: "entry_env fx prog v = Some x" "v < length t" "t ! v = Some k" for v x k
  proof -
    obtain pos where pos: "pos \<in> set (block_range prog (sp_entry prog))" "pseudo_def fx (sp_insns prog ! pos) = [(v, x)]"
      using at(1) entry_env_iff [OF assms(1,3)] by blast
    then have "pos \<in> set (live_range prog)" using assms by (auto simp: ssa_ok_def edges_ok_def intro: live_rangeI)
    then have "table_insn t (sp_insns prog ! pos)" using assms(2) by (simp add: table_ok_def list_all_iff)
    then show ?thesis using pos(2) at(2,3) by (cases "sp_insns prog ! pos") (auto simp: pseudo_def_def table_insn_def)
  qed
  then show ?thesis unfolding table_env_def by (metis option.exhaust)
qed

lemma consts_resolve_val:
  "table_env t e \<Longrightarrow> consts_resolve t operand = Some k \<Longrightarrow> operand_val e operand = None \<or> operand_val e operand = Some k"
  by (cases operand) (auto simp: consts_resolve_def table_env_def split: if_splits)

text \<open>A folded operation computes, at run time, the value the table gives it.\<close>

lemma fold_value_sound:
  assumes "table_env t e" "fold_value t i = Some (dst, k)"
  shows "eval_insn fx i e w = Halt Stuck \<or> eval_insn fx i e w = Cont (assign [(dst, k)] e) w"
proof -
  obtain d wd op lhs rhs where i: "i = SBinOp d wd op lhs rhs" using assms(2) by (auto simp: fold_value_def split: ssa_insn.splits)
  have v: "consts_resolve t x = Some y \<Longrightarrow> operand_val e x = None \<or> operand_val e x = Some y" for x y
    by (rule consts_resolve_val [OF assms(1)])
  have "d = dst \<and> (eval_binop e wd op lhs rhs = None \<or> eval_binop e wd op lhs rhs = Some (Some k))"
    using assms(2) unfolding i
    by (cases op) (auto simp: fold_value_def eval_binop_def bind_eq_Some_conv split: if_splits dest!: v)
  then show ?thesis by (auto simp: i define_value_def)
qed

lemma fold_value_dst: "fold_value t i = Some (dst, k) \<Longrightarrow> def_dst i = Some dst \<and> \<not> is_control i \<and> pseudo_def fx i = [] \<and> phi_def pred e i = []"
  by (cases i) (auto simp: fold_value_def is_control_def pseudo_def_def phi_def_def)

lemma fold_step:
  assumes ok: "ssa_ok adj prog" and t: "table_ok t prog" and pos: "pos \<in> set (live_range prog)"
    and f: "fold_value t (sp_insns prog ! pos) = Some (dst, k)"
    and p': "prog' = prog\<lparr>sp_insns := (sp_insns prog)[pos := SConst dst k]\<rparr>"
  shows "simulates adj prog prog' TYPE('w)" "ssa_ok adj prog'" "table_ok (consts_record dst k t) prog'"
proof -
  note bound = live_range_bound [OF ok] and i = fold_value_dst [OF f]
  have at: "sp_insns prog' ! x = (if x = pos then SConst dst k else sp_insns prog ! x)" if "x \<in> set (live_range prog)" for x
    using bound [OF that] by (simp add: p' nth_list_update)
  have same: "same_control (sp_insns prog ! x) (sp_insns prog' ! x) \<and> def_dst (sp_insns prog' ! x) = def_dst (sp_insns prog ! x)"
    if "x \<in> set (live_range prog)" for x
    using at [OF that] i by (cases "sp_insns prog ! pos") (auto simp: same_control_def is_control_def dead_taken_def)
  show ok': "ssa_ok adj prog'"
    using ssa_ok_update [OF ok, of "(sp_insns prog)[pos := SConst dst k]"] same by (simp add: p')
  have "table_insn (consts_record dst k t) (sp_insns prog' ! x)" if x: "x \<in> set (live_range prog)" for x
  proof (cases "x = pos")
    case False
    then have "def_dst (sp_insns prog ! x) \<noteq> Some dst" using def_unique [OF ok x pos] i by blast
    moreover have "table_insn t (sp_insns prog ! x)" using t x by (simp add: table_ok_def list_all_iff)
    ultimately show ?thesis using False at [OF x]
      by (auto simp: table_insn_def consts_record_def nth_list_update split: option.splits)
  qed (use at [OF x] in \<open>simp add: table_insn_def consts_record_def\<close>)
  then show "table_ok (consts_record dst k t) prog'" by (simp add: table_ok_def list_all_iff p')
  show "simulates adj prog prog' TYPE('w)" unfolding simulates_def
  proof (intro allI impI)
    fix fx :: "'w effects" and n w assume run: "run_ssa fx adj prog n w \<noteq> Some Stuck"
    show "run_ssa fx adj prog' n w = run_ssa fx adj prog n w"
      unfolding p'
    proof (rule insns_sim [where P = "\<lambda>b x. table_env t" and PE = "\<lambda>b. table_env t", OF ok])
      fix b x e e' w assume "visits adj prog b" "x \<in> set (block_range prog b)" and e: "table_env t e" "env_le UNIV e e'"
      then have x: "x \<in> set (live_range prog)" by (simp add: visits_range)
      show "flow_le UNIV (eval_insn fx (sp_insns prog ! x) e w) (eval_insn fx ((sp_insns prog)[pos := SConst dst k] ! x) e' w)"
        using at [OF x] fold_value_sound [OF e(1) f, of fx w] eval_insn_le [OF e(2)] env_le_assign [OF e(2)]
        by (auto simp: p' define_value_def split: if_splits)
    next
      fix b x e w e1 w1 assume "visits adj prog b" "x \<in> set (block_range prog b)"
        and e: "table_env t e" "eval_insn fx (sp_insns prog ! x) e w = Cont e1 w1"
      then have x: "x \<in> set (live_range prog)" by (simp add: visits_range)
      have "table_insn t (sp_insns prog ! x)" using t x by (simp add: table_ok_def list_all_iff)
      then show "table_env t e1" using e by (rule eval_insn_table)
    next
      fix b x pred e e' ds assume "visits adj prog b" "x \<in> set (block_range prog b)" and e: "env_le UNIV e e'"
        and ds: "those (phi_def pred e (sp_insns prog ! x)) = Some ds"
      then have x: "x \<in> set (live_range prog)" by (simp add: visits_range)
      have "those (phi_def pred e' (sp_insns prog ! x)) = Some ds"
        using ds e by (auto simp: phi_def_def bind_eq_Some_conv env_le_def split: ssa_insn.splits option.splits)
      moreover have "phi_def pred e' (SConst dst k) = []" by (simp add: phi_def_def)
      ultimately show "those (phi_def pred e' ((sp_insns prog)[pos := SConst dst k] ! x)) = Some ds"
        using at [OF x] i [of fx pred e'] by (auto simp: p' split: if_splits)
    next
      assume live: "live_block prog (sp_entry prog)"
      then have live': "live_block prog' (sp_entry prog')" by (simp add: p')
      have "entry_env fx prog' v = Some x" if v: "entry_env fx prog v = Some x" for v x
      proof -
        obtain q where q: "q \<in> set (block_range prog (sp_entry prog))" "pseudo_def fx (sp_insns prog ! q) = [(v, x)]"
          using v entry_env_iff [OF ok live] by blast
        have "q \<in> set (live_range prog)" using q ok live by (auto simp: ssa_ok_def edges_ok_def intro: live_rangeI)
        then have "pseudo_def fx (sp_insns prog' ! q) = [(v, x)]" using at q(2) i [of fx 0 Map.empty] by auto
        then show ?thesis using entry_env_iff [OF ok' live'] q(1) by (auto simp: p')
      qed
      then show "table_env t (entry_env fx prog)
          \<and> env_le UNIV (entry_env fx prog) (entry_env fx (prog\<lparr>sp_insns := (sp_insns prog)[pos := SConst dst k]\<rparr>))"
        using entry_env_table [OF ok t live] by (simp add: env_le_def p')
    qed (use phi_defs_table [OF t] same run in \<open>auto simp: p' visits_def live_blocks_def\<close>)
  qed
qed

definition fold_result :: "adjacency \<Rightarrow> 'w itself \<Rightarrow> ssa_program \<Rightarrow> ssa_program \<Rightarrow> const_table \<Rightarrow> bool" where
  "fold_result adj T prog prog' t \<longleftrightarrow> simulates adj prog prog' T \<and> ssa_ok adj prog' \<and> table_ok t prog'"

lemma fold_all:
  assumes "ssa_ok adj prog" "table_ok t prog" "set ps \<subseteq> set (live_range prog)"
    and "fold fold_at ps (sp_insns prog, t, c) = (insns, t', c')"
  shows "fold_result adj TYPE('w) prog (prog\<lparr>sp_insns := insns\<rparr>) t'"
  using assms
proof (induction ps arbitrary: prog t c)
  case Nil
  then have eq: "prog\<lparr>sp_insns := insns\<rparr> = prog" "t' = t" by (cases prog; simp)+
  show ?case unfolding eq using Nil by (simp add: fold_result_def simulates_def)
next
  case (Cons p ps)
  show ?case
  proof (cases "fold_value t (sp_insns prog ! p)")
    case None
    then show ?thesis using Cons by (simp add: fold_at_def)
  next
    case (Some dk)
    obtain dst k where dk: "dk = (dst, k)" by force
    let ?p = "prog\<lparr>sp_insns := (sp_insns prog)[p := SConst dst k]\<rparr>"
    have "p \<in> set (live_range prog)" using Cons.prems(3) by simp
    note S = fold_step [OF Cons.prems(1,2) this Some [unfolded dk] refl]
    have "fold_at p (sp_insns prog, t, c) = (sp_insns ?p, consts_record dst k t, True)"
      using Some dk by (simp add: fold_at_def)
    then have "fold fold_at ps (sp_insns ?p, consts_record dst k t, True) = (insns, t', c')"
      using Cons.prems(4) by simp
    from Cons.IH [OF S(2,3) _ this] Cons.prems(3)
    have "fold_result adj TYPE('w) ?p (prog\<lparr>sp_insns := insns\<rparr>) t'" by simp
    then show ?thesis using simulates_trans [OF S(1)] by (auto simp: fold_result_def)
  qed
qed


lemma constant_fold_result:
  assumes "ssa_ok adj prog" "table_ok t prog" "constant_fold prog t = (prog', t', c)"
  shows "fold_result adj TYPE('w) prog prog' t'"
proof -
  obtain insns where "fold fold_at (live_range prog) (sp_insns prog, t, False) = (insns, t', c)" "prog' = prog\<lparr>sp_insns := insns\<rparr>"
    using assms(3) by (auto simp: constant_fold_def split: prod.splits)
  with fold_all [OF assms(1,2) order_refl this(1)] show ?thesis by simp
qed

text \<open>The initial table, when every block is live.\<close>

definition const_def :: "ssa_insn \<Rightarrow> (ssa_value \<times> i64) option" where
  "const_def i = (case i of SConst dst k \<Rightarrow> Some (dst, k) | SLoadImm64 dst k \<Rightarrow> Some (dst, k) | _ \<Rightarrow> None)"

lemma consts_build_entries:
  "fold (\<lambda>insn t. case insn of SConst dst k \<Rightarrow> consts_record dst k t | SLoadImm64 dst k \<Rightarrow> consts_record dst k t | _ \<Rightarrow> t) is t ! v = Some k
    \<Longrightarrow> v < length t \<Longrightarrow> t ! v = Some k \<or> (\<exists>i \<in> set is. const_def i = Some (v, k))"
proof (induction "is" arbitrary: t)
  case (Cons i "is")
  let ?t = "case i of SConst dst k \<Rightarrow> consts_record dst k t | SLoadImm64 dst k \<Rightarrow> consts_record dst k t | _ \<Rightarrow> t"
  have len: "length ?t = length t" by (simp add: consts_record_def split: ssa_insn.split)
  have "?t ! v = Some k \<or> (\<exists>i \<in> set is. const_def i = Some (v, k))" using Cons len by simp
  moreover have "?t ! v = Some k \<Longrightarrow> t ! v = Some k \<or> const_def i = Some (v, k)"
    using Cons.prems(2) by (auto simp: consts_record_def const_def_def nth_list_update split: ssa_insn.splits if_splits)
  ultimately show ?case by auto
qed simp

lemma const_def_dst: "const_def i = Some (v, k) \<Longrightarrow> def_dst i = Some v \<and> (i = SConst v k \<or> i = SLoadImm64 v k)"
  by (cases i) (auto simp: const_def_def)

definition all_live :: "ssa_program \<Rightarrow> bool" where
  "all_live prog \<longleftrightarrow> list_all sb_live (sp_blocks prog)"

lemma all_live_range: "ssa_ok adj prog \<Longrightarrow> all_live prog \<Longrightarrow> live_range prog = [0..<length (sp_insns prog)]"
  by (auto simp: ssa_ok_def layout_ok_def live_range_def live_blocks_def live_block_def all_live_def list_all_length
      cong: filter_cong intro!: arg_cong [where f = concat])

lemma consts_build_ok:
  assumes ok: "ssa_ok adj prog" and all: "all_live prog"
  shows "table_ok (consts_build prog) prog"
proof -
  note range = all_live_range [OF ok all]
  have len: "length (consts_build prog) = length (sp_def_sites prog)"
  proof -
    have "length (fold (\<lambda>insn t. case insn of SConst dst k \<Rightarrow> consts_record dst k t | SLoadImm64 dst k \<Rightarrow> consts_record dst k t | _ \<Rightarrow> t) is t) = length t" for "is" and t :: const_table
      by (induction "is" arbitrary: t) (auto simp: consts_record_def split: ssa_insn.split)
    then show ?thesis by (simp add: consts_build_def)
  qed
  have "sp_insns prog ! pos = SConst v k \<or> sp_insns prog ! pos = SLoadImm64 v k"
    if at: "pos \<in> set (live_range prog)" "def_dst (sp_insns prog ! pos) = Some v" "v < length (consts_build prog)" "consts_build prog ! v = Some k" for pos v k
  proof -
    obtain i where "i \<in> set (sp_insns prog)" "const_def i = Some (v, k)"
      using consts_build_entries at(3,4) len unfolding consts_build_def by fastforce
    then obtain q where q: "q < length (sp_insns prog)" "const_def (sp_insns prog ! q) = Some (v, k)" by (metis in_set_conv_nth)
    then have "q = pos" using def_unique [OF ok _ at(1) _ at(2)] const_def_dst range by auto
    then show ?thesis using const_def_dst [OF q(2)] by simp
  qed
  then show ?thesis by (auto simp: table_ok_def list_all_iff table_insn_def split: option.split)
qed

end
