(* ===== verification/SsaDce.thy ===== *)
theory SsaDce
  imports SsaFold
begin

text \<open>
  Dead-code elimination: marking returns and is closed, the swept program keeps every run that does
  not get stuck, and it is well formed again once the definition table is rebuilt.
\<close>

section \<open>Marking\<close>

lemma set_map_filter: "set (List.map_filter f xs) = {y. \<exists>x \<in> set xs. f x = Some y}"
  by (induction xs) (auto simp: List.map_filter_simps split: option.split)

definition depends :: "ssa_program \<Rightarrow> nat \<Rightarrow> nat list" where
  "depends prog idx = List.map_filter (def_index prog) (insn_uses (sp_insns prog ! idx))"

lemma mark_uses: "fold (mark_use prog) vs st = fold reach_push (List.map_filter (def_index prog) vs) st"
  by (induction vs arbitrary: st) (auto simp: mark_use_def reach_push_def List.map_filter_simps split: option.split)

text \<open>Marking is the breadth-first walk over the dependences.\<close>

lemma mark_loop_reach: "reach_loop (depends prog) marked wl = Some r \<Longrightarrow> mark_loop prog marked wl = Some r"
proof -
  have "reach_loop succs marked wl = Some r \<Longrightarrow> succs = depends prog \<Longrightarrow> mark_loop prog marked wl = Some r" for succs
  proof (induction rule: reach_loop.raw_induct [rotated, consumes 1])
    case (1 f succs marked wl r)
    show ?case
    proof (cases wl)
      case (Cons idx rest)
      then show ?thesis using 1 by (subst mark_loop.simps) (auto simp: mark_uses depends_def split: prod.splits)
    qed (use 1 in \<open>subst mark_loop.simps, simp\<close>)
  qed
  then show "reach_loop (depends prog) marked wl = Some r \<Longrightarrow> mark_loop prog marked wl = Some r" by simp
qed

lemma fold_marks:
  "\<forall>i \<in> set is. i < length m \<Longrightarrow> length (fold (\<lambda>idx m. m[idx := True]) is m) = length m
    \<and> (\<forall>j < length m. fold (\<lambda>idx m. m[idx := True]) is m ! j \<longleftrightarrow> m ! j \<or> j \<in> set is)"
  by (induction "is" arbitrary: m) (auto simp: nth_list_update)

definition marks_closed :: "ssa_program \<Rightarrow> bool list \<Rightarrow> bool" where
  "marks_closed prog marked \<longleftrightarrow> length marked = length (sp_insns prog)
     \<and> (\<forall>x \<in> set (root_indices prog). marked ! x)
     \<and> (\<forall>a < length (sp_insns prog). marked ! a \<longrightarrow> (\<forall>v \<in> set (insn_uses (sp_insns prog ! a)). \<forall>d. def_index prog v = Some d \<longrightarrow> marked ! d))"

lemma def_index_bound: "def_index prog v = Some d \<Longrightarrow> d < length (sp_insns prog)"
  by (auto simp: def_index_def split: if_splits option.splits)

lemma mark_roots_result:
  assumes "ssa_ok adj prog"
  shows "\<exists>marked. mark_roots prog = Some marked \<and> marks_closed prog marked"
proof -
  let ?n = "length (sp_insns prog)" and ?roots = "root_indices prog"
  let ?m = "fold (\<lambda>idx m. m[idx := True]) ?roots (replicate ?n False)"
  have roots: "\<forall>i \<in> set ?roots. i < ?n" using live_range_bound [OF assms] by (auto simp: root_indices_def)
  then have m: "length ?m = ?n" "\<And>j. j < ?n \<Longrightarrow> ?m ! j \<longleftrightarrow> j \<in> set ?roots"
    using fold_marks [of ?roots "replicate ?n False"] by auto
  have deps: "b \<in> set (depends prog a) \<longleftrightarrow> (\<exists>v \<in> set (insn_uses (sp_insns prog ! a)). def_index prog v = Some b)" for a b
    by (auto simp: depends_def set_map_filter)
  have "\<exists>r'. reach_loop (depends prog) ?m (List.rev ?roots) = Some r' \<and> length r' = ?n
    \<and> (\<forall>a < ?n. ?m ! a \<longrightarrow> r' ! a) \<and> (\<forall>a < ?n. r' ! a \<longrightarrow> (\<forall>b \<in> set (depends prog a). r' ! b))
    \<and> (\<forall>a < ?n. r' ! a \<longrightarrow> ?m ! a \<or> (\<exists>s \<in> set (List.rev ?roots). (s, a) \<in> (succ_rel (depends prog))\<^sup>*))"
    by (rule reach_loop_result) (use m roots def_index_bound in \<open>auto simp: deps\<close>)
  then obtain r where r: "reach_loop (depends prog) ?m (List.rev ?roots) = Some r" "length r = ?n"
    "\<forall>a < ?n. ?m ! a \<longrightarrow> r ! a" "\<forall>a < ?n. r ! a \<longrightarrow> (\<forall>b \<in> set (depends prog a). r ! b)" by blast
  have "mark_roots prog = Some r" using mark_loop_reach [OF r(1)] by (simp add: mark_roots_def)
  moreover have "r ! d" if "a < ?n" "r ! a" "v \<in> set (insn_uses (sp_insns prog ! a))" "def_index prog v = Some d" for a v d
    using r(4) that deps [of d a] by auto
  then have "marks_closed prog r" using r(2,3) m(2) roots by (simp add: marks_closed_def)
  ultimately show ?thesis by blast
qed


section \<open>The swept program\<close>

lemma sweep_blocks_length [simp]: "length (sweep_blocks prog marked pos bs) = length bs"
  by (induction bs arbitrary: pos) (auto simp: Let_def)

lemma sweep_blocks_nth:
  "i < length bs \<Longrightarrow> sweep_blocks prog marked pos bs ! i =
     (let s = pos + length (concat (map (block_kept prog marked) (take i bs)))
      in \<lparr>sb_start = s, sb_end = s + length (block_kept prog marked (bs ! i)), sb_live = live_block prog (bs ! i)\<rparr>)"
proof (induction bs arbitrary: pos i)
  case (Cons b bs)
  then show ?case by (cases i) (simp_all add: Let_def add.assoc)
qed simp

lemma slice_concat:
  assumes "i < length xss"
  shows "map ((!) (concat xss)) [length (concat (take i xss))..<length (concat (take i xss)) + length (xss ! i)] = xss ! i"
proof -
  have "concat xss = concat (take i xss) @ (xss ! i) @ concat (drop (Suc i) xss)"
    by (metis assms concat.simps(2) concat_append id_take_nth_drop)
  then show ?thesis by (intro nth_equalityI) (auto simp: nth_append)
qed

lemma sweep_blocks_simps [simp]: "length (sp_blocks (sweep prog marked)) = length (sp_blocks prog)"
  "sp_edges (sweep prog marked) = sp_edges prog" "sp_entry (sweep prog marked) = sp_entry prog"
  "sp_def_sites (sweep prog marked) = sp_def_sites prog"
  by (simp_all add: sweep_def Let_def)

lemma sweep_block:
  assumes "b < length (sp_blocks prog)"
  shows "live_block (sweep prog marked) b = live_block prog b"
    and "block_range (sweep prog marked) b =
      [length (concat (map (block_kept prog marked) [0..<b]))..<
       length (concat (map (block_kept prog marked) [0..<b])) + length (block_kept prog marked b)]"
    and "block_body (sweep prog marked) b = block_kept prog marked b"
proof -
  have nth: "sp_blocks (sweep prog marked) ! b =
     (let s = length (concat (map (block_kept prog marked) [0..<b]))
      in \<lparr>sb_start = s, sb_end = s + length (block_kept prog marked b), sb_live = live_block prog b\<rparr>)"
    using sweep_blocks_nth [of b "[0..<length (sp_blocks prog)]" prog marked 0] assms by (simp add: sweep_def Let_def)
  then show "live_block (sweep prog marked) b = live_block prog b" by (simp add: live_block_def Let_def)
  show r: "block_range (sweep prog marked) b =
      [length (concat (map (block_kept prog marked) [0..<b]))..<
       length (concat (map (block_kept prog marked) [0..<b])) + length (block_kept prog marked b)]"
    by (simp add: block_range_def nth Let_def)
  show "block_body (sweep prog marked) b = block_kept prog marked b"
    using slice_concat [of b "map (block_kept prog marked) [0..<length (sp_blocks prog)]"] assms
    unfolding block_body_def r by (simp add: sweep_def Let_def take_map)
qed

lemma sweep_live_blocks: "live_blocks (sweep prog marked) = live_blocks prog"
  by (auto simp: live_blocks_def sweep_block intro!: filter_cong)

definition live_insns :: "ssa_program \<Rightarrow> ssa_insn list" where
  "live_insns prog = map ((!) (sp_insns prog)) (live_range prog)"

lemma live_insns_bodies: "live_insns prog = concat (map (block_body prog) (live_blocks prog))"
  by (simp add: live_insns_def live_range_def map_concat block_body_def [abs_def] comp_def)

lemma sweep_live_insns: "live_insns (sweep prog marked) = map ((!) (sp_insns prog)) (filter ((!) marked) (live_range prog))"
proof -
  have "concat (map (block_body (sweep prog marked)) (live_blocks prog)) = concat (map (\<lambda>b. map ((!) (sp_insns prog)) (filter ((!) marked) (block_range prog b))) (live_blocks prog))"
    by (rule arg_cong [where f = concat], rule map_cong [OF refl]) (auto simp: live_blocks_def sweep_block block_kept_def)
  then show ?thesis
    by (simp add: live_insns_bodies sweep_live_blocks live_range_def map_concat filter_concat comp_def)
qed

lemma sweep_layout: "layout_ok (sweep prog marked)"
proof -
  have "concat (map (block_range (sweep prog marked)) [0..<n]) = [0..<length (concat (map (block_kept prog marked) [0..<n]))]"
    if "n \<le> length (sp_blocks prog)" for n
    using that
  proof (induction n)
    case (Suc n)
    then show ?case by (simp add: sweep_block(2) upt_add_eq_append [of 0, simplified])
  qed simp
  then show ?thesis by (simp add: layout_ok_def sweep_def Let_def)
qed


section \<open>Definition tables\<close>

definition live_defs :: "ssa_program \<Rightarrow> ssa_value list" where
  "live_defs prog = List.map_filter def_dst (live_insns prog)"

lemma distinct_defs:
  assumes "ssa_ok adj prog" "distinct xs" "set xs \<subseteq> set (live_range prog)"
  shows "distinct (List.map_filter (\<lambda>x. def_dst (sp_insns prog ! x)) xs)"
  using assms(2,3)
proof (induction xs)
  case (Cons x xs)
  show ?case
  proof (cases "def_dst (sp_insns prog ! x)")
    case (Some d)
    then have "d \<notin> set (List.map_filter (\<lambda>x. def_dst (sp_insns prog ! x)) xs)"
      using Cons.prems def_unique [OF assms(1) _ _ Some] by (auto simp: set_map_filter)
    then show ?thesis using Cons Some by (simp add: List.map_filter_simps)
  qed (use Cons in \<open>simp add: List.map_filter_simps\<close>)
qed (simp add: List.map_filter_simps)

lemma live_defs_eq: "live_defs prog = List.map_filter (\<lambda>x. def_dst (sp_insns prog ! x)) (live_range prog)"
  by (simp add: live_defs_def live_insns_def List.map_filter_def filter_map comp_def)

lemma record_defs:
  assumes "distinct ps" "distinct (List.map_filter (\<lambda>x. def_dst (insns ! x)) ps)"
    and "\<forall>d \<in> set (List.map_filter (\<lambda>x. def_dst (insns ! x)) ps). d < length sites"
  shows "length (fold (record_def insns) ps sites) = length sites
    \<and> (\<forall>x \<in> set ps. \<forall>d. def_dst (insns ! x) = Some d \<longrightarrow> fold (record_def insns) ps sites ! d = Some x)
    \<and> (\<forall>d. d \<notin> set (List.map_filter (\<lambda>x. def_dst (insns ! x)) ps) \<longrightarrow> fold (record_def insns) ps sites ! d = sites ! d)"
  using assms
proof (induction ps arbitrary: sites)
  case (Cons x ps)
  have len: "length (record_def insns x sites) = length sites" by (simp add: record_def_def split: option.split)
  have H: "length (fold (record_def insns) ps (record_def insns x sites)) = length sites
    \<and> (\<forall>y \<in> set ps. \<forall>d. def_dst (insns ! y) = Some d \<longrightarrow> fold (record_def insns) ps (record_def insns x sites) ! d = Some y)
    \<and> (\<forall>d. d \<notin> set (List.map_filter (\<lambda>x. def_dst (insns ! x)) ps) \<longrightarrow>
         fold (record_def insns) ps (record_def insns x sites) ! d = record_def insns x sites ! d)"
    using Cons.IH [of "record_def insns x sites"] Cons.prems len
    by (cases "def_dst (insns ! x)") (auto simp: List.map_filter_simps)
  show ?case
  proof (cases "def_dst (insns ! x)")
    case (Some d)
    then have "record_def insns x sites = sites[d := Some x]" "d < length sites" "d \<notin> set (List.map_filter (\<lambda>x. def_dst (insns ! x)) ps)"
      using Cons.prems by (auto simp: record_def_def List.map_filter_simps)
    then show ?thesis using H Some by (auto simp: List.map_filter_simps)
  next
    case None
    then have "record_def insns x sites = sites" by (simp add: record_def_def)
    then show ?thesis using H None by (simp add: List.map_filter_simps)
  qed
qed simp

lemma rebuild_simps [simp]:
  "sp_blocks (rebuild_def_sites prog) = sp_blocks prog" "sp_edges (rebuild_def_sites prog) = sp_edges prog"
  "sp_insns (rebuild_def_sites prog) = sp_insns prog" "sp_entry (rebuild_def_sites prog) = sp_entry prog"
  "block_range (rebuild_def_sites prog) = block_range prog" "live_block (rebuild_def_sites prog) = live_block prog"
  "block_body (rebuild_def_sites prog) = block_body prog" "terminator (rebuild_def_sites prog) = terminator prog"
  "live_successors adj (rebuild_def_sites prog) = live_successors adj prog"
  "live_blocks (rebuild_def_sites prog) = live_blocks prog" "live_range (rebuild_def_sites prog) = live_range prog"
proof -
  show s: "sp_blocks (rebuild_def_sites prog) = sp_blocks prog" "sp_edges (rebuild_def_sites prog) = sp_edges prog"
    "sp_insns (rebuild_def_sites prog) = sp_insns prog" "sp_entry (rebuild_def_sites prog) = sp_entry prog"
    by (simp_all add: rebuild_def_sites_def)
  show r: "block_range (rebuild_def_sites prog) = block_range prog" and l: "live_block (rebuild_def_sites prog) = live_block prog"
    by (simp_all add: fun_eq_iff block_range_def live_block_def s)
  show b: "block_body (rebuild_def_sites prog) = block_body prog" by (simp add: fun_eq_iff block_body_def s r)
  show t: "terminator (rebuild_def_sites prog) = terminator prog" by (simp add: fun_eq_iff terminator_def b)
  show "live_successors adj (rebuild_def_sites prog) = live_successors adj prog"
    by (simp add: fun_eq_iff live_successors_def s t)
  show v: "live_blocks (rebuild_def_sites prog) = live_blocks prog" by (simp add: live_blocks_def s l)
  show "live_range (rebuild_def_sites prog) = live_range prog" by (simp add: live_range_def v r)
qed

lemma rebuild_length [simp]: "length (sp_def_sites (rebuild_def_sites prog)) = length (sp_def_sites prog)"
proof -
  have "length (fold (record_def is) ps sites) = length sites" for "is" ps sites
    by (induction ps arbitrary: sites) (auto simp: record_def_def split: option.split)
  then show ?thesis by (simp add: rebuild_def_sites_def)
qed

lemma rebuild_defs_ok:
  assumes "distinct (live_range prog)" "distinct (live_defs prog)" "\<forall>d \<in> set (live_defs prog). d < length (sp_def_sites prog)"
  shows "defs_ok (rebuild_def_sites prog)"
proof -
  have "\<forall>x \<in> set (live_range prog). \<forall>d. def_dst (sp_insns prog ! x) = Some d \<longrightarrow> sp_def_sites (rebuild_def_sites prog) ! d = Some x"
    using record_defs [of "live_range prog" "sp_insns prog" "replicate (length (sp_def_sites prog)) None"] assms
    by (simp add: live_defs_eq [symmetric] rebuild_def_sites_def)
  moreover have "d < length (sp_def_sites prog)" if "x \<in> set (live_range prog)" "def_dst (sp_insns prog ! x) = Some d" for x d
    using assms(3) that by (auto simp: live_defs_eq set_map_filter)
  ultimately show ?thesis by (auto simp: defs_ok_def list_all_iff def_recorded_def split: option.split)
qed

text \<open>The live instructions of a later program, named by their places in an earlier one.\<close>

lemma sub_defs_ok:
  assumes "ssa_ok adj prog" "layout_ok p" "length (sp_def_sites p) = length (sp_def_sites prog)"
    and "live_defs p = List.map_filter (\<lambda>x. def_dst (sp_insns prog ! x)) xs" "distinct xs" "set xs \<subseteq> set (live_range prog)"
  shows "defs_ok (rebuild_def_sites p)"
proof (rule rebuild_defs_ok)
  have "distinct (concat (map (block_range p) [0..<length (sp_blocks p)]))"
    using assms(2) by (simp only: layout_ok_def distinct_upt)
  then show "distinct (live_range p)" unfolding live_range_def live_blocks_def by (rule distinct_concat_filter)
  show "distinct (live_defs p)" unfolding assms(4) by (rule distinct_defs [OF assms(1,5,6)])
  show "\<forall>d \<in> set (live_defs p). d < length (sp_def_sites p)"
    using def_site [OF assms(1)] assms(6) unfolding assms(3,4) by (auto simp: set_map_filter)
qed


section \<open>Unmarked instructions are unobserved\<close>

text \<open>The constants that \<open>const_value\<close> reads, as a table.\<close>

definition const_table_of :: "ssa_program \<Rightarrow> const_table" where
  "const_table_of prog = map (\<lambda>v. const_value prog (SVal v)) [0..<length (sp_def_sites prog)]"

lemma const_table_ok: "ssa_ok adj prog \<Longrightarrow> table_ok (const_table_of prog) prog"
  using def_site by (auto simp: table_ok_def list_all_iff table_insn_def const_table_of_def const_value_def def_of_def
      live_range_bound split: option.splits ssa_insn.splits)

lemma const_value_val:
  assumes "table_env (const_table_of prog) e" "const_value prog operand = Some k"
  shows "operand_val e operand = None \<or> operand_val e operand = Some k"
proof (cases operand)
  case (SVal v)
  then have "v < length (sp_def_sites prog)" using assms(2) by (auto simp: const_value_def def_of_def split: if_splits)
  then show ?thesis using assms SVal by (simp add: table_env_def const_table_of_def)
qed (use assms(2) in \<open>simp add: const_value_def\<close>)

lemma alu_apply_some: "\<not> (is_end op \<and> \<not> end_width r) \<Longrightarrow> alu_apply op l r w \<noteq> None"
  by (auto simp: alu_apply_None is_end_def end_width_def valid_end_width_def)

text \<open>An instruction that is no root only defines its value.\<close>

lemma unmarked_pure:
  assumes e: "table_env (const_table_of prog) e" and i: "\<not> is_root prog i"
  shows "eval_insn fx i e w = Halt Stuck \<or> eval_insn fx i e w = Cont e w
    \<or> (\<exists>d x. def_dst i = Some d \<and> eval_insn fx i e w = Cont (assign [(d, x)] e) w)"
proof (cases i)
  case (SBinOp d wd op lhs rhs)
  have "eval_binop e wd op lhs rhs \<noteq> Some None"
  proof
    assume N: "eval_binop e wd op lhs rhs = Some None"
    then obtain l r where r: "is_end op \<and> \<not> end_width r" "operand_val e rhs = Some r"
      by (cases op) (auto simp: eval_binop_def is_end_def bind_eq_Some_conv alu_apply_some split: if_splits)
    from i SBinOp r(1) obtain k where "const_value prog rhs = Some k" "end_width k"
      by (auto simp: is_root_def split: option.splits)
    then show False using const_value_val [OF e, of rhs k] r by simp
  qed
  then show ?thesis using SBinOp by (cases "eval_binop e wd op lhs rhs") (auto simp: define_value_def split: option.split)
qed (use i in \<open>auto simp: is_root_def define_value_def split: option.split\<close>)

text \<open>The values that a marked instruction reads.\<close>

definition needed :: "ssa_program \<Rightarrow> bool list \<Rightarrow> ssa_value set" where
  "needed prog marked = {v. \<exists>a \<in> set (live_range prog). marked ! a \<and> v \<in> set (insn_uses (sp_insns prog ! a))}"

lemma unneeded:
  assumes ok: "ssa_ok adj prog" and m: "marks_closed prog marked"
    and x: "x \<in> set (live_range prog)" "\<not> marked ! x" "def_dst (sp_insns prog ! x) = Some d"
  shows "d \<notin> needed prog marked"
proof
  assume "d \<in> needed prog marked"
  then obtain a where a: "a \<in> set (live_range prog)" "marked ! a" "d \<in> set (insn_uses (sp_insns prog ! a))" by (auto simp: needed_def)
  have "def_index prog d = Some x" using def_site [OF ok x(1,3)] live_range_bound [OF ok x(1)] by (simp add: def_index_def)
  then have "marked ! x" using m a live_range_bound [OF ok a(1)] by (auto simp: marks_closed_def)
  then show False using x(2) by simp
qed

lemma unmarked_root: "marks_closed prog marked \<Longrightarrow> x \<in> set (live_range prog) \<Longrightarrow> \<not> marked ! x \<Longrightarrow> \<not> is_root prog (sp_insns prog ! x)"
  by (auto simp: marks_closed_def root_indices_def)

lemma control_root: "is_control i \<Longrightarrow> is_root prog i"
  by (cases i) (auto simp: is_control_def is_root_def)

definition keep_marked :: "ssa_program \<Rightarrow> bool list \<Rightarrow> nat \<Rightarrow> ssa_insn list" where
  "keep_marked prog marked x = (if marked ! x then [sp_insns prog ! x] else [])"

lemma block_kept_concat: "live_block prog b \<Longrightarrow> block_kept prog marked b = concat (map (keep_marked prog marked) (block_range prog b))"
proof -
  have "map ((!) (sp_insns prog)) (filter ((!) marked) xs) = concat (map (keep_marked prog marked) xs)" for xs
    by (induction xs) (auto simp: keep_marked_def)
  then show "live_block prog b \<Longrightarrow> ?thesis" by (simp add: block_kept_def)
qed

lemma sweep_terminator:
  assumes m: "marks_closed prog marked" and b: "b < length (sp_blocks prog)" "live_block prog b"
  shows "terminator (sweep prog marked) b = terminator prog b"
proof -
  have "find is_control (concat (map (keep_marked prog marked) xs)) = find is_control (map ((!) (sp_insns prog)) xs)"
    if "set xs \<subseteq> set (block_range prog b)" for xs
    using that
  proof (induction xs)
    case (Cons x xs)
    then have "\<not> marked ! x \<Longrightarrow> \<not> is_control (sp_insns prog ! x)"
      using unmarked_root [OF m] control_root live_rangeI [OF b] by auto
    then show ?case using Cons by (auto simp: keep_marked_def)
  qed simp
  then show ?thesis unfolding terminator_def sweep_block(3) [OF b(1)] block_kept_concat [OF b(2)] by (simp add: block_body_def)
qed

lemma sweep_successors:
  "marks_closed prog marked \<Longrightarrow> b < length (sp_blocks prog) \<Longrightarrow> live_block prog b \<Longrightarrow>
    live_successors adj (sweep prog marked) b = live_successors adj prog b"
  by (simp add: live_successors_def sweep_terminator)

lemma sweep_sim:
  assumes ok: "ssa_ok adj prog" and m: "marks_closed prog marked"
    and p: "sp_blocks p = sp_blocks (sweep prog marked)" "sp_insns p = sp_insns (sweep prog marked)"
      "sp_edges p = sp_edges prog" "sp_entry p = sp_entry prog"
  shows "simulates adj prog p TYPE('w)"
  unfolding simulates_def
proof (intro allI impI)
  fix fx :: "'w effects" and n w assume run: "run_ssa fx adj prog n w \<noteq> Some Stuck"
  let ?N = "needed prog marked" and ?T = "table_env (const_table_of prog)"
  have body: "block_body p b = block_body (sweep prog marked) b" for b by (simp add: block_body_def block_range_def p)
  have live: "live_block p b = live_block (sweep prog marked) b" for b by (simp add: live_block_def p)
  have succs: "live_successors adj p b = live_successors adj (sweep prog marked) b" for b
    by (simp add: live_successors_def terminator_def body p)
  have entry: "sp_entry prog < length (sp_blocks prog)" using ok by (simp add: ssa_ok_def edges_ok_def)
  note in_range = visits_range [of adj prog]
  note T = const_table_ok [OF ok]
  show "run_ssa fx adj p n w = run_ssa fx adj prog n w"
  proof (cases "live_block prog (sp_entry prog)")
    case False
    then show ?thesis using run by (cases n) (simp_all add: run_ssa_def)
  next
    case True
    have env: "env_le ?N (entry_env fx prog) (entry_env fx p)"
    proof -
      have "map_of (concat (map (pseudo_def fx) (concat (map (keep_marked prog marked) xs)))) v
          = map_of (concat (map (pseudo_def fx) (map ((!) (sp_insns prog)) xs))) v"
        if "v \<in> ?N" "set xs \<subseteq> set (block_range prog (sp_entry prog))" for v xs
        using that(2)
      proof (induction xs)
        case (Cons x xs)
        have "x \<in> set (live_range prog)" using Cons.prems live_rangeI [OF entry True] by simp
        then have "\<not> marked ! x \<Longrightarrow> v \<notin> fst ` set (pseudo_def fx (sp_insns prog ! x))"
          using unneeded [OF ok m] pseudo_def_dst that(1) by fastforce
        then have "\<not> marked ! x \<Longrightarrow> map_of (pseudo_def fx (sp_insns prog ! x)) v = None" by (simp add: map_of_eq_None_iff)
        then show ?case using Cons by (auto simp: keep_marked_def map_add_def split: option.split)
      qed simp
      from this [OF _ order_refl] show ?thesis
        unfolding env_le_def entry_env_def p(4) body sweep_block(3) [OF entry] block_kept_concat [OF True]
        by (simp add: block_body_def del: map_map)
    qed
    have "run_blocks fx adj p n start_pred (sp_entry prog) (entry_env fx p) w
        = run_blocks fx adj prog n start_pred (sp_entry prog) (entry_env fx prog) w"
    proof (rule pass_sim [where g = "keep_marked prog marked" and P = "\<lambda>b x. ?T" and PE = "\<lambda>b. ?T" and N = ?N, OF ok])
      fix b x e e' w assume b: "visits adj prog b" "x \<in> set (block_range prog b)" and e: "?T e" "env_le ?N e e'"
      note x = in_range [OF b]
      show "flow_le ?N (eval_insn fx (sp_insns prog ! x) e w) (eval_body fx (keep_marked prog marked x) e' w)"
      proof (cases "marked ! x")
        case True
        then have "set (insn_uses (sp_insns prog ! x)) \<subseteq> ?N" using x by (auto simp: needed_def)
        then show ?thesis using eval_insn_le [OF e(2)] True by (simp add: keep_marked_def eval_body_single del: eval_body.simps)
      next
        case False
        have "env_le ?N (assign [(d, y)] e) e'" if "def_dst (sp_insns prog ! x) = Some d" for d y
          using e(2) unneeded [OF ok m x False that] by (auto simp: env_le_def assign_def split: if_splits)
        then show ?thesis using unmarked_pure [OF e(1) unmarked_root [OF m x False], of fx w] False e(2)
          by (auto simp: keep_marked_def)
      qed
    next
      fix b x e w e1 w1 assume b: "visits adj prog b" "x \<in> set (block_range prog b)"
        and e: "?T e" "eval_insn fx (sp_insns prog ! x) e w = Cont e1 w1"
      have "table_insn (const_table_of prog) (sp_insns prog ! x)"
        using T in_range [OF b] by (simp add: table_ok_def list_all_iff)
      then show "?T e1" using e by (rule eval_insn_table)
    next
      fix b x pred e e' ds assume b: "visits adj prog b" "x \<in> set (block_range prog b)" and e: "env_le ?N e e'"
        and ds: "those (phi_def pred e (sp_insns prog ! x)) = Some ds"
      note x = in_range [OF b]
      show "\<exists>ds'. those (concat (map (phi_def pred e') (keep_marked prog marked x))) = Some ds' \<and> (ds' = ds \<or> ds' = [] \<and> fst ` set ds \<inter> ?N = {})"
      proof (cases "marked ! x")
        case True
        have "those (phi_def pred e' (sp_insns prog ! x)) = Some ds"
        proof (cases "sp_insns prog ! x")
          case (SPhi dst inputs)
          then obtain v y where v: "map_of inputs pred = Some v" "e v = Some y" "ds = [(dst, y)]"
            using ds by (auto simp: phi_def_def bind_eq_Some_conv split: option.splits)
          have "v \<in> snd ` set inputs" using v(1) by (force dest: map_of_SomeD)
          then have "v \<in> ?N" using SPhi x True unfolding needed_def by (intro CollectI bexI [of _ x]) simp_all
          then show ?thesis using v SPhi env_leD [OF e] by (simp add: phi_def_def)
        qed (use ds in \<open>simp_all add: phi_def_def\<close>)
        then show ?thesis using True by (simp add: keep_marked_def)
      next
        case False
        have "fst ` set ds \<inter> ?N = {}"
          using ds unneeded [OF ok m x False] by (cases "sp_insns prog ! x") (auto simp: phi_def_def bind_eq_Some_conv split: option.splits)
        then show ?thesis using False by (simp add: keep_marked_def)
      qed
    next
      fix b pred e defs assume "visits adj prog b" "?T e" "phi_defs pred e (block_body prog b) = Some defs"
      then show "?T (assign defs e)" using phi_defs_table [OF T] by (auto simp: visits_def live_blocks_def)
    next
      show "run_blocks fx adj prog n start_pred (sp_entry prog) (entry_env fx prog) w \<noteq> Some Stuck"
        using run by (simp add: run_ssa_def)
    qed (use env entry_env_table [OF ok T True] in
        \<open>simp_all add: p visits_def body live succs sweep_block block_kept_concat sweep_successors [OF m] came_from_def is_start_pred_def\<close>)
    then show ?thesis by (simp add: run_ssa_def p)
  qed
qed


section \<open>The pass\<close>

lemma table_ok_insns: "table_ok t prog \<longleftrightarrow> list_all (table_insn t) (live_insns prog)"
  by (simp add: table_ok_def live_insns_def list.pred_map comp_def)

text \<open>Every index lies in a block, so an unmarked one is counted as removed.\<close>

lemma sum_list_length: "sum_list (map (\<lambda>b. length (f b)) bs) = length (concat (map f bs))"
  by (induction bs) auto

lemma removed_len_eq:
  assumes "ssa_ok adj prog"
  shows "removed_len prog marked + length (sp_insns (sweep prog marked)) = length (sp_insns prog)"
proof -
  let ?bs = "[0..<length (sp_blocks prog)]"
  have kept: "length (block_kept prog marked b) \<le> length (block_range prog b)" for b
    by (simp add: block_kept_def)
  have "sum_list (map (\<lambda>b. length (block_range prog b) - length (block_kept prog marked b)) bs)
      + sum_list (map (\<lambda>b. length (block_kept prog marked b)) bs) = sum_list (map (\<lambda>b. length (block_range prog b)) bs)" for bs
  proof (induction bs)
    case (Cons b bs)
    then show ?case using kept [of b] by simp
  qed simp
  moreover have "length (concat (map (block_range prog) ?bs)) = length (sp_insns prog)"
    using assms by (simp only: ssa_ok_def layout_ok_def) simp
  ultimately show ?thesis by (simp add: removed_len_def sweep_def Let_def sum_list_length [symmetric])
qed

lemma removed_none:
  assumes ok: "ssa_ok adj prog" and m: "marks_closed prog marked" and none: "removed_len prog marked = 0"
  shows "dead_len prog = 0 \<and> list_all id marked"
proof -
  have all: "length (block_range prog b) \<le> length (block_kept prog marked b)" if "b < length (sp_blocks prog)" for b
    using none that by (simp add: removed_len_def)
  have dead: "block_range prog b = []" if "b < length (sp_blocks prog)" "\<not> live_block prog b" for b
    using all [OF that(1)] that(2) by (simp add: block_kept_def)
  have "marked ! x" if x: "x < length (sp_insns prog)" for x
  proof -
    have "x \<in> set (concat (map (block_range prog) [0..<length (sp_blocks prog)]))"
      using ok x by (simp only: ssa_ok_def layout_ok_def) simp
    then obtain b where b: "b < length (sp_blocks prog)" "x \<in> set (block_range prog b)" by auto
    then have "live_block prog b" using dead by force
    with all [OF b(1)] have "length (filter ((!) marked) (block_range prog b)) \<ge> length (block_range prog b)"
      by (simp add: block_kept_def)
    then have "filter ((!) marked) (block_range prog b) = block_range prog b"
      by (metis filter_id_conv length_filter_less linorder_not_le)
    then show ?thesis using b(2) by (metis filter_id_conv)
  qed
  then have "list_all id marked" using m by (simp add: list_all_length marks_closed_def)
  moreover have "dead_len prog = 0" using dead by (auto simp: dead_len_def)
  ultimately show ?thesis by simp
qed

lemma sweep_ok:
  assumes ok: "ssa_ok adj prog" and m: "marks_closed prog marked"
  shows "ssa_ok adj (rebuild_def_sites (sweep prog marked))"
proof -
  let ?s = "sweep prog marked"
  have "live_defs ?s = List.map_filter (\<lambda>x. def_dst (sp_insns prog ! x)) (filter ((!) marked) (live_range prog))"
    by (simp add: live_defs_def sweep_live_insns List.map_filter_def filter_map comp_def)
  then have "defs_ok (rebuild_def_sites ?s)"
    by (intro sub_defs_ok [OF ok sweep_layout]) (auto simp: live_range_distinct [OF ok])
  moreover have "targets_at adj (rebuild_def_sites ?s) b" if b: "b \<in> set (live_blocks prog)" for b
  proof -
    have "targets_at adj prog b" using ok b by (simp add: ssa_ok_def list_all_iff)
    then show ?thesis using b by (simp add: targets_at_def live_blocks_def sweep_terminator [OF m] sweep_successors [OF m]
        split: option.splits)
  qed
  ultimately show ?thesis using ok sweep_layout [of prog marked]
    by (simp add: ssa_ok_def layout_ok_def edges_ok_def list_all_iff sweep_live_blocks)
qed

lemma sweep_table: "table_ok t prog \<Longrightarrow> table_ok t (rebuild_def_sites (sweep prog marked))"
proof -
  have "live_insns (rebuild_def_sites p) = live_insns p" for p by (simp add: live_insns_def)
  moreover have "set (live_insns (sweep prog marked)) \<subseteq> set (live_insns prog)"
    unfolding sweep_live_insns by (auto simp: live_insns_def)
  ultimately show "table_ok t prog \<Longrightarrow> ?thesis" by (auto simp: table_ok_insns list_all_iff)
qed

lemma dce_result:
  assumes ok: "ssa_ok adj prog" and t: "table_ok t prog"
  shows "\<exists>prog' c. dead_code_eliminate prog = Some (prog', c) \<and> fold_result adj TYPE('w) prog prog' t
    \<and> (if c then length (sp_insns prog') < length (sp_insns prog)
          \<and> (\<exists>marked. marks_closed prog marked \<and> prog' = rebuild_def_sites (sweep prog marked))
       else prog' = prog)"
proof -
  obtain marked where m: "mark_roots prog = Some marked" "marks_closed prog marked" using mark_roots_result [OF ok] by blast
  show ?thesis
  proof (cases "removed_len prog marked = 0")
    case True
    then have "dead_code_eliminate prog = Some (prog, False)"
      using removed_none [OF ok m(2)] m(1) by (simp add: dead_code_eliminate_def)
    then show ?thesis using ok t by (intro exI [of _ prog] exI [of _ False]) (simp add: fold_result_def simulates_def)
  next
    case False
    let ?p = "rebuild_def_sites (sweep prog marked)"
    have len: "length marked = length (sp_insns prog)" using m(2) unfolding marks_closed_def by blast
    have "\<not> (dead_len prog = 0 \<and> list_all id marked)"
    proof
      assume A: "dead_len prog = 0 \<and> list_all id marked"
      have "block_kept prog marked b = block_body prog b" if b: "b < length (sp_blocks prog)" for b
      proof (cases "live_block prog b")
        case True
        have "marked ! x" if x: "x \<in> set (block_range prog b)" for x
          using A live_range_bound [OF ok live_rangeI [OF b True x]] len unfolding list_all_length id_apply by simp
        then have "filter ((!) marked) (block_range prog b) = block_range prog b" by (simp add: filter_id_conv)
        then show ?thesis using True by (simp add: block_kept_def block_body_def)
      next
        case False
        then have "block_range prog b = []" using A b by (simp add: dead_len_def)
        then show ?thesis using False by (simp add: block_kept_def block_body_def)
      qed
      then show False using False by (simp add: removed_len_def block_body_def)
    qed
    then have "dead_code_eliminate prog = Some (?p, True)"
      using False m(1) by (auto simp: dead_code_eliminate_def)
    moreover have "length (sp_insns ?p) < length (sp_insns prog)"
      using removed_len_eq [OF ok, of marked] False by simp
    moreover have "simulates adj prog ?p TYPE('w)" by (rule sweep_sim [OF ok m(2)]) simp_all
    moreover have "fold_result adj TYPE('w) prog ?p t"
      unfolding fold_result_def using calculation(3) sweep_ok [OF ok m(2)] sweep_table [OF t] by blast
    ultimately show ?thesis using m(2)
      by (intro exI [of _ ?p] exI [of _ True]) (simp only: if_True, blast)
  qed
qed

end
