(* ===== verification/SsaReach.thy ===== *)
theory SsaReach
  imports SsaDce
begin

text \<open>
  Unreachable-block elimination: the walk marks exactly the blocks that the live successors reach,
  no run visits another block, and pruning the inputs of dead predecessors keeps every phi.
\<close>

section \<open>Reachable blocks\<close>

lemma successors_in_range:
  assumes "adj_sound adj" "edges_ok prog" "t \<in> set (live_successors adj prog b)"
  shows "t < length (sp_blocks prog)"
proof -
  obtain source kind where "(source, t, kind) \<in> set (adj (sp_edges prog) b)" using assms(3) by (auto simp: live_successors_def)
  then have "(source, t, kind) \<in> set (sp_edges prog)" using assms(1) by (auto simp: adj_sound_def)
  then show ?thesis using assms(2) by (auto simp: edges_ok_def list_all_iff)
qed

lemma reachable_result:
  assumes "adj_sound adj" "ssa_ok adj prog"
  shows "\<exists>r. reachable_from (live_successors adj prog) (length (sp_blocks prog)) (sp_entry prog) = Some r
    \<and> (\<forall>b < length (sp_blocks prog). r ! b \<longleftrightarrow> reach adj prog b)"
proof -
  have e: "edges_ok prog" using assms(2) by (simp add: ssa_ok_def)
  then have entry: "sp_entry prog < length (sp_blocks prog)" by (simp add: edges_ok_def)
  have "\<forall>a < length (sp_blocks prog). \<forall>b \<in> set (live_successors adj prog a). b < length (sp_blocks prog)"
    using successors_in_range [OF assms(1) e] by blast
  from reachable_from_result [OF this entry] show ?thesis unfolding reach_def by blast
qed

lemma reach_in_range:
  assumes "adj_sound adj" "ssa_ok adj prog" "reach adj prog b"
  shows "b < length (sp_blocks prog)"
  using assms(3) unfolding reach_def
proof (induction rule: rtrancl_induct)
  case base
  then show ?case using assms(2) by (simp add: ssa_ok_def edges_ok_def)
next
  case (step y z)
  then show ?case using successors_in_range assms by (auto simp: succ_rel_def ssa_ok_def)
qed


section \<open>Pruning\<close>

lemma fold_prune:
  assumes "distinct ps" "\<forall>x \<in> set ps. x < length insns"
  shows "fold (prune_at p) ps (insns, c) =
    (map (\<lambda>x. if x \<in> set ps then prune_phi p (insns ! x) else insns ! x) [0..<length insns],
     c \<or> (\<exists>x \<in> set ps. prune_phi p (insns ! x) \<noteq> insns ! x))"
  using assms
proof (induction ps arbitrary: insns c)
  case Nil
  then show ?case by (simp add: map_nth)
next
  case (Cons y ps)
  let ?is = "insns[y := prune_phi p (insns ! y)]"
  have "fold (prune_at p) (y # ps) (insns, c) = fold (prune_at p) ps (?is, c \<or> prune_phi p (insns ! y) \<noteq> insns ! y)"
    by (simp add: prune_at_def)
  also have "\<dots> = (map (\<lambda>x. if x \<in> set ps then prune_phi p (?is ! x) else ?is ! x) [0..<length ?is],
      (c \<or> prune_phi p (insns ! y) \<noteq> insns ! y) \<or> (\<exists>x \<in> set ps. prune_phi p (?is ! x) \<noteq> ?is ! x))"
    by (rule Cons.IH) (use Cons.prems in auto)
  also have "map (\<lambda>x. if x \<in> set ps then prune_phi p (?is ! x) else ?is ! x) [0..<length ?is]
      = map (\<lambda>x. if x \<in> set (y # ps) then prune_phi p (insns ! x) else insns ! x) [0..<length insns]"
    using Cons.prems by (auto simp: nth_list_update)
  also have "(\<exists>x \<in> set ps. prune_phi p (?is ! x) \<noteq> ?is ! x) = (\<exists>x \<in> set ps. prune_phi p (insns ! x) \<noteq> insns ! x)"
    by (rule bex_cong [OF refl]) (use Cons.prems(1) in \<open>metis distinct.simps(2) nth_list_update_neq\<close>)
  finally show ?case by auto
qed

lemma prune_phi_cases:
  "def_dst (prune_phi p i) = def_dst i" "is_control (prune_phi p i) = is_control i" "same_control i (prune_phi p i)"
  "pseudo_def fx (prune_phi p i) = pseudo_def fx i" "\<not> is_control i \<Longrightarrow> eval_insn fx (prune_phi p i) e w = eval_insn fx i e w"
  "is_control i \<Longrightarrow> prune_phi p i = i"
  by (cases i; simp add: prune_phi_def is_control_def same_control_def dead_taken_def pseudo_def_def)+

definition prune_all :: "ssa_program \<Rightarrow> ssa_program" where
  "prune_all p = p\<lparr>sp_insns := map (\<lambda>x. if x \<in> set (live_range p) then prune_phi p (sp_insns p ! x) else sp_insns p ! x)
     [0..<length (sp_insns p)]\<rparr>"

lemma kill_blocks_nth: "b < length (sp_blocks prog) \<Longrightarrow>
    sp_blocks (kill_blocks prog r) ! b = (sp_blocks prog ! b)\<lparr>sb_live := live_block prog b \<and> r ! b\<rparr>"
  by (simp add: kill_blocks_def live_block_def nth_enumerate_eq split: prod.split)

lemma kill_simps [simp]:
  "length (sp_blocks (kill_blocks prog r)) = length (sp_blocks prog)" "sp_edges (kill_blocks prog r) = sp_edges prog"
  "sp_insns (kill_blocks prog r) = sp_insns prog" "sp_entry (kill_blocks prog r) = sp_entry prog"
  "sp_def_sites (kill_blocks prog r) = sp_def_sites prog"
  by (simp_all add: kill_blocks_def)

lemma prune_simps [simp]:
  "sp_blocks (prune_all p) = sp_blocks p" "sp_edges (prune_all p) = sp_edges p" "sp_entry (prune_all p) = sp_entry p"
  "sp_def_sites (prune_all p) = sp_def_sites p" "length (sp_insns (prune_all p)) = length (sp_insns p)"
  "block_range (prune_all p) = block_range p" "live_block (prune_all p) = live_block p"
  "live_blocks (prune_all p) = live_blocks p" "live_range (prune_all p) = live_range p"
  by (simp_all add: prune_all_def)

lemma kill_block:
  assumes "b < length (sp_blocks prog)"
  shows "live_block (kill_blocks prog r) b \<longleftrightarrow> live_block prog b \<and> r ! b" "block_range (kill_blocks prog r) b = block_range prog b"
    "block_body (kill_blocks prog r) b = block_body prog b" "terminator (kill_blocks prog r) b = terminator prog b"
    "live_successors adj (kill_blocks prog r) b = live_successors adj prog b"
proof -
  show "live_block (kill_blocks prog r) b \<longleftrightarrow> live_block prog b \<and> r ! b"
    and range: "block_range (kill_blocks prog r) b = block_range prog b"
    by (simp_all add: live_block_def block_range_def kill_blocks_nth assms)
  show body: "block_body (kill_blocks prog r) b = block_body prog b" by (simp add: block_body_def range)
  show same_end: "terminator (kill_blocks prog r) b = terminator prog b" by (simp add: terminator_def body)
  show "live_successors adj (kill_blocks prog r) b = live_successors adj prog b" by (simp add: live_successors_def same_end)
qed

lemma kill_live_blocks: "live_blocks (kill_blocks prog r) = filter ((!) r) (live_blocks prog)"
  by (auto simp: live_blocks_def kill_block(1) intro!: filter_cong)

lemma kill_live_range: "live_range (kill_blocks prog r) = concat (map (block_range prog) (filter ((!) r) (live_blocks prog)))"
proof -
  have "concat (map (block_range (kill_blocks prog r)) (filter ((!) r) (live_blocks prog))) = concat (map (block_range prog) (filter ((!) r) (live_blocks prog)))"
    by (rule arg_cong [where f = concat], rule map_cong [OF refl]) (auto simp: live_blocks_def kill_block(2))
  then show ?thesis unfolding live_range_def kill_live_blocks .
qed

lemma kill_range_subset: "set (live_range (kill_blocks prog r)) \<subseteq> set (live_range prog)"
  unfolding kill_live_range by (auto simp: live_range_def)

lemma prune_nth:
  assumes "ssa_ok adj prog" "x \<in> set (live_range prog)"
  shows "sp_insns (prune_all (kill_blocks prog r)) ! x =
    (if x \<in> set (live_range (kill_blocks prog r)) then prune_phi (kill_blocks prog r) (sp_insns prog ! x) else sp_insns prog ! x)"
  using live_range_bound [OF assms] by (simp add: prune_all_def)

lemma prune_same: "ssa_ok adj prog \<Longrightarrow> x \<in> set (live_range prog) \<Longrightarrow> same_control (sp_insns prog ! x) (sp_insns (prune_all (kill_blocks prog r)) ! x)
    \<and> def_dst (sp_insns (prune_all (kill_blocks prog r)) ! x) = def_dst (sp_insns prog ! x)"
  by (simp add: prune_nth prune_phi_cases)

lemma prune_terminator:
  assumes "ssa_ok adj prog" "b < length (sp_blocks prog)" "live_block prog b"
  shows "rel_option same_control (terminator prog b) (terminator (prune_all (kill_blocks prog r)) b)"
    and "live_successors adj (prune_all (kill_blocks prog r)) b = live_successors adj prog b"
proof -
  have body: "block_body (prune_all (kill_blocks prog r)) b = map ((!) (sp_insns (prune_all (kill_blocks prog r)))) (block_range prog b)"
    by (simp add: block_body_def kill_block assms(2))
  show t: "rel_option same_control (terminator prog b) (terminator (prune_all (kill_blocks prog r)) b)"
    unfolding terminator_def body unfolding block_body_def using prune_same [OF assms(1) live_rangeI [OF assms(2,3)]] by (intro find_control) blast
  show "live_successors adj (prune_all (kill_blocks prog r)) b = live_successors adj prog b"
    using dead_taken_rel [OF t] by (simp add: live_successors_def)
qed

lemma prune_ok:
  assumes ok: "ssa_ok adj prog"
  shows "ssa_ok adj (rebuild_def_sites (prune_all (kill_blocks prog r)))"
proof -
  let ?k = "kill_blocks prog r" let ?p = "prune_all ?k"
  have "concat (map (block_range ?k) [0..<length (sp_blocks prog)]) = concat (map (block_range prog) [0..<length (sp_blocks prog)])"
    by (rule arg_cong [where f = concat], rule map_cong [OF refl]) (simp add: kill_block(2))
  then have layout: "layout_ok ?p" using ok by (simp add: ssa_ok_def layout_ok_def)
  have "live_defs ?p = List.map_filter (\<lambda>x. def_dst (sp_insns prog ! x)) (live_range ?k)"
    unfolding live_defs_eq prune_simps List.map_filter_def
    using prune_same [OF ok kill_range_subset [THEN subsetD]] by (auto intro!: map_cong filter_cong)
  moreover have "distinct (live_range ?k)"
    unfolding kill_live_range by (rule distinct_concat_filter) (use live_range_distinct [OF ok] in \<open>simp add: live_range_def\<close>)
  ultimately have "defs_ok (rebuild_def_sites ?p)"
    by (intro sub_defs_ok [OF ok layout _ _ _ kill_range_subset]) simp_all
  moreover have "targets_at adj (rebuild_def_sites ?p) b" if b: "b \<in> set (live_blocks ?k)" for b
  proof -
    have b': "b < length (sp_blocks prog)" "live_block prog b" using b by (auto simp: live_blocks_def kill_block(1))
    have "targets_at adj prog b" using ok b' by (simp add: ssa_ok_def list_all_iff live_blocks_def)
    then show ?thesis using prune_terminator [OF ok b', of r]
      by (cases "terminator prog b"; cases "terminator ?p b") (simp_all add: targets_at_def same_control_def)
  qed
  ultimately show ?thesis using ok layout by (simp add: ssa_ok_def layout_ok_def edges_ok_def list_all_iff)
qed



section \<open>The pass\<close>

lemma map_of_filter_pred: "keep pred \<Longrightarrow> map_of (filter (\<lambda>(pred, v). keep pred) inputs) pred = map_of inputs pred"
  by (induction inputs) auto

lemma prune_phi_def_eq:
  "is_start_pred pred \<or> live_block p pred \<Longrightarrow> phi_def pred e (prune_phi p i) = phi_def pred e i"
  by (cases i) (simp_all add: phi_def_def prune_phi_def map_of_filter_pred [where keep = "\<lambda>pred. is_start_pred pred \<or> live_block p pred"])

lemma prune_sim:
  assumes ok: "ssa_ok adj prog" and r: "\<And>b. b < length (sp_blocks prog) \<Longrightarrow> r ! b \<longleftrightarrow> reach adj prog b"
    and p: "sp_blocks p = sp_blocks (prune_all (kill_blocks prog r))" "sp_insns p = sp_insns (prune_all (kill_blocks prog r))"
      "sp_edges p = sp_edges prog" "sp_entry p = sp_entry prog"
  shows "simulates adj prog p TYPE('w)"
  unfolding simulates_def
proof (intro allI impI)
  fix fx :: "'w effects" and n w assume run: "run_ssa fx adj prog n w \<noteq> Some Stuck"
  let ?k = "kill_blocks prog r" let ?q = "prune_all ?k" let ?g = "\<lambda>x. [sp_insns ?q ! x]"
  have body: "block_body p b = concat (map ?g (block_range prog b))" if "b < length (sp_blocks prog)" for b
    using kill_block(2) [OF that, of r] by (simp add: block_body_def block_range_def p)
  have live: "live_block p b = live_block ?k b" for b by (simp add: live_block_def p)
  have succs: "live_successors adj p b = live_successors adj ?q b" for b
    by (simp add: live_successors_def terminator_def block_body_def block_range_def p)
  have entry: "sp_entry prog < length (sp_blocks prog)" using ok by (simp add: ssa_ok_def edges_ok_def)
  have visit: "live_block ?k b \<and> x \<in> set (live_range ?k)" if "visits adj prog b" "x \<in> set (block_range prog b)" for b x
  proof -
    have b: "b < length (sp_blocks prog)" "live_block ?k b" using that(1) r by (auto simp: visits_def kill_block(1))
    then show ?thesis using that(2) kill_block(2) [OF b(1), of r] live_rangeI [of b ?k x] by simp
  qed
  have came: "is_start_pred pred \<or> live_block ?k pred" if "came_from adj prog pred b" for pred b
    using that r by (auto simp: came_from_def visits_def kill_block(1))
  note prune = prune_nth [OF ok visits_range]
  show "run_ssa fx adj p n w = run_ssa fx adj prog n w"
  proof (cases "live_block prog (sp_entry prog)")
    case False
    then show ?thesis using run by (cases n) (simp_all add: run_ssa_def)
  next
    case True
    have ev: "visits adj prog (sp_entry prog)" using True entry by (simp add: visits_def reach_def)
    have "map (pseudo_def fx) (block_body p (sp_entry prog)) = map (pseudo_def fx) (block_body prog (sp_entry prog))"
      unfolding body [OF entry] unfolding block_body_def using prune [OF ev, of _ r] by (auto simp: prune_phi_cases)
    then have env: "entry_env fx p = entry_env fx prog" by (simp add: entry_env_def p)
    have "run_blocks fx adj p n start_pred (sp_entry prog) (entry_env fx p) w
        = run_blocks fx adj prog n start_pred (sp_entry prog) (entry_env fx prog) w"
    proof (rule pass_sim [where g = ?g and P = "\<lambda>b x e. True" and PE = "\<lambda>b e. True" and N = UNIV, OF ok])
      fix b x e e' w assume b: "visits adj prog b" "x \<in> set (block_range prog b)" and e: "env_le UNIV e e'"
      have "eval_insn fx (sp_insns ?q ! x) e' w = eval_insn fx (sp_insns prog ! x) e' w"
        using prune [OF b] by (cases "is_control (sp_insns prog ! x)") (auto simp: prune_phi_cases)
      then show "flow_le UNIV (eval_insn fx (sp_insns prog ! x) e w) (eval_body fx [sp_insns ?q ! x] e' w)"
        unfolding eval_body_single using eval_insn_le [OF e] by simp
    next
      fix b x pred e e' ds
      assume b: "visits adj prog b" "x \<in> set (block_range prog b)" and pred: "came_from adj prog pred b"
        and e: "env_le UNIV e e'" and ds: "those (phi_def pred e (sp_insns prog ! x)) = Some ds"
      have "those (phi_def pred e' (sp_insns prog ! x)) = Some ds"
        using ds e by (auto simp: phi_def_def bind_eq_Some_conv env_le_def split: ssa_insn.splits option.splits)
      then show "\<exists>ds'. those (concat (map (phi_def pred e') [sp_insns ?q ! x])) = Some ds' \<and> (ds' = ds \<or> ds' = [] \<and> fst ` set ds \<inter> UNIV = {})"
        using prune [OF b, of r] visit [OF b] prune_phi_def_eq [OF came [OF pred]] by simp
    next
      fix b assume b: "visits adj prog b"
      then have "b < length (sp_blocks prog)" "live_block prog b" by (simp_all add: visits_def)
      then show "live_successors adj p b = live_successors adj prog b" using prune_terminator(2) [OF ok] succs by simp
      show "live_block p b" using b r by (simp add: live visits_def kill_block(1))
      show "block_body p b = concat (map ?g (block_range prog b))" using b by (simp add: body visits_def)
    next
      show "run_blocks fx adj prog n start_pred (sp_entry prog) (entry_env fx prog) w \<noteq> Some Stuck"
        using run by (simp add: run_ssa_def)
    qed (simp_all add: p came_from_def is_start_pred_def env)
    then show ?thesis by (simp add: run_ssa_def p)
  qed
qed

lemma prune_table:
  assumes ok: "ssa_ok adj prog" and t: "table_ok t prog"
  shows "table_ok t (rebuild_def_sites (prune_all (kill_blocks prog r)))"
proof -
  have "table_insn t (sp_insns (prune_all (kill_blocks prog r)) ! x)" if x: "x \<in> set (live_range (kill_blocks prog r))" for x
  proof -
    have "x \<in> set (live_range prog)" using x kill_range_subset by blast
    moreover from this have "table_insn t (sp_insns prog ! x)" using t by (simp add: table_ok_def list_all_iff)
    then have "table_insn t (prune_phi p (sp_insns prog ! x))" for p
      by (cases "sp_insns prog ! x") (auto simp: prune_phi_def table_insn_def split: option.splits if_splits)
    ultimately show ?thesis using x by (simp add: prune_nth [OF ok])
  qed
  then show ?thesis by (simp add: table_ok_def list_all_iff)
qed

lemma unreachable_result:
  assumes adj: "adj_sound adj" and ok: "ssa_ok adj prog" and t: "table_ok t prog"
  shows "\<exists>r c. (\<forall>b < length (sp_blocks prog). r ! b \<longleftrightarrow> reach adj prog b)
    \<and> unreachable_block_eliminate adj prog = Some (if c then rebuild_def_sites (prune_all (kill_blocks prog r)) else prog, c)
    \<and> fold_result adj TYPE('w) prog (if c then rebuild_def_sites (prune_all (kill_blocks prog r)) else prog) t
    \<and> (c \<longleftrightarrow> (\<exists>b \<in> set (live_blocks prog). \<not> r ! b)
         \<or> (\<exists>x \<in> set (live_range (kill_blocks prog r)). prune_phi (kill_blocks prog r) (sp_insns prog ! x) \<noteq> sp_insns prog ! x))"
proof -
  obtain r where r: "reachable_from (live_successors adj prog) (length (sp_blocks prog)) (sp_entry prog) = Some r"
    "\<And>b. b < length (sp_blocks prog) \<Longrightarrow> r ! b \<longleftrightarrow> reach adj prog b" using reachable_result [OF adj ok] by blast
  let ?k = "kill_blocks prog r" let ?q = "rebuild_def_sites (prune_all ?k)"
  let ?killed = "list_ex (\<lambda>b. live_block prog b \<and> \<not> r ! b) [0..<length (sp_blocks prog)]"
  let ?pruned = "\<exists>x \<in> set (live_range ?k). prune_phi ?k (sp_insns prog ! x) \<noteq> sp_insns prog ! x"
  have f: "fold (prune_at ?k) (live_range ?k) (sp_insns ?k, ?killed) = (sp_insns (prune_all ?k), ?killed \<or> ?pruned)"
  proof -
    have "distinct (live_range ?k)"
      unfolding kill_live_range by (rule distinct_concat_filter) (use live_range_distinct [OF ok] in \<open>simp add: live_range_def\<close>)
    moreover have "\<forall>x \<in> set (live_range ?k). x < length (sp_insns prog)" using live_range_bound [OF ok] kill_range_subset by blast
    ultimately show ?thesis by (simp add: fold_prune prune_all_def)
  qed
  have same: "prog\<lparr>sp_blocks := sp_blocks ?k, sp_insns := sp_insns (prune_all ?k)\<rparr> = prog" if "\<not> (?killed \<or> ?pruned)"
  proof -
    have "sp_blocks ?k = sp_blocks prog"
    proof (rule nth_equalityI)
      fix b assume "b < length (sp_blocks ?k)"
      then have b: "b < length (sp_blocks prog)" by simp
      then have "live_block prog b \<Longrightarrow> r ! b" using that by (auto simp: list_ex_iff)
      then have "(live_block prog b \<and> r ! b) = sb_live (sp_blocks prog ! b)" by (auto simp: live_block_def)
      then show "sp_blocks ?k ! b = sp_blocks prog ! b" using b by (simp add: kill_blocks_nth)
    qed simp
    moreover have "sp_insns (prune_all ?k) = sp_insns prog"
      by (rule nth_equalityI) (use that in \<open>auto simp: prune_all_def\<close>)
    ultimately show ?thesis by (cases prog) simp
  qed
  have eq: "?k\<lparr>sp_insns := sp_insns (prune_all ?k)\<rparr> = prog\<lparr>sp_blocks := sp_blocks ?k, sp_insns := sp_insns (prune_all ?k)\<rparr>"
    "prune_all ?k = ?k\<lparr>sp_insns := sp_insns (prune_all ?k)\<rparr>"
    by (simp_all add: kill_blocks_def prune_all_def)
  have "unreachable_block_eliminate adj prog = Some (if ?killed \<or> ?pruned then ?q else prog, ?killed \<or> ?pruned)"
  proof (cases "?killed \<or> ?pruned")
    case True
    then show ?thesis using eq(2) by (simp only: unreachable_block_eliminate_def r(1) f Let_def option.map prod.case if_True)
  next
    case False
    then show ?thesis using same [OF False] eq(1) by (simp only: unreachable_block_eliminate_def r(1) f Let_def option.map prod.case if_False)
  qed
  moreover have "fold_result adj TYPE('w) prog (if c then ?q else prog) t" for c
  proof (cases c)
    case True
    have "simulates adj prog ?q TYPE('w)" by (rule prune_sim [OF ok r(2)]) simp_all
    then show ?thesis using True prune_ok [OF ok] prune_table [OF ok t] by (simp add: fold_result_def)
  qed (use ok t in \<open>simp add: fold_result_def simulates_def\<close>)
  moreover have "?killed \<longleftrightarrow> (\<exists>b \<in> set (live_blocks prog). \<not> r ! b)" by (auto simp: list_ex_iff live_blocks_def)
  ultimately show ?thesis using r(2) by (intro exI [of _ r] exI [of _ "?killed \<or> ?pruned"]) simp
qed

end
