(* ===== verification/SsaDom.thy ===== *)
theory SsaDom
  imports SsaReach
begin

text \<open>
  Dominance and strict SSA: every use is dominated by its definition.  A strict program never reads
  an undefined value and never leaves its live blocks, so it never gets stuck.
\<close>

section \<open>Dominance\<close>

text \<open>Edges between blocks other than \<open>a\<close>; \<open>a\<close> dominates what they do not reach.\<close>

definition avoiding :: "adjacency \<Rightarrow> ssa_program \<Rightarrow> nat \<Rightarrow> (nat \<times> nat) set" where
  "avoiding adj prog a = {(x, y). y \<in> set (live_successors adj prog x) \<and> x \<noteq> a \<and> y \<noteq> a}"

definition block_dominates :: "adjacency \<Rightarrow> ssa_program \<Rightarrow> nat \<Rightarrow> nat \<Rightarrow> bool" where
  "block_dominates adj prog a b \<longleftrightarrow> a = b \<or> a = sp_entry prog \<or> (sp_entry prog, b) \<notin> (avoiding adj prog a)\<^sup>*"

lemma dominates_refl [simp]: "block_dominates adj prog a a"
  by (simp add: block_dominates_def)

lemma avoiding_reach: "(sp_entry prog, b) \<in> (avoiding adj prog a)\<^sup>* \<Longrightarrow> reach adj prog b"
  unfolding reach_def by (erule rtrancl_mono [THEN subsetD, rotated]) (auto simp: avoiding_def succ_rel_def)

lemma avoiding_not: "(sp_entry prog, b) \<in> (avoiding adj prog a)\<^sup>* \<Longrightarrow> a \<noteq> sp_entry prog \<Longrightarrow> b \<noteq> a"
  by (induction rule: rtrancl_induct) (auto simp: avoiding_def)

text \<open>A walk that avoids \<open>a\<close> avoids \<open>b\<close> too, or reaches \<open>b\<close> on the way.\<close>

lemma avoiding_split:
  assumes "(sp_entry prog, c) \<in> (avoiding adj prog a)\<^sup>*" "b \<noteq> sp_entry prog"
  shows "(sp_entry prog, b) \<in> (avoiding adj prog a)\<^sup>* \<or> (sp_entry prog, c) \<in> (avoiding adj prog b)\<^sup>*"
  using assms(1)
proof (induction rule: rtrancl_induct)
  case (step y z)
  show ?case
  proof (cases "(sp_entry prog, b) \<in> (avoiding adj prog a)\<^sup>*")
    case False
    then have y: "(sp_entry prog, y) \<in> (avoiding adj prog b)\<^sup>*" using step.IH by simp
    then have "y \<noteq> b" using avoiding_not assms(2) by blast
    moreover have "z \<noteq> b" using False step.hyps by (meson rtrancl.rtrancl_into_rtrancl)
    ultimately have "(y, z) \<in> avoiding adj prog b" using step.hyps(2) by (simp add: avoiding_def)
    then show ?thesis using y by (meson rtrancl.rtrancl_into_rtrancl)
  qed simp
qed simp

lemma dominates_trans:
  assumes "block_dominates adj prog a b" "block_dominates adj prog b c"
  shows "block_dominates adj prog a c"
proof (rule ccontr)
  assume N: "\<not> block_dominates adj prog a c"
  then have a: "a \<noteq> c" "a \<noteq> sp_entry prog" "(sp_entry prog, c) \<in> (avoiding adj prog a)\<^sup>*" by (simp_all add: block_dominates_def)
  then have nb: "(sp_entry prog, b) \<notin> (avoiding adj prog a)\<^sup>*" using assms(1) N assms(2) by (auto simp: block_dominates_def)
  then have "b \<noteq> sp_entry prog" by auto
  from avoiding_split [OF a(3) this] nb have "(sp_entry prog, c) \<in> (avoiding adj prog b)\<^sup>*" by simp
  then have "b = c" using assms(2) \<open>b \<noteq> sp_entry prog\<close> by (simp add: block_dominates_def)
  then show False using nb a(3) by simp
qed

lemma reach_first:
  assumes "reach adj prog c" "a \<noteq> sp_entry prog" "b \<noteq> sp_entry prog" "a \<noteq> b" "c = a \<or> c = b"
  shows "(sp_entry prog, a) \<in> (avoiding adj prog b)\<^sup>* \<or> (sp_entry prog, b) \<in> (avoiding adj prog a)\<^sup>*"
proof (rule ccontr)
  assume N: "\<not> ?thesis"
  have "(sp_entry prog, z) \<in> (avoiding adj prog a)\<^sup>* \<and> (sp_entry prog, z) \<in> (avoiding adj prog b)\<^sup>*"
    if "(sp_entry prog, z) \<in> (succ_rel (live_successors adj prog))\<^sup>*" for z
    using that
  proof (induction rule: rtrancl_induct)
    case (step y z)
    then have y: "(sp_entry prog, y) \<in> (avoiding adj prog a)\<^sup>*" "(sp_entry prog, y) \<in> (avoiding adj prog b)\<^sup>*" by simp_all
    have ny: "y \<noteq> a" "y \<noteq> b" using y avoiding_not assms(2,3) by blast+
    have "z \<in> set (live_successors adj prog y)" using step.hyps(2) by (simp add: succ_rel_def)
    moreover have "z \<noteq> a"
    proof
      assume "z = a"
      then have "(y, a) \<in> avoiding adj prog b" using ny calculation assms(4) by (simp add: avoiding_def)
      then show False using y(2) N by (meson rtrancl.rtrancl_into_rtrancl)
    qed
    moreover have "z \<noteq> b"
    proof
      assume "z = b"
      then have "(y, b) \<in> avoiding adj prog a" using ny calculation(1) assms(4) by (simp add: avoiding_def)
      then show False using y(1) N by (meson rtrancl.rtrancl_into_rtrancl)
    qed
    ultimately have "(y, z) \<in> avoiding adj prog a" "(y, z) \<in> avoiding adj prog b" using ny by (simp_all add: avoiding_def)
    then show ?case using y by (meson rtrancl.rtrancl_into_rtrancl)
  qed simp
  from this [of c] assms avoiding_not show False unfolding reach_def by blast
qed

lemma dominates_antisym:
  assumes "block_dominates adj prog a b" "block_dominates adj prog b a" "reach adj prog a"
  shows "a = b"
proof (rule ccontr)
  assume ab: "a \<noteq> b"
  have entry: "(sp_entry prog, sp_entry prog) \<in> r\<^sup>*" for r by simp
  have "a \<noteq> sp_entry prog" using assms(2) ab entry by (auto simp: block_dominates_def)
  moreover have "b \<noteq> sp_entry prog" using assms(1) ab entry by (auto simp: block_dominates_def)
  ultimately show False using reach_first [OF assms(3), of a b] ab assms(1,2) by (auto simp: block_dominates_def)
qed

text \<open>A block dominates the target of an edge only if it is the target or dominates the source.\<close>

lemma dominates_edge:
  assumes "block_dominates adj prog a t" "a \<noteq> t" "t \<in> set (live_successors adj prog b)"
  shows "block_dominates adj prog a b"
proof (rule ccontr)
  assume "\<not> block_dominates adj prog a b"
  then have b: "a \<noteq> b" "a \<noteq> sp_entry prog" "(sp_entry prog, b) \<in> (avoiding adj prog a)\<^sup>*" by (simp_all add: block_dominates_def)
  have "(b, t) \<in> avoiding adj prog a" using b assms by (simp add: avoiding_def)
  then have "(sp_entry prog, t) \<in> (avoiding adj prog a)\<^sup>*" using b(3) by (meson rtrancl.rtrancl_into_rtrancl)
  then show False using assms(1,2) b(2) by (simp add: block_dominates_def)
qed

lemma dominates_entry: "block_dominates adj prog a (sp_entry prog) \<Longrightarrow> a = sp_entry prog"
  by (auto simp: block_dominates_def)

text \<open>A block that dominates every way into \<open>b\<close> from outside dominates \<open>b\<close>.\<close>

lemma dominates_join:
  assumes "reach adj prog b" "b \<noteq> sp_entry prog"
    and preds: "\<And>p. reach adj prog p \<Longrightarrow> b \<in> set (live_successors adj prog p) \<Longrightarrow> \<not> block_dominates adj prog b p \<Longrightarrow> block_dominates adj prog a p"
  shows "block_dominates adj prog a b \<and> a \<noteq> b"
proof -
  have first: "\<exists>p. reach adj prog p \<and> b \<in> set (live_successors adj prog p) \<and> p \<noteq> b \<and> (sp_entry prog, p) \<in> (r \<inter> avoiding adj prog b)\<^sup>*"
    if "(sp_entry prog, b) \<in> r\<^sup>*" "r \<subseteq> succ_rel (live_successors adj prog)" for r
  proof -
    have "(\<exists>p. b \<in> set (live_successors adj prog p) \<and> p \<noteq> b \<and> (sp_entry prog, p) \<in> (r \<inter> avoiding adj prog b)\<^sup>*)
        \<or> (z \<noteq> b \<and> (sp_entry prog, z) \<in> (r \<inter> avoiding adj prog b)\<^sup>*)" if "(sp_entry prog, z) \<in> r\<^sup>*" for z
      using that
    proof (induction rule: rtrancl_induct)
      case base
      then show ?case using assms(2) by auto
    next
      case (step y z)
      show ?case
      proof (cases "y \<noteq> b \<and> (sp_entry prog, y) \<in> (r \<inter> avoiding adj prog b)\<^sup>*")
        case True
        have z: "z \<in> set (live_successors adj prog y)" using step.hyps(2) \<open>r \<subseteq> _\<close> by (auto simp: succ_rel_def)
        show ?thesis
        proof (cases "z = b")
          case False
          then have "(y, z) \<in> r \<inter> avoiding adj prog b" using step.hyps(2) True z by (simp add: avoiding_def)
          then show ?thesis using True False by (meson rtrancl.rtrancl_into_rtrancl)
        qed (use True z in blast)
      qed (use step.IH in blast)
    qed
    from this [OF \<open>(sp_entry prog, b) \<in> r\<^sup>*\<close>] obtain p where p: "b \<in> set (live_successors adj prog p)" "p \<noteq> b"
      "(sp_entry prog, p) \<in> (r \<inter> avoiding adj prog b)\<^sup>*" by blast
    have "(sp_entry prog, p) \<in> (avoiding adj prog b)\<^sup>*" using p(3) by (rule rtrancl_mono [THEN subsetD, rotated]) simp
    then show ?thesis using p avoiding_reach by blast
  qed
  have outside: "\<not> block_dominates adj prog b p" if "p \<noteq> b" "(sp_entry prog, p) \<in> (r \<inter> avoiding adj prog b)\<^sup>*" for p r
  proof -
    have "(sp_entry prog, p) \<in> (avoiding adj prog b)\<^sup>*" using that(2) by (rule rtrancl_mono [THEN subsetD, rotated]) simp
    then show ?thesis using that(1) assms(2) by (simp add: block_dominates_def)
  qed
  have ne: "a \<noteq> b"
  proof
    assume "a = b"
    from first [OF assms(1) [unfolded reach_def] order_refl] obtain p where p: "reach adj prog p" "b \<in> set (live_successors adj prog p)" "p \<noteq> b"
      "(sp_entry prog, p) \<in> (succ_rel (live_successors adj prog) \<inter> avoiding adj prog b)\<^sup>*" by blast
    then show False using preds [OF p(1,2)] outside \<open>a = b\<close> by blast
  qed
  have "block_dominates adj prog a b"
  proof (rule ccontr)
    assume "\<not> ?thesis"
    then have a: "a \<noteq> sp_entry prog" "(sp_entry prog, b) \<in> (avoiding adj prog a)\<^sup>*" by (simp_all add: block_dominates_def)
    have "avoiding adj prog a \<subseteq> succ_rel (live_successors adj prog)" by (auto simp: avoiding_def succ_rel_def)
    from first [OF a(2) this] obtain p where p: "reach adj prog p" "b \<in> set (live_successors adj prog p)" "p \<noteq> b"
      "(sp_entry prog, p) \<in> (avoiding adj prog a \<inter> avoiding adj prog b)\<^sup>*" by blast
    have pa: "(sp_entry prog, p) \<in> (avoiding adj prog a)\<^sup>*" using p(4) by (rule rtrancl_mono [THEN subsetD, rotated]) simp
    have "block_dominates adj prog a p" by (rule preds [OF p(1,2) outside [OF p(3,4)]])
    then have "a = p" using a(1) pa by (simp add: block_dominates_def)
    then show False using avoiding_not [OF pa a(1)] by simp
  qed
  with ne show ?thesis by simp
qed


section \<open>Strict programs\<close>

text \<open>Instruction \<open>d\<close> of the live block \<open>b\<close> defines \<open>v\<close>.\<close>

definition defined_in :: "ssa_program \<Rightarrow> ssa_value \<Rightarrow> nat \<Rightarrow> nat \<Rightarrow> bool" where
  "defined_in prog v b d \<longleftrightarrow> b < length (sp_blocks prog) \<and> live_block prog b \<and> d \<in> set (block_range prog b)
     \<and> def_dst (sp_insns prog ! d) = Some v"

definition is_phi :: "ssa_insn \<Rightarrow> bool" where
  "is_phi i = (case i of SPhi dst inputs \<Rightarrow> True | _ \<Rightarrow> False)"

definition is_pseudo :: "ssa_insn \<Rightarrow> bool" where
  "is_pseudo i = (case i of SConst dst k \<Rightarrow> True | SFramePtr dst \<Rightarrow> True | SEntryCtx dst \<Rightarrow> True | _ \<Rightarrow> False)"

text \<open>The pseudos of the entry block: they hold from the start of the program on.\<close>

definition entry_pseudo :: "ssa_program \<Rightarrow> ssa_value \<Rightarrow> bool" where
  "entry_pseudo prog v \<longleftrightarrow> (\<exists>d. defined_in prog v (sp_entry prog) d \<and> is_pseudo (sp_insns prog ! d))"

text \<open>
  A value is available before instruction \<open>x\<close> of block \<open>b\<close>: it is a pseudo, an earlier
  definition or a phi of the block, or its block dominates \<open>b\<close>.
\<close>

definition available :: "adjacency \<Rightarrow> ssa_program \<Rightarrow> ssa_value \<Rightarrow> nat \<Rightarrow> nat \<Rightarrow> bool" where
  "available adj prog v b x \<longleftrightarrow> entry_pseudo prog v
     \<or> (\<exists>b' d. defined_in prog v b' d
          \<and> (if b' = b then d < x \<or> is_phi (sp_insns prog ! d) else block_dominates adj prog b' b))"

definition inputs_strict :: "adjacency \<Rightarrow> ssa_program \<Rightarrow> nat \<Rightarrow> (nat \<times> ssa_value) list \<Rightarrow> bool" where
  "inputs_strict adj prog b inputs \<longleftrightarrow>
     (\<forall>(pred, v) \<in> set inputs.
        (is_start_pred pred \<longrightarrow> entry_pseudo prog v)
        \<and> (reach adj prog pred \<longrightarrow> available adj prog v pred (sb_end (sp_blocks prog ! pred))))
     \<and> (\<forall>pred. reach adj prog pred \<and> b \<in> set (live_successors adj prog pred) \<longrightarrow> pred \<in> fst ` set inputs)
     \<and> (b = sp_entry prog \<longrightarrow> start_pred \<in> fst ` set inputs)"

definition strict_at :: "adjacency \<Rightarrow> ssa_program \<Rightarrow> nat \<Rightarrow> nat \<Rightarrow> bool" where
  "strict_at adj prog b x \<longleftrightarrow>
     (is_control (sp_insns prog ! x) \<longrightarrow> Suc x = sb_end (sp_blocks prog ! b))
     \<and> (case sp_insns prog ! x of
          SPhi dst inputs \<Rightarrow> inputs_strict adj prog b inputs
        | i \<Rightarrow> \<forall>v \<in> set (insn_uses i). available adj prog v b x)"

definition strict_ssa :: "adjacency \<Rightarrow> ssa_program \<Rightarrow> bool" where
  "strict_ssa adj prog \<longleftrightarrow>
     (\<forall>b < length (sp_blocks prog). reach adj prog b \<longrightarrow>
        live_block prog b \<and> (\<forall>x \<in> set (block_range prog b). strict_at adj prog b x))"

lemma defined_in_unique:
  assumes ok: "ssa_ok adj prog" and "defined_in prog v b d" "defined_in prog v b' d'"
  shows "d = d' \<and> b = b'"
proof -
  have d: "d = d'" using def_unique [OF ok] assms(2,3) by (auto simp: defined_in_def intro: live_rangeI)
  have D: "distinct (concat (map (block_range prog) [0..<length (sp_blocks prog)]))"
    using ok by (simp only: ssa_ok_def layout_ok_def distinct_upt)
  have "b = b'" if "b \<noteq> b'"
  proof -
    have "distinct (concat (map f bs)) \<Longrightarrow> a \<in> set bs \<Longrightarrow> c \<in> set bs \<Longrightarrow> y \<in> set (f a) \<Longrightarrow> y \<in> set (f c) \<Longrightarrow> a = c"
      for f :: "nat \<Rightarrow> nat list" and bs a c y
    proof (induction bs)
      case (Cons e bs)
      have apart: "z \<in> set bs \<Longrightarrow> y \<in> set (f e) \<Longrightarrow> y \<notin> set (f z)" for z using Cons.prems(1) by auto
      show ?case using Cons apart [of a] apart [of c] by auto
    qed simp
    from this [OF D] show ?thesis using assms(2,3) d by (auto simp: defined_in_def)
  qed
  with d show ?thesis by blast
qed

lemma strict_live: "adj_sound adj \<Longrightarrow> ssa_ok adj prog \<Longrightarrow> strict_ssa adj prog \<Longrightarrow> reach adj prog b \<Longrightarrow> visits adj prog b"
  using reach_in_range by (auto simp: strict_ssa_def visits_def)

lemma strict_visit: "strict_ssa adj prog \<Longrightarrow> visits adj prog b \<Longrightarrow> x \<in> set (block_range prog b) \<Longrightarrow> strict_at adj prog b x"
  by (simp add: strict_ssa_def visits_def)

lemma strict_uses:
  "strict_at adj prog b x \<Longrightarrow> \<not> is_phi (sp_insns prog ! x) \<Longrightarrow> v \<in> set (insn_uses (sp_insns prog ! x)) \<Longrightarrow> available adj prog v b x"
  by (cases "sp_insns prog ! x") (auto simp: strict_at_def is_phi_def)

lemma strict_phi: "strict_at adj prog b x \<Longrightarrow> sp_insns prog ! x = SPhi dst inputs \<Longrightarrow> inputs_strict adj prog b inputs"
  by (simp add: strict_at_def)

lemma dominator_reach:
  assumes "reach adj prog b" "block_dominates adj prog b' b"
  shows "reach adj prog b'"
proof (cases "b' = sp_entry prog \<or> b' = b")
  case False
  then have "b \<noteq> sp_entry prog" using dominates_entry assms(2) by blast
  then show ?thesis
    using reach_first [OF assms(1), of b' b] assms(2) False avoiding_reach by (auto simp: block_dominates_def)
qed (use assms(1) in \<open>auto simp: reach_def\<close>)

lemma start_pred_not_visited: "ssa_ok adj prog \<Longrightarrow> visits adj prog pred \<Longrightarrow> \<not> is_start_pred pred"
  by (auto simp: ssa_ok_def edges_ok_def visits_def is_start_pred_def)

lemma block_range_bounds: "x \<in> set (block_range prog b) \<longleftrightarrow> sb_start (sp_blocks prog ! b) \<le> x \<and> x < sb_end (sp_blocks prog ! b)"
  by (simp add: block_range_def)

text \<open>Availability along a block and across an edge.\<close>

lemma available_mono: "available adj prog v b x \<Longrightarrow> x \<le> y \<Longrightarrow> available adj prog v b y"
  by (fastforce simp: available_def split: if_splits)

lemma available_Suc:
  assumes "available adj prog v b (Suc x)" "def_dst (sp_insns prog ! x) \<noteq> Some v"
  shows "available adj prog v b x"
proof -
  have "d \<noteq> x" if "defined_in prog v b' d" for b' d using that assms(2) by (auto simp: defined_in_def)
  then show ?thesis using assms(1) by (fastforce simp: available_def less_Suc_eq split: if_splits)
qed

lemma available_after:
  assumes "available adj prog v b x" "sb_end (sp_blocks prog ! b) \<le> x"
  shows "available adj prog v b (sb_end (sp_blocks prog ! b))"
  using assms by (fastforce simp: available_def defined_in_def block_range_bounds split: if_splits)

lemma available_enter:
  assumes "available adj prog v b (sb_start (sp_blocks prog ! b))" "came_from adj prog pred b"
  shows "entry_pseudo prog v \<or> (\<exists>d. defined_in prog v b d \<and> is_phi (sp_insns prog ! d))
    \<or> (\<exists>b' d. defined_in prog v b' d \<and> b' \<noteq> b \<and> block_dominates adj prog b' b) \<and> visits adj prog pred
       \<and> available adj prog v pred (sb_end (sp_blocks prog ! pred))"
proof (cases "entry_pseudo prog v \<or> (\<exists>d. defined_in prog v b d \<and> is_phi (sp_insns prog ! d))")
  case False
  then obtain b' d where d: "defined_in prog v b' d" "b' \<noteq> b" "block_dominates adj prog b' b"
    using assms(1) by (auto simp: available_def defined_in_def block_range_bounds split: if_splits)
  have "b \<noteq> sp_entry prog" using dominates_entry d(2,3) by blast
  then have p: "visits adj prog pred" "b \<in> set (live_successors adj prog pred)" using assms(2) by (auto simp: came_from_def)
  have "block_dominates adj prog b' pred" by (rule dominates_edge [OF d(3,2) p(2)])
  then have "available adj prog v pred (sb_end (sp_blocks prog ! pred))"
    using d(1) by (auto simp: available_def defined_in_def block_range_bounds)
  then show ?thesis using d p(1) by blast
qed blast


section \<open>Strict programs never get stuck\<close>

definition all_defined :: "adjacency \<Rightarrow> ssa_program \<Rightarrow> nat \<Rightarrow> nat \<Rightarrow> env \<Rightarrow> bool" where
  "all_defined adj prog b x e \<longleftrightarrow> (\<forall>v. available adj prog v b x \<longrightarrow> e v \<noteq> None)"

lemma those_total: "\<forall>x \<in> set xs. x \<noteq> None \<Longrightarrow> those xs \<noteq> None"
  by (induction xs) auto

lemma operand_val_total: "\<forall>v \<in> set (operand_uses operand). e v \<noteq> None \<Longrightarrow> operand_val e operand \<noteq> None"
  by (cases operand) (simp_all add: operand_uses_def)

lemma eval_binop_total:
  "\<forall>v \<in> set (operand_uses lhs) \<union> set (operand_uses rhs). e v \<noteq> None \<Longrightarrow> eval_binop e w op lhs rhs \<noteq> None"
  using operand_val_total [of lhs e] operand_val_total [of rhs e]
  by (cases op) (auto simp: eval_binop_def bind_eq_None_conv)

lemma eval_insn_total:
  assumes "\<forall>v \<in> set (insn_uses i). e v \<noteq> None"
  shows "eval_insn fx i e w \<noteq> Halt Stuck"
proof (cases i)
  case (SBinOp d wd op lhs rhs)
  then show ?thesis using assms eval_binop_total [of lhs rhs e wd op] by (auto simp: define_value_def split: option.split)
next
  case (SStore sz base off src)
  then show ?thesis using assms operand_val_total [of src e] by (auto split: option.split)
next
  case (SCall d func args)
  then show ?thesis using assms those_total [of "map e args"] by (auto simp: define_value_def split: option.split)
next
  case (SBr wd op lhs rhs t f)
  then show ?thesis using assms operand_val_total [of lhs e] operand_val_total [of rhs e]
    by (auto simp: goto_target_def split: option.split)
qed (use assms in \<open>auto simp: define_value_def split: option.split\<close>)

lemma eval_insn_defines:
  "eval_insn fx i e w = Cont e1 w1 \<Longrightarrow> \<not> is_phi i \<Longrightarrow> def_dst i = Some d \<Longrightarrow> e1 d \<noteq> None"
  by (cases i) (auto simp: define_value_def assign_def is_phi_def split: option.splits prod.splits)

lemma all_defined_step:
  assumes at: "strict_at adj prog b x" and e: "all_defined adj prog b x e"
  shows "eval_insn fx (sp_insns prog ! x) e w \<noteq> Halt Stuck"
    and "eval_insn fx (sp_insns prog ! x) e w = Cont e1 w1 \<Longrightarrow> x \<in> set (block_range prog b) \<Longrightarrow> all_defined adj prog b (Suc x) e1"
proof -
  show "eval_insn fx (sp_insns prog ! x) e w \<noteq> Halt Stuck"
  proof (cases "is_phi (sp_insns prog ! x)")
    case True
    then show ?thesis by (cases "sp_insns prog ! x") (simp_all add: is_phi_def)
  next
    case False
    then show ?thesis using strict_uses [OF at False] e by (intro eval_insn_total) (auto simp: all_defined_def)
  qed
  assume C: "eval_insn fx (sp_insns prog ! x) e w = Cont e1 w1" and x: "x \<in> set (block_range prog b)"
  have "e1 v \<noteq> None" if v: "available adj prog v b (Suc x)" for v
  proof (cases "def_dst (sp_insns prog ! x) = Some v")
    case True
    show ?thesis
    proof (cases "is_phi (sp_insns prog ! x)")
      case True
      have "available adj prog v b x"
        using v True x by (fastforce simp: available_def less_Suc_eq split: if_splits)
      moreover have "e1 = e" using C True by (cases "sp_insns prog ! x") (simp_all add: is_phi_def)
      ultimately show ?thesis using e by (simp add: all_defined_def)
    next
      case False
      then show ?thesis using eval_insn_defines [OF C False True] by simp
    qed
  next
    case False
    then have "e v \<noteq> None" using available_Suc [OF v] e by (simp add: all_defined_def)
    then show ?thesis using eval_insn_defs [OF C] by (auto simp: assign_def)
  qed
  then show "all_defined adj prog b (Suc x) e1" by (simp add: all_defined_def)
qed

lemma all_defined_body:
  assumes "\<forall>x \<in> set [s..<t]. x \<in> set (block_range prog b) \<and> strict_at adj prog b x" "t = sb_end (sp_blocks prog ! b)"
    and "all_defined adj prog b s e" "s \<le> t"
  shows "eval_body fx (map ((!) (sp_insns prog)) [s..<t]) e w \<noteq> Halt Stuck
    \<and> (\<forall>e1 w1. eval_body fx (map ((!) (sp_insns prog)) [s..<t]) e w = Cont e1 w1 \<longrightarrow> all_defined adj prog b t e1)
    \<and> (\<forall>t' e1 w1. eval_body fx (map ((!) (sp_insns prog)) [s..<t]) e w = Goto t' e1 w1 \<longrightarrow> all_defined adj prog b t e1)"
  using assms
proof (induction "t - s" arbitrary: s e w)
  case (Suc n)
  then have less: "s < t" by simp
  then have cons: "[s..<t] = s # [Suc s..<t]" by (rule upt_conv_Cons)
  have at: "strict_at adj prog b s" "s \<in> set (block_range prog b)" using Suc.prems(1) less by simp_all
  note step = all_defined_step [OF at(1) Suc.prems(3), of fx w]
  show ?case
  proof (cases "eval_insn fx (sp_insns prog ! s) e w")
    case (Cont e1 w1)
    have "all_defined adj prog b (Suc s) e1" by (rule step(2) [OF Cont at(2)])
    from Suc.hyps(1) [OF _ _ Suc.prems(2) this] Suc.hyps(2) Suc.prems(1) less show ?thesis
      using Cont by (simp add: cons)
  next
    case (Goto t' e1 w1)
    have "e1 = e" by (rule eval_insn_goto [OF Goto])
    have "is_control (sp_insns prog ! s)" using eval_insn_target [OF Goto] by simp
    then have "Suc s = t" "def_dst (sp_insns prog ! s) = None"
      using at(1) Suc.prems(2) by (auto simp: strict_at_def is_control_def split: ssa_insn.splits)
    then have "all_defined adj prog b t e" using Suc.prems(3) available_Suc [of adj prog _ b s] by (auto simp: all_defined_def)
    then show ?thesis using Goto \<open>e1 = e\<close> by (simp add: cons)
  next
    case (Halt out)
    then show ?thesis using step(1) by (simp add: cons)
  qed
qed simp

definition left_defined :: "adjacency \<Rightarrow> ssa_program \<Rightarrow> nat \<Rightarrow> env \<Rightarrow> bool" where
  "left_defined adj prog pred e \<longleftrightarrow> (\<forall>v. entry_pseudo prog v \<longrightarrow> e v \<noteq> None)
     \<and> (\<not> is_start_pred pred \<longrightarrow> all_defined adj prog pred (sb_end (sp_blocks prog ! pred)) e)"

lemma left_all_defined: "all_defined adj prog b (sb_end (sp_blocks prog ! b)) e \<Longrightarrow> left_defined adj prog b e"
  by (simp add: left_defined_def all_defined_def available_def)

lemma strict_inputs:
  assumes ok: "ssa_ok adj prog" and i: "inputs_strict adj prog b inputs" and pred: "came_from adj prog pred b"
  shows "\<exists>v. map_of inputs pred = Some v"
    and "map_of inputs pred = Some v \<Longrightarrow>
      (if is_start_pred pred then entry_pseudo prog v else available adj prog v pred (sb_end (sp_blocks prog ! pred)))"
proof -
  have "pred \<in> fst ` set inputs"
    using i pred by (auto simp: inputs_strict_def came_from_def visits_def is_start_pred_def)
  then show "\<exists>v. map_of inputs pred = Some v" by (metis map_of_eq_None_iff not_None_eq)
  assume "map_of inputs pred = Some v"
  then have "(pred, v) \<in> set inputs" by (rule map_of_SomeD)
  then have "(is_start_pred pred \<longrightarrow> entry_pseudo prog v) \<and> (reach adj prog pred \<longrightarrow> available adj prog v pred (sb_end (sp_blocks prog ! pred)))"
    using i by (auto simp: inputs_strict_def)
  then show "if is_start_pred pred then entry_pseudo prog v else available adj prog v pred (sb_end (sp_blocks prog ! pred))"
    using pred start_pred_not_visited [OF ok] by (auto simp: came_from_def visits_def)
qed

lemma phi_defs_total:
  assumes ok: "ssa_ok adj prog" and strict: "strict_ssa adj prog" and b: "visits adj prog b" and pred: "came_from adj prog pred b"
    and e: "left_defined adj prog pred e"
  shows "phi_defs pred e (block_body prog b) \<noteq> None"
proof -
  have "Some z \<noteq> None \<longrightarrow> y \<noteq> None" if y: "y \<in> set (concat (map (phi_def pred e) (block_body prog b)))" for y :: "(nat \<times> i64) option" and z :: nat
  proof -
    obtain x where x: "x \<in> set (block_range prog b)" "y \<in> set (phi_def pred e (sp_insns prog ! x))"
      using y by (auto simp: block_body_def)
    then obtain dst inputs where i: "sp_insns prog ! x = SPhi dst inputs" by (cases "sp_insns prog ! x") (auto simp: phi_def_def)
    note I = strict_inputs [OF ok strict_phi [OF strict_visit [OF strict b x(1)] i] pred]
    obtain v where v: "map_of inputs pred = Some v" using I(1) by blast
    have "e v \<noteq> None" using I(2) [OF v] e by (auto simp: left_defined_def all_defined_def split: if_splits)
    then show ?thesis using x(2) i v by (auto simp: phi_def_def)
  qed
  then show ?thesis unfolding phi_defs_def by (intro those_total) simp
qed

lemma phi_defs_defined:
  assumes "phi_defs pred e body = Some defs" "SPhi d inputs \<in> set body"
  shows "map_of defs d \<noteq> None"
proof -
  have "those ys = Some zs \<Longrightarrow> y \<in> set ys \<Longrightarrow> \<exists>z \<in> set zs. y = Some z" for ys :: "'a option list" and zs y
    by (induction ys arbitrary: zs) (auto split: option.splits)
  from this [OF assms(1) [unfolded phi_defs_def], of "Option.bind (map_of inputs pred) (\<lambda>v. map_option (Pair d) (e v))"] assms(2)
  have "\<exists>z \<in> set defs. Option.bind (map_of inputs pred) (\<lambda>v. map_option (Pair d) (e v)) = Some z" by (force simp: phi_def_def)
  then obtain y where "(d, y) \<in> set defs" by (auto simp: bind_eq_Some_conv)
  then show ?thesis using weak_map_of_SomeI by fastforce
qed

lemma all_defined_enter:
  assumes ok: "ssa_ok adj prog" and pred: "came_from adj prog pred b" and e: "left_defined adj prog pred e"
    and defs: "phi_defs pred e (block_body prog b) = Some defs"
  shows "all_defined adj prog b (sb_start (sp_blocks prog ! b)) (assign defs e)"
proof -
  have "assign defs e v \<noteq> None" if v: "available adj prog v b (sb_start (sp_blocks prog ! b))" for v
    using available_enter [OF v pred]
  proof (elim disjE exE conjE)
    fix d assume d: "defined_in prog v b d" "is_phi (sp_insns prog ! d)"
    then obtain inputs where "SPhi v inputs \<in> set (block_body prog b)"
      by (cases "sp_insns prog ! d") (force simp: defined_in_def is_phi_def block_body_def)+
    from phi_defs_defined [OF defs this] show ?thesis by (auto simp: assign_def)
  qed (use e start_pred_not_visited [OF ok] in \<open>auto simp: left_defined_def all_defined_def assign_def split: option.split\<close>)
  then show ?thesis by (simp add: all_defined_def)
qed

lemma strict_run:
  assumes adj: "adj_sound adj" and ok: "ssa_ok adj prog" and strict: "strict_ssa adj prog"
  shows "came_from adj prog pred b \<Longrightarrow> left_defined adj prog pred e \<Longrightarrow> run_blocks fx adj prog n pred b e w \<noteq> Some Stuck"
proof (induction n arbitrary: pred b e w)
  case (Suc n)
  have b: "visits adj prog b" by (rule strict_live [OF adj ok strict came_from_reach [OF Suc.prems(1)]])
  then have live: "b < length (sp_blocks prog) \<and> live_block prog b" by (simp add: visits_def)
  obtain defs where defs: "phi_defs pred e (block_body prog b) = Some defs"
    using phi_defs_total [OF ok strict b Suc.prems] by blast
  let ?s = "sb_start (sp_blocks prog ! b)" let ?t = "sb_end (sp_blocks prog ! b)"
  have start: "all_defined adj prog b ?s (assign defs e)" by (rule all_defined_enter [OF ok Suc.prems defs])
  let ?f = "enter_block fx (block_body prog b) pred e w"
  have F: "?f \<noteq> Halt Stuck \<and> (\<forall>e1 w1. ?f = Cont e1 w1 \<longrightarrow> all_defined adj prog b ?t e1)
    \<and> (\<forall>t e1 w1. ?f = Goto t e1 w1 \<longrightarrow> all_defined adj prog b ?t e1)"
  proof (cases "?s \<le> ?t")
    case True
    have "\<forall>x \<in> set [?s..<?t]. x \<in> set (block_range prog b) \<and> strict_at adj prog b x"
      using strict_visit [OF strict b] by (simp add: block_range_def)
    note B = all_defined_body [OF this refl start True, where fx = fx and w = w]
    have "?f = eval_body fx (map ((!) (sp_insns prog)) [?s..<?t]) (assign defs e) w"
      using defs by (simp add: enter_block_def block_body_def block_range_def)
    then show ?thesis using B by (simp only:) blast
  next
    case False
    then have "all_defined adj prog b ?t (assign defs e)"
      using start available_mono [of adj prog _ b ?t ?s] by (auto simp: all_defined_def)
    then show ?thesis using False defs by (simp add: enter_block_def block_body_def block_range_def)
  qed
  show ?case
  proof (cases ?f)
    case (Goto t e1 w1)
    obtain i where "find is_control (block_body prog b) = Some i" "t \<in> control_targets i"
      using eval_body_target Goto defs unfolding enter_block_def by fastforce
    then have "came_from adj prog b t" using visits_target [OF ok b] b by (simp add: came_from_def)
    from Suc.IH [OF this left_all_defined] F Goto live show ?thesis by simp
  next
    case (Cont e1 w1)
    show ?thesis
    proof (cases "live_successors adj prog b")
      case (Cons t ts)
      then have "came_from adj prog b t" using b by (simp add: came_from_def)
      from Suc.IH [OF this left_all_defined] F Cont live Cons show ?thesis by simp
    qed (use Cont live in simp)
  next
    case (Halt out)
    then show ?thesis using F live by simp
  qed
qed simp

lemma strict_never_stuck:
  assumes "adj_sound adj" "ssa_ok adj prog" "strict_ssa adj prog"
  shows "run_ssa fx adj prog n w \<noteq> Some Stuck"
proof -
  have e: "sp_entry prog < length (sp_blocks prog)" using assms(2) by (simp add: ssa_ok_def edges_ok_def)
  have live: "live_block prog (sp_entry prog)" using strict_live [OF assms, of "sp_entry prog"] by (simp add: reach_def visits_def)
  have "entry_env fx prog v \<noteq> None" if v: "entry_pseudo prog v" for v
  proof -
    obtain d where d: "d \<in> set (block_range prog (sp_entry prog))" "def_dst (sp_insns prog ! d) = Some v" "is_pseudo (sp_insns prog ! d)"
      using v by (auto simp: entry_pseudo_def defined_in_def)
    then obtain x where "pseudo_def fx (sp_insns prog ! d) = [(v, x)]"
      by (cases "sp_insns prog ! d") (auto simp: pseudo_def_def is_pseudo_def)
    then have "entry_env fx prog v = Some x" using entry_env_iff [OF assms(2) live] d(1) by blast
    then show ?thesis by simp
  qed
  then have "left_defined adj prog start_pred (entry_env fx prog)" by (simp add: left_defined_def is_start_pred_def)
  moreover have "came_from adj prog start_pred (sp_entry prog)" by (simp add: came_from_def is_start_pred_def)
  ultimately show ?thesis unfolding run_ssa_def by (rule strict_run [OF assms, rotated])
qed

end
