(* ===== verification/SsaCopy.thy ===== *)
theory SsaCopy
  imports SsaDom
begin

text \<open>
  Copy propagation on strict SSA: a rewritten use reads a value whose definition still dominates it
  and which, whenever the copy is available, equals the copy.
\<close>

section \<open>All rewrites at once\<close>

lemma rewrite_operand_rename: "rewrite_operand from to = rename_operand (rewrite_value from to)"
proof
  show "rewrite_operand from to operand = rename_operand (rewrite_value from to) operand" for operand by (cases operand) simp_all
qed

lemma rewrite_uses_rename: "rewrite_uses from to i = rename (rewrite_value from to) i"
  by (cases i) (simp_all add: rewrite_operand_rename)

lemma rename_kind [simp]: "same_control i (rename f i)" "is_phi (rename f i) = is_phi i" "is_pseudo (rename f i) = is_pseudo i"
  by (cases i; simp add: is_control_def same_control_def dead_taken_def is_phi_def is_pseudo_def)+

definition rewrite_all :: "(ssa_value \<times> ssa_value) list \<Rightarrow> ssa_value \<Rightarrow> ssa_value" where
  "rewrite_all rs v = fold (\<lambda>(from, to) v. rewrite_value from to v) rs v"

lemma fold_rewrite_step: "fst (fold rewrite_step rs (i, c)) = rename (rewrite_all rs) i"
proof (induction rs arbitrary: i c)
  case (Cons r rs)
  then show ?case by (cases r) (simp add: rewrite_step_def rewrite_uses_rename rewrite_all_def)
qed (simp add: rewrite_all_def [abs_def] id_def)

definition step_flag :: "(ssa_value \<times> ssa_value) list \<Rightarrow> ssa_insn \<Rightarrow> bool" where
  "step_flag rs i = snd (fold rewrite_step rs (i, False))"

lemma rewrite_flag: "snd (fold rewrite_step rs (i, c)) = (c \<or> step_flag rs i)"
  unfolding step_flag_def
proof (induction rs arbitrary: i c)
  case (Cons r rs)
  obtain fr to where r: "r = (fr, to)" by force
  show ?case
    using Cons.IH [of "rewrite_uses fr to i" "c \<or> fr \<in> set (insn_uses i)"] Cons.IH [of "rewrite_uses fr to i" "fr \<in> set (insn_uses i)"]
    by (simp add: r rewrite_step_def)
qed simp

lemma fold_rewrite:
  assumes "distinct ps" "\<forall>x \<in> set ps. x < length insns"
  shows "fold (rewrite_at rs) ps (insns, c) =
    (map (\<lambda>x. if x \<in> set ps then rename (rewrite_all rs) (insns ! x) else insns ! x) [0..<length insns],
     c \<or> (\<exists>x \<in> set ps. step_flag rs (insns ! x)))"
  using assms
proof (induction ps arbitrary: insns c)
  case Nil
  then show ?case by (simp add: map_nth)
next
  case (Cons y ps)
  let ?is = "insns[y := rename (rewrite_all rs) (insns ! y)]"
  have "rewrite_at rs y (insns, c) = (?is, c \<or> step_flag rs (insns ! y))"
    using fold_rewrite_step [of rs "insns ! y" c] rewrite_flag [of rs "insns ! y" c]
    by (cases "fold rewrite_step rs (insns ! y, c)") (simp add: rewrite_at_def)
  then have "fold (rewrite_at rs) (y # ps) (insns, c) = fold (rewrite_at rs) ps (?is, c \<or> step_flag rs (insns ! y))" by simp
  also have "\<dots> = (map (\<lambda>x. if x \<in> set ps then rename (rewrite_all rs) (?is ! x) else ?is ! x) [0..<length ?is],
      (c \<or> step_flag rs (insns ! y)) \<or> (\<exists>x \<in> set ps. step_flag rs (?is ! x)))"
    by (rule Cons.IH) (use Cons.prems in auto)
  also have "map (\<lambda>x. if x \<in> set ps then rename (rewrite_all rs) (?is ! x) else ?is ! x) [0..<length ?is]
      = map (\<lambda>x. if x \<in> set (y # ps) then rename (rewrite_all rs) (insns ! x) else insns ! x) [0..<length insns]"
    using Cons.prems by (auto simp: nth_list_update)
  also have "(\<exists>x \<in> set ps. step_flag rs (?is ! x)) = (\<exists>x \<in> set ps. step_flag rs (insns ! x))"
    by (rule bex_cong [OF refl]) (use Cons.prems(1) in \<open>metis distinct.simps(2) nth_list_update_neq\<close>)
  finally show ?case by auto
qed



section \<open>Where the source of a copy is defined\<close>

lemma dedup_set [simp]: "set (dedup xs) = set xs"
  by (induction xs rule: dedup.induct) auto

lemma copy_rewrite_phi:
  assumes "(from, to) \<in> set (copy_rewrite prog (SPhi dst inputs))"
  shows "from = dst \<and> to \<noteq> dst \<and> (\<forall>(pred, v) \<in> set inputs. is_start_pred pred \<or> live_block prog pred \<longrightarrow> v = dst \<or> v = to)"
proof -
  let ?us = "filter (\<lambda>v. v \<noteq> dst) (map snd (filter (\<lambda>(pred, v). is_start_pred pred \<or> live_block prog pred) inputs))"
  have d: "from = dst" "dedup ?us = [to]" using assms by (auto simp: copy_rewrite_def split: list.splits)
  then have "set ?us = {to}" by (metis dedup_set list.set(1) list.set(2))
  then show ?thesis using d(1) by force
qed

lemma copy_rewrite_other:
  assumes "(from, to) \<in> set (copy_rewrite prog i)" "\<not> is_phi i"
  shows "def_dst i = Some from" "to \<in> set (insn_uses i)" "\<not> is_pseudo i"
    and "eval_insn fx i e w = Cont e1 w1 \<Longrightarrow> \<exists>y. e to = Some y \<and> e1 = assign [(from, y)] e"
proof -
  have i: "i = SCopy from to \<or> (\<exists>lhs. i = SBinOp from B64 Mov lhs (SVal to))"
    using assms by (cases i) (auto simp: copy_rewrite_def is_phi_def split: ssa_operand.splits if_splits)
  then show "def_dst i = Some from" "to \<in> set (insn_uses i)" "\<not> is_pseudo i" by (auto simp: operand_uses_def is_pseudo_def)
  assume E: "eval_insn fx i e w = Cont e1 w1"
  have mov: "alu_apply Mov l r B64 = Some r" for l r by (simp add: alu_apply_def alu64.simps)
  show "\<exists>y. e to = Some y \<and> e1 = assign [(from, y)] e"
    using i E by (auto simp: define_value_def eval_binop_def mov split: option.splits)
qed

lemma copy_rewrite_dst:
  assumes "(from, to) \<in> set (copy_rewrite prog i)"
  shows "def_dst i = Some from \<and> \<not> is_pseudo i"
proof (cases "is_phi i")
  case True
  then obtain dst inputs where "i = SPhi dst inputs" by (cases i) (auto simp: is_phi_def)
  then show ?thesis using copy_rewrite_phi [of "from" to prog dst inputs] assms by (simp add: is_pseudo_def)
qed (use copy_rewrite_other [OF assms] in simp)

lemma copy_rewrites_source:
  assumes "(from, to) \<in> set (copy_rewrites prog)"
  obtains b d where "defined_in prog from b d" "(from, to) \<in> set (copy_rewrite prog (sp_insns prog ! d))"
proof -
  obtain d where d: "d \<in> set (live_range prog)" "(from, to) \<in> set (copy_rewrite prog (sp_insns prog ! d))"
    using assms by (auto simp: copy_rewrites_def)
  then obtain b where "b < length (sp_blocks prog)" "live_block prog b" "d \<in> set (block_range prog b)" by (auto elim: live_rangeE)
  then show thesis using that d(2) copy_rewrite_dst by (auto simp: defined_in_def)
qed

text \<open>The program is strict, and the graph is petgraph's.\<close>

definition strict_prog :: "adjacency \<Rightarrow> ssa_program \<Rightarrow> bool" where
  "strict_prog adj prog \<longleftrightarrow> adj_sound adj \<and> ssa_ok adj prog \<and> strict_ssa adj prog"

lemma strict_progD: "strict_prog adj prog \<Longrightarrow> adj_sound adj" "strict_prog adj prog \<Longrightarrow> ssa_ok adj prog" "strict_prog adj prog \<Longrightarrow> strict_ssa adj prog"
  by (simp_all add: strict_prog_def)

lemma not_pseudo:
  "ssa_ok adj prog \<Longrightarrow> defined_in prog v b d \<Longrightarrow> \<not> is_pseudo (sp_insns prog ! d) \<Longrightarrow> \<not> entry_pseudo prog v"
  by (metis defined_in_unique entry_pseudo_def)

text \<open>The source of the copy at \<open>d'\<close> of block \<open>b'\<close> is defined strictly before it.\<close>

definition source_before :: "adjacency \<Rightarrow> ssa_program \<Rightarrow> ssa_value \<Rightarrow> nat \<Rightarrow> nat \<Rightarrow> bool" where
  "source_before adj prog to b' d' \<longleftrightarrow> entry_pseudo prog to
     \<or> (\<exists>h dh. defined_in prog to h dh \<and> (if h = b' then \<not> is_phi (sp_insns prog ! d') \<and> (dh < d' \<or> is_phi (sp_insns prog ! dh))
          else block_dominates adj prog h b'))"

lemma source_of_phi:
  assumes S: "strict_prog adj prog" and r: "reach adj prog b" and d: "defined_in prog dst b d"
    and i: "sp_insns prog ! d = SPhi dst inputs" and c: "(dst, to) \<in> set (copy_rewrite prog (SPhi dst inputs))"
  shows "source_before adj prog to b d"
proof (rule ccontr)
  assume N: "\<not> source_before adj prog to b d"
  then have np: "\<not> entry_pseudo prog to" by (simp add: source_before_def)
  note ok = strict_progD(2) [OF S]
  have phi: "is_phi (sp_insns prog ! d)" by (simp add: i is_phi_def)
  have b: "visits adj prog b" by (rule strict_live [OF strict_progD [OF S] r])
  then have I: "inputs_strict adj prog b inputs"
    using strict_phi [OF strict_visit [OF strict_progD(3) [OF S] b] i] d by (simp add: defined_in_def)
  note C = copy_rewrite_phi [OF c]
  have dst: "\<not> entry_pseudo prog dst" using not_pseudo [OF ok d] by (simp add: i is_pseudo_def)
  have be: "b \<noteq> sp_entry prog"
  proof
    assume "b = sp_entry prog"
    then obtain v where "(start_pred, v) \<in> set inputs" using I by (auto simp: inputs_strict_def)
    then have "entry_pseudo prog v" "v = dst \<or> v = to" using I C by (auto simp: inputs_strict_def is_start_pred_def)
    then show False using np dst by auto
  qed
  have home: "\<exists>h dh. defined_in prog to h dh \<and> block_dominates adj prog h p"
    if p: "reach adj prog p" "b \<in> set (live_successors adj prog p)" "\<not> block_dominates adj prog b p" for p
  proof -
    obtain v where v: "(p, v) \<in> set inputs" using I p by (auto simp: inputs_strict_def)
    have "live_block prog p" using strict_live [OF strict_progD [OF S] p(1)] by (simp add: visits_def)
    then have "v = dst \<or> v = to" using C v by auto
    moreover have av: "available adj prog v p (sb_end (sp_blocks prog ! p))" using I v p(1) by (auto simp: inputs_strict_def)
    moreover have "v \<noteq> dst"
    proof
      assume "v = dst"
      then obtain b' d' where "defined_in prog dst b' d'" "b' = p \<or> block_dominates adj prog b' p"
        using av dst by (auto simp: available_def split: if_splits)
      moreover have "b' = b" using defined_in_unique [OF ok d \<open>defined_in prog dst b' d'\<close>] by simp
      ultimately show False using p(3) by auto
    qed
    ultimately show ?thesis using np by (auto simp: available_def split: if_splits)
  qed
  show False
  proof (cases "\<exists>h dh. defined_in prog to h dh")
    case True
    then obtain h dh where h: "defined_in prog to h dh" by blast
    have "block_dominates adj prog h b \<and> h \<noteq> b"
      by (rule dominates_join [OF r be]) (use home defined_in_unique [OF ok h] in blast)
    then have "source_before adj prog to b d" unfolding source_before_def using h by (metis (no_types))
    then show False using N by simp
  next
    case False
    then have "block_dominates adj prog b b \<and> b \<noteq> b" by (intro dominates_join [OF r be]) (use home in blast)
    then show False by simp
  qed
qed

lemma source_of_copy:
  assumes S: "strict_prog adj prog" and r: "reach adj prog b" and d: "defined_in prog from b d"
    and c: "(from, to) \<in> set (copy_rewrite prog (sp_insns prog ! d))"
  shows "source_before adj prog to b d"
proof (cases "is_phi (sp_insns prog ! d)")
  case True
  then obtain dst inputs where i: "sp_insns prog ! d = SPhi dst inputs" by (cases "sp_insns prog ! d") (auto simp: is_phi_def)
  then have "from = dst" using d by (simp add: defined_in_def)
  then show ?thesis using source_of_phi [OF S r _ i] d c i by simp
next
  case False
  have "visits adj prog b" by (rule strict_live [OF strict_progD [OF S] r])
  then have "strict_at adj prog b d" using strict_visit [OF strict_progD(3) [OF S]] d by (simp add: defined_in_def)
  then have "available adj prog to b d" using strict_uses False copy_rewrite_other(2) [OF c False] by blast
  then show ?thesis using False by (auto simp: available_def source_before_def split: if_splits)
qed

text \<open>Where a copy is available, so is its source.\<close>

lemma available_source:
  assumes S: "strict_prog adj prog" and r: "reach adj prog b" and c: "(from, to) \<in> set (copy_rewrites prog)"
    and av: "available adj prog from b x"
  shows "available adj prog to b x"
proof -
  note ok = strict_progD(2) [OF S]
  obtain b' d' where d: "defined_in prog from b' d'" "(from, to) \<in> set (copy_rewrite prog (sp_insns prog ! d'))"
    using copy_rewrites_source [OF c] .
  have np: "\<not> entry_pseudo prog from" using not_pseudo [OF ok d(1)] copy_rewrite_dst [OF d(2)] by simp
  have home: "if b' = b then d' < x \<or> is_phi (sp_insns prog ! d') else block_dominates adj prog b' b"
    using av np defined_in_unique [OF ok d(1)] unfolding available_def by blast
  then have dom: "block_dominates adj prog b' b" by (auto split: if_splits)
  have r': "reach adj prog b'" by (rule dominator_reach [OF r dom])
  from source_of_copy [OF S r' d] show ?thesis unfolding source_before_def
  proof (elim disjE exE conjE)
    fix h dh assume h: "defined_in prog to h dh"
      and B: "if h = b' then \<not> is_phi (sp_insns prog ! d') \<and> (dh < d' \<or> is_phi (sp_insns prog ! dh)) else block_dominates adj prog h b'"
    show ?thesis
    proof (cases "h = b'")
      case True
      then have "if h = b then dh < x \<or> is_phi (sp_insns prog ! dh) else block_dominates adj prog h b"
        using B home by (auto split: if_splits)
      then show ?thesis using h unfolding available_def by blast
    next
      case False
      then have hb: "block_dominates adj prog h b" using B dominates_trans dom by simp
      have "h \<noteq> b"
      proof
        assume "h = b"
        then have "b = b'" using dominates_antisym [of adj prog b b'] B False dom r by simp
        then show False using \<open>h = b\<close> False by simp
      qed
      then have "if h = b then dh < x \<or> is_phi (sp_insns prog ! dh) else block_dominates adj prog h b" using hb by simp
      then show ?thesis using h unfolding available_def by blast
    qed
  qed (simp add: available_def)
qed


section \<open>Copies hold where they are available\<close>

definition copies_hold :: "adjacency \<Rightarrow> ssa_program \<Rightarrow> nat \<Rightarrow> nat \<Rightarrow> env \<Rightarrow> bool" where
  "copies_hold adj prog b x e \<longleftrightarrow>
     (\<forall>(from, to) \<in> set (copy_rewrites prog). available adj prog from b x \<longrightarrow> e from = None \<or> e from = e to)"

definition pseudos_hold :: "'w effects \<Rightarrow> ssa_program \<Rightarrow> env \<Rightarrow> bool" where
  "pseudos_hold fx prog e \<longleftrightarrow>
     (\<forall>d v k. defined_in prog v (sp_entry prog) d \<longrightarrow> pseudo_def fx (sp_insns prog ! d) = [(v, k)] \<longrightarrow> e v = None \<or> e v = Some k)"

lemma eval_insn_assigns:
  assumes "eval_insn fx i e w = Cont e1 w1"
  shows "if is_phi i \<or> def_dst i = None then e1 = e else \<exists>y. e1 = assign [(the (def_dst i), y)] e"
  using assms by (cases i) (auto simp: is_phi_def define_value_def goto_target_def split: option.splits prod.splits)

lemma eval_pseudo: "eval_insn fx i e w = Cont e1 w1 \<Longrightarrow> pseudo_def fx i = [(v, k)] \<Longrightarrow> e1 = assign [(v, k)] e"
  by (cases i) (auto simp: pseudo_def_def define_value_def)

lemma pseudo_def_some: "is_pseudo i \<Longrightarrow> def_dst i = Some v \<Longrightarrow> \<exists>k. pseudo_def fx i = [(v, k)]"
  by (cases i) (auto simp: pseudo_def_def is_pseudo_def)

lemma pseudo_def_is: "pseudo_def fx i = [(v, k)] \<Longrightarrow> is_pseudo i \<and> \<not> is_phi i"
  by (cases i) (auto simp: pseudo_def_def is_pseudo_def is_phi_def)

lemma pseudos_step:
  assumes ok: "ssa_ok adj prog" and b: "visits adj prog b" "x \<in> set (block_range prog b)"
    and e: "pseudos_hold fx prog e" and E: "eval_insn fx (sp_insns prog ! x) e w = Cont e1 w1"
  shows "pseudos_hold fx prog e1"
  unfolding pseudos_hold_def
proof (intro allI impI)
  fix d v k assume d: "defined_in prog v (sp_entry prog) d" "pseudo_def fx (sp_insns prog ! d) = [(v, k)]"
  show "e1 v = None \<or> e1 v = Some k"
  proof (cases "def_dst (sp_insns prog ! x) = Some v")
    case True
    then have "defined_in prog v b x" using b by (simp add: defined_in_def visits_def)
    then have "x = d" using defined_in_unique [OF ok d(1)] by simp
    then show ?thesis using eval_pseudo [OF E] d(2) by (simp add: assign_def)
  next
    case False
    then have "e1 v = e v" using eval_insn_assigns [OF E] by (auto simp: assign_def split: if_splits)
    then show ?thesis using e d unfolding pseudos_hold_def by metis
  qed
qed

text \<open>The definition of \<open>to\<close> is never executed where the copy \<open>from\<close> is available, unless it is a pseudo.\<close>

lemma source_not_redefined:
  assumes S: "strict_prog adj prog" and b: "visits adj prog b" "x \<in> set (block_range prog b)"
    and c: "(from, to) \<in> set (copy_rewrites prog)" and av: "available adj prog from b x"
    and to: "def_dst (sp_insns prog ! x) = Some to" "\<not> is_phi (sp_insns prog ! x)"
  shows "entry_pseudo prog to"
proof (rule ccontr)
  assume np: "\<not> entry_pseudo prog to"
  note ok = strict_progD(2) [OF S]
  have r: "reach adj prog b" using b(1) by (simp add: visits_def)
  have x: "defined_in prog to b x" using b to by (simp add: defined_in_def visits_def)
  obtain b' d' where d: "defined_in prog from b' d'" "(from, to) \<in> set (copy_rewrite prog (sp_insns prog ! d'))"
    using copy_rewrites_source [OF c] .
  have "\<not> entry_pseudo prog from" using not_pseudo [OF ok d(1)] copy_rewrite_dst [OF d(2)] by simp
  then have home: "if b' = b then d' < x \<or> is_phi (sp_insns prog ! d') else block_dominates adj prog b' b"
    using av defined_in_unique [OF ok d(1)] unfolding available_def by blast
  then have dom: "block_dominates adj prog b' b" by (auto split: if_splits)
  have "source_before adj prog to b' d'" by (rule source_of_copy [OF S dominator_reach [OF r dom] d])
  then have B: "if b = b' then \<not> is_phi (sp_insns prog ! d') \<and> (x < d' \<or> is_phi (sp_insns prog ! x)) else block_dominates adj prog b b'"
    using np defined_in_unique [OF ok x] unfolding source_before_def by blast
  show False
  proof (cases "b = b'")
    case False
    then show False using dominates_antisym [OF _ dom r] B by simp
  qed (use B home to(2) in auto)
qed

lemma copies_step:
  assumes S: "strict_prog adj prog" and b: "visits adj prog b" "x \<in> set (block_range prog b)"
    and e: "copies_hold adj prog b x e" "pseudos_hold fx prog e" and E: "eval_insn fx (sp_insns prog ! x) e w = Cont e1 w1"
  shows "copies_hold adj prog b (Suc x) e1"
proof -
  note ok = strict_progD(2) [OF S]
  have r: "reach adj prog b" using b(1) by (simp add: visits_def)
  note A = eval_insn_assigns [OF E]
  have "e1 from = None \<or> e1 from = e1 to" if c: "(from, to) \<in> set (copy_rewrites prog)" and av: "available adj prog from b (Suc x)" for "from" to
  proof (cases "def_dst (sp_insns prog ! x) = Some from \<and> \<not> is_phi (sp_insns prog ! x)")
    case True
    then have x: "defined_in prog from b x" using b by (simp add: defined_in_def visits_def)
    obtain b' d' where d: "defined_in prog from b' d'" "(from, to) \<in> set (copy_rewrite prog (sp_insns prog ! d'))"
      using copy_rewrites_source [OF c] .
    then have cx: "(from, to) \<in> set (copy_rewrite prog (sp_insns prog ! x))" using defined_in_unique [OF ok x] by simp
    obtain y where y: "e to = Some y" "e1 = assign [(from, y)] e" using copy_rewrite_other(4) [OF cx _ E] True by blast
    have "to \<noteq> from"
    proof
      assume "to = from"
      moreover have "available adj prog to b x"
        using strict_uses [OF strict_visit [OF strict_progD(3) [OF S] b]] True copy_rewrite_other(2) [OF cx] by blast
      moreover have "\<not> entry_pseudo prog from" using not_pseudo [OF ok x] copy_rewrite_dst [OF cx] by simp
      ultimately show False using defined_in_unique [OF ok x] True unfolding available_def by (metis nat_less_le)
    qed
    then show ?thesis using y by (simp add: assign_def)
  next
    case False
    have av': "available adj prog from b x"
    proof (cases "def_dst (sp_insns prog ! x) = Some from")
      case True
      then have "defined_in prog from b x" "is_phi (sp_insns prog ! x)" using b False by (auto simp: defined_in_def visits_def)
      then have "\<exists>d. defined_in prog from b d \<and> is_phi (sp_insns prog ! d)" by blast
      then show ?thesis unfolding available_def by (metis (no_types))
    qed (use available_Suc [OF av] in simp)
    then have H: "e from = None \<or> e from = e to" using e(1) c by (auto simp: copies_hold_def)
    have ef: "e1 from = e from" using A False by (auto simp: assign_def split: if_splits)
    show ?thesis
    proof (cases "def_dst (sp_insns prog ! x) = Some to \<and> \<not> is_phi (sp_insns prog ! x)")
      case True
      have "entry_pseudo prog to" by (rule source_not_redefined [OF S b c av']) (use True in simp_all)
      then obtain d where d: "defined_in prog to (sp_entry prog) d" "is_pseudo (sp_insns prog ! d)" by (auto simp: entry_pseudo_def)
      have "defined_in prog to b x" using True b by (simp add: defined_in_def visits_def)
      then have dx: "d = x" using defined_in_unique [OF ok d(1)] by simp
      obtain k where k: "pseudo_def fx (sp_insns prog ! d) = [(to, k)]" using pseudo_def_some [OF d(2)] d(1) by (auto simp: defined_in_def)
      have "e to = None \<or> e to = Some k" using e(2) d(1) k unfolding pseudos_hold_def by blast
      moreover have "e1 to = Some k" using eval_pseudo [OF E] k dx by (simp add: assign_def)
      ultimately show ?thesis using H ef by auto
    next
      case no: False
      then have "e1 to = e to" using A by (auto simp: assign_def split: if_splits)
      then show ?thesis using H ef by simp
    qed
  qed
  then show ?thesis by (auto simp: copies_hold_def)
qed


definition left_copies :: "'w effects \<Rightarrow> adjacency \<Rightarrow> ssa_program \<Rightarrow> nat \<Rightarrow> env \<Rightarrow> bool" where
  "left_copies fx adj prog pred e \<longleftrightarrow> pseudos_hold fx prog e
     \<and> (\<not> is_start_pred pred \<longrightarrow> copies_hold adj prog pred (sb_end (sp_blocks prog ! pred)) e)"

lemma phi_defs_dst:
  assumes "phi_defs pred e (block_body prog b) = Some defs" "map_of defs v = Some x" "b < length (sp_blocks prog)" "live_block prog b"
  obtains d inputs u where "defined_in prog v b d" "sp_insns prog ! d = SPhi v inputs" "map_of inputs pred = Some u" "e u = Some x"
proof -
  obtain inputs u where i: "SPhi v inputs \<in> set (block_body prog b)" "map_of inputs pred = Some u" "e u = Some x"
    using phi_defs_from [OF assms(1) map_of_SomeD [OF assms(2)]] by blast
  then obtain d where "d \<in> set (block_range prog b)" "sp_insns prog ! d = SPhi v inputs" by (force simp: block_body_def)
  then show thesis using that i assms(3,4) by (force simp: defined_in_def)
qed

lemma copies_enter:
  assumes S: "strict_prog adj prog" and b: "visits adj prog b" and pred: "came_from adj prog pred b"
    and e: "left_copies fx adj prog pred e" and defs: "phi_defs pred e (block_body prog b) = Some defs"
  shows "copies_hold adj prog b (sb_start (sp_blocks prog ! b)) (assign defs e) \<and> pseudos_hold fx prog (assign defs e)"
proof -
  note ok = strict_progD(2) [OF S]
  have bl: "b < length (sp_blocks prog)" "live_block prog b" "reach adj prog b" using b by (simp_all add: visits_def)
  have phi_only: "\<exists>d. defined_in prog v b d \<and> is_phi (sp_insns prog ! d)" if nn: "map_of defs v \<noteq> None" for v
  proof -
    obtain x where "map_of defs v = Some x" using nn by blast
    from phi_defs_dst [OF defs this bl(1,2)] obtain d inputs u where "defined_in prog v b d" "sp_insns prog ! d = SPhi v inputs" .
    then show ?thesis by (auto simp: is_phi_def)
  qed
  have pseudo: "assign defs e v = e v" if v: "entry_pseudo prog v" for v
  proof -
    obtain d where d: "defined_in prog v (sp_entry prog) d" "is_pseudo (sp_insns prog ! d)" using v by (auto simp: entry_pseudo_def)
    have "map_of defs v = None"
    proof (rule ccontr)
      assume "map_of defs v \<noteq> None"
      then obtain d' where "defined_in prog v b d'" "is_phi (sp_insns prog ! d')" using phi_only by blast
      then show False using defined_in_unique [OF ok d(1)] d(2) by (cases "sp_insns prog ! d") (auto simp: is_phi_def is_pseudo_def)
    qed
    then show ?thesis by (simp add: assign_def)
  qed
  have "pseudos_hold fx prog (assign defs e)"
    unfolding pseudos_hold_def
  proof (intro allI impI)
    fix d v k assume d: "defined_in prog v (sp_entry prog) d" "pseudo_def fx (sp_insns prog ! d) = [(v, k)]"
    then have "entry_pseudo prog v" using pseudo_def_is [OF d(2)] by (auto simp: entry_pseudo_def)
    from pseudo [OF this] show "assign defs e v = None \<or> assign defs e v = Some k"
      using e d unfolding left_copies_def pseudos_hold_def by metis
  qed
  moreover have "assign defs e from = None \<or> assign defs e from = assign defs e to"
    if c: "(from, to) \<in> set (copy_rewrites prog)" and av: "available adj prog from b (sb_start (sp_blocks prog ! b))" for "from" to
  proof -
    obtain b' d' where d: "defined_in prog from b' d'" "(from, to) \<in> set (copy_rewrite prog (sp_insns prog ! d'))"
      using copy_rewrites_source [OF c] .
    have np: "\<not> entry_pseudo prog from" using not_pseudo [OF ok d(1)] copy_rewrite_dst [OF d(2)] by simp
    have src: "source_before adj prog to b' d'" if "reach adj prog b'" by (rule source_of_copy [OF S that d])
    text \<open>The source is not a phi of this block.\<close>
    have to_same: "assign defs e to = e to" if "b' = b \<and> is_phi (sp_insns prog ! d') \<or> b' \<noteq> b \<and> block_dominates adj prog b' b"
    proof (cases "entry_pseudo prog to")
      case False
      have r': "reach adj prog b'" using that bl(3) dominator_reach by blast
      have "map_of defs to = None"
      proof (rule ccontr)
        assume "map_of defs to \<noteq> None"
        then obtain dt where dt: "defined_in prog to b dt" using phi_only by blast
        have B: "if b = b' then \<not> is_phi (sp_insns prog ! d') \<and> (dt < d' \<or> is_phi (sp_insns prog ! dt)) else block_dominates adj prog b b'"
          using src [OF r'] False defined_in_unique [OF ok dt] unfolding source_before_def by blast
        then show False using that dominates_antisym [of adj prog b b'] bl(3) by (auto split: if_splits)
      qed
      then show ?thesis by (simp add: assign_def)
    qed (rule pseudo)
    from available_enter [OF av pred] np consider
      (phi) "b' = b" "is_phi (sp_insns prog ! d')"
      | (dom) "b' \<noteq> b" "block_dominates adj prog b' b" "visits adj prog pred" "available adj prog from pred (sb_end (sp_blocks prog ! pred))"
      using defined_in_unique [OF ok d(1)] by blast
    then show ?thesis
    proof cases
      case dom
      have "map_of defs from = None" using phi_only [of "from"] defined_in_unique [OF ok d(1)] dom(1) by blast
      moreover have "e from = None \<or> e from = e to"
        using e dom(3,4) c start_pred_not_visited [OF ok] by (auto simp: left_copies_def copies_hold_def)
      ultimately show ?thesis using to_same dom(1,2) by (auto simp: assign_def)
    next
      case phi
      then obtain dst inputs where i: "sp_insns prog ! d' = SPhi dst inputs" by (cases "sp_insns prog ! d'") (auto simp: is_phi_def)
      then have "dst = from" using d(1) by (simp add: defined_in_def)
      note C = copy_rewrite_phi [OF d(2) [unfolded i]]
      show ?thesis
      proof (cases "map_of defs from")
        case (Some x)
        obtain d2 inputs2 u where u: "defined_in prog from b d2" "sp_insns prog ! d2 = SPhi from inputs2" "map_of inputs2 pred = Some u" "e u = Some x"
          using phi_defs_dst [OF defs Some bl(1,2)] .
        have "d2 = d'" using defined_in_unique [OF ok d(1) u(1)] by simp
        then have inp: "inputs2 = inputs" using u(2) i by simp
        have I: "inputs_strict adj prog b inputs"
          using strict_phi [OF strict_visit [OF strict_progD(3) [OF S] b] i] d(1) phi(1) by (simp add: defined_in_def)
        have "is_start_pred pred \<or> live_block prog pred" using pred by (auto simp: came_from_def visits_def)
        then have "u = from \<or> u = to" using C map_of_SomeD [OF u(3)] inp \<open>dst = from\<close> by auto
        moreover have "e from = Some x \<Longrightarrow> e to = Some x" if "u = from"
        proof -
          have A: "if is_start_pred pred then entry_pseudo prog u else available adj prog u pred (sb_end (sp_blocks prog ! pred))"
            by (rule strict_inputs(2) [OF ok I pred]) (use u(3) inp in simp)
          then have "\<not> is_start_pred pred" using np that by auto
          then show "e from = Some x \<Longrightarrow> e to = Some x" using A that e c by (force simp: left_copies_def copies_hold_def)
        qed
        ultimately have "e to = Some x" using u(4) by auto
        then show ?thesis using Some to_same phi by (simp add: assign_def)
      next
        case None
        have "SPhi from inputs \<in> set (block_body prog b)"
          using d(1) i phi(1) \<open>dst = from\<close> by (force simp: block_body_def defined_in_def)
        from phi_defs_defined [OF defs this] None show ?thesis by simp
      qed
    qed
  qed
  ultimately show ?thesis by (auto simp: copies_hold_def)
qed

text \<open>All the rewrites of a value at once.\<close>

lemma rewrite_all_value:
  assumes S: "strict_prog adj prog" and r: "reach adj prog b" and e: "copies_hold adj prog b x e"
    and rs: "set rs \<subseteq> set (copy_rewrites prog)" and v: "available adj prog v b x"
  shows "available adj prog (rewrite_all rs v) b x \<and> (\<forall>y. e v = Some y \<longrightarrow> e (rewrite_all rs v) = Some y)"
  using rs v
proof (induction rs arbitrary: v)
  case (Cons ft rs)
  obtain fr to where ft: "ft = (fr, to)" by force
  have "available adj prog (rewrite_value fr to v) b x \<and> (\<forall>y. e v = Some y \<longrightarrow> e (rewrite_value fr to v) = Some y)"
  proof (cases "v = fr")
    case True
    have c: "(fr, to) \<in> set (copy_rewrites prog)" using Cons.prems(1) ft by simp
    then show ?thesis using available_source [OF S r c] Cons.prems(2) True e by (auto simp: rewrite_value_def copies_hold_def)
  qed (use Cons.prems(2) in \<open>simp add: rewrite_value_def\<close>)
  then show ?case using Cons.IH [of "rewrite_value fr to v"] Cons.prems(1) ft by (simp add: rewrite_all_def)
qed (simp add: rewrite_all_def)

lemma rewrite_all_available:
  assumes "strict_prog adj prog" "reach adj prog b" "available adj prog v b x"
  shows "available adj prog (rewrite_all (copy_rewrites prog) v) b x"
proof -
  have "copies_hold adj prog b x Map.empty" by (simp add: copies_hold_def)
  from rewrite_all_value [OF assms(1,2) this order_refl assms(3)] show ?thesis by simp
qed

lemma rewrite_all_pseudo:
  assumes ok: "ssa_ok adj prog" and v: "entry_pseudo prog v"
  shows "rewrite_all (copy_rewrites prog) v = v"
proof -
  have nv: "v \<notin> fst ` set (copy_rewrites prog)"
  proof
    assume "v \<in> fst ` set (copy_rewrites prog)"
    then obtain to where "(v, to) \<in> set (copy_rewrites prog)" by auto
    then obtain b d where "defined_in prog v b d" "(v, to) \<in> set (copy_rewrite prog (sp_insns prog ! d))"
      using copy_rewrites_source by blast
    then show False using not_pseudo [OF ok] copy_rewrite_dst v by blast
  qed
  have "rewrite_all rs v = v" if "set rs \<subseteq> set (copy_rewrites prog)" for rs
    using that
  proof (induction rs)
    case (Cons ft rs)
    obtain fr to where ft: "ft = (fr, to)" by force
    then have "v \<noteq> fr" using Cons.prems nv by force
    then show ?case using Cons ft by (simp add: rewrite_all_def rewrite_value_def)
  qed (simp add: rewrite_all_def)
  then show ?thesis by blast
qed


section \<open>The pass\<close>

definition renamed :: "ssa_program \<Rightarrow> (ssa_value \<Rightarrow> ssa_value) \<Rightarrow> ssa_insn list" where
  "renamed prog f = map (\<lambda>x. if x \<in> set (live_range prog) then rename f (sp_insns prog ! x) else sp_insns prog ! x)
     [0..<length (sp_insns prog)]"

lemma renamed_simps: "length (renamed prog f) = length (sp_insns prog)"
  "ssa_ok adj prog \<Longrightarrow> x \<in> set (live_range prog) \<Longrightarrow> renamed prog f ! x = rename f (sp_insns prog ! x)"
  by (simp_all add: renamed_def live_range_bound)

lemma copy_propagate_eq:
  assumes "ssa_ok adj prog"
  shows "copy_propagate prog = (prog\<lparr>sp_insns := renamed prog (rewrite_all (copy_rewrites prog))\<rparr>,
    \<exists>x \<in> set (live_range prog). step_flag (copy_rewrites prog) (sp_insns prog ! x))"
proof (cases "copy_rewrites prog = []")
  case True
  have "rewrite_all [] = (\<lambda>v. v)" by (simp add: rewrite_all_def [abs_def] id_def)
  then have "renamed prog (rewrite_all []) = sp_insns prog" by (simp add: renamed_def map_nth cong: if_cong)
  then show ?thesis using True by (simp add: copy_propagate_def step_flag_def)
next
  case False
  have "fold (rewrite_at (copy_rewrites prog)) (live_range prog) (sp_insns prog, False)
      = (renamed prog (rewrite_all (copy_rewrites prog)), \<exists>x \<in> set (live_range prog). step_flag (copy_rewrites prog) (sp_insns prog ! x))"
    using fold_rewrite [OF live_range_distinct [OF assms]] live_range_bound [OF assms] by (simp add: renamed_def)
  then show ?thesis using False by (simp add: copy_propagate_def Let_def)
qed

text \<open>Programs with the same live edges have the same dominators.\<close>

lemma same_graph:
  assumes entry: "sp_entry q = sp_entry p"
    and succs: "\<And>b. reach adj p b \<Longrightarrow> live_successors adj q b = live_successors adj p b"
  shows "reach adj q b = reach adj p b" and "block_dominates adj q a b = block_dominates adj p a b"
proof -
  have pq: "(sp_entry p, b) \<in> (r p)\<^sup>* \<longleftrightarrow> (sp_entry p, b) \<in> (r q)\<^sup>*"
    if r: "\<And>x y. reach adj p x \<Longrightarrow> (x, y) \<in> r p \<longleftrightarrow> (x, y) \<in> r q" and sub: "\<And>b. (sp_entry p, b) \<in> (r p)\<^sup>* \<Longrightarrow> reach adj p b"
    for r :: "ssa_program \<Rightarrow> (nat \<times> nat) set" and b
  proof
    assume "(sp_entry p, b) \<in> (r p)\<^sup>*"
    then show "(sp_entry p, b) \<in> (r q)\<^sup>*"
    proof (induction rule: rtrancl_induct)
      case (step y z)
      then show ?case using r sub by (meson rtrancl.rtrancl_into_rtrancl)
    qed simp
  next
    assume "(sp_entry p, b) \<in> (r q)\<^sup>*"
    then show "(sp_entry p, b) \<in> (r p)\<^sup>*"
    proof (induction rule: rtrancl_induct)
      case (step y z)
      then show ?case using r sub by (meson rtrancl.rtrancl_into_rtrancl)
    qed simp
  qed
  show "reach adj q b = reach adj p b"
    unfolding reach_def entry
    by (rule pq [where r = "\<lambda>p. succ_rel (live_successors adj p)", symmetric]) (use succs in \<open>auto simp: succ_rel_def reach_def\<close>)
  have "(sp_entry p, b) \<in> (avoiding adj p a)\<^sup>* \<longleftrightarrow> (sp_entry p, b) \<in> (avoiding adj q a)\<^sup>*"
    by (rule pq [where r = "\<lambda>p. avoiding adj p a"]) (use succs avoiding_reach in \<open>auto simp: avoiding_def\<close>)
  then show "block_dominates adj q a b = block_dominates adj p a b" by (simp add: block_dominates_def entry)
qed

lemma strict_update:
  assumes S: "strict_prog adj prog" and len: "length insns = length (sp_insns prog)"
    and same: "\<And>x. x \<in> set (live_range prog) \<Longrightarrow> same_control (sp_insns prog ! x) (insns ! x)
      \<and> def_dst (insns ! x) = def_dst (sp_insns prog ! x) \<and> is_phi (insns ! x) = is_phi (sp_insns prog ! x)
      \<and> (is_pseudo (sp_insns prog ! x) \<longrightarrow> is_pseudo (insns ! x))"
    and uses: "\<And>b x v. visits adj prog b \<Longrightarrow> x \<in> set (block_range prog b) \<Longrightarrow> \<not> is_phi (insns ! x) \<Longrightarrow>
      v \<in> set (insn_uses (insns ! x)) \<Longrightarrow> available adj prog v b x"
    and phis: "\<And>b x dst inputs. visits adj prog b \<Longrightarrow> x \<in> set (block_range prog b) \<Longrightarrow> insns ! x = SPhi dst inputs \<Longrightarrow>
      inputs_strict adj prog b inputs"
  shows "strict_prog adj (prog\<lparr>sp_insns := insns\<rparr>)"
proof -
  let ?q = "prog\<lparr>sp_insns := insns\<rparr>"
  note ok = strict_progD(2) [OF S]
  have visit: "visits adj prog b" if "reach adj prog b" for b by (rule strict_live [OF strict_progD [OF S] that])
  have succs: "live_successors adj ?q b = live_successors adj prog b" if "reach adj prog b" for b
    by (rule live_successors_update) (use same visits_range [OF visit [OF that]] in blast)
  note G = same_graph [of ?q prog adj, OF _ succs, simplified]
  have def: "defined_in ?q v b d \<longleftrightarrow> defined_in prog v b d" for v b d
    using same [OF live_rangeI, of b d] by (auto simp: defined_in_def)
  have live_d: "d \<in> set (live_range prog)" if "defined_in prog v b d" for v b d using that by (auto simp: defined_in_def intro: live_rangeI)
  have pseudo: "entry_pseudo ?q v" if "entry_pseudo prog v" for v
    using that same live_d by (auto simp: entry_pseudo_def def)
  have av: "available adj ?q v b x" if a: "available adj prog v b x" for v b x
  proof (cases "entry_pseudo prog v")
    case False
    then obtain b' d where d: "defined_in prog v b' d" "if b' = b then d < x \<or> is_phi (sp_insns prog ! d) else block_dominates adj prog b' b"
      using a unfolding available_def by blast
    then have "if b' = b then d < x \<or> is_phi (sp_insns ?q ! d) else block_dominates adj ?q b' b"
      using same [OF live_d [OF d(1)]] by (simp add: G)
    then show ?thesis using d(1) def unfolding available_def by blast
  qed (simp add: available_def pseudo)
  have "strict_at adj ?q b x" if b: "visits adj prog b" "x \<in> set (block_range prog b)" for b x
  proof -
    note x = same [OF visits_range [OF b]]
    have ctl: "is_control (insns ! x) \<Longrightarrow> Suc x = sb_end (sp_blocks prog ! b)"
      using strict_visit [OF strict_progD(3) [OF S] b] x by (simp add: strict_at_def same_control_def)
    show ?thesis
    proof (cases "is_phi (insns ! x)")
      case False
      then show ?thesis using ctl av [OF uses [OF b False]]
        by (cases "insns ! x") (auto simp: strict_at_def is_phi_def)
    next
      case True
      then obtain dst inputs where i: "insns ! x = SPhi dst inputs" by (cases "insns ! x") (auto simp: is_phi_def)
      have "inputs_strict adj ?q b inputs"
        using phis [OF b i] pseudo av succs unfolding inputs_strict_def by (auto simp: G)
      then show ?thesis using i ctl by (simp add: strict_at_def is_control_def)
    qed
  qed
  then have "strict_ssa adj ?q" using visit by (simp add: strict_ssa_def G visits_def)
  moreover have "ssa_ok adj ?q" by (rule ssa_ok_update [OF ok len]) (use same in blast)
  ultimately show ?thesis using strict_progD(1) [OF S] by (simp add: strict_prog_def)
qed

lemma copy_strict:
  assumes S: "strict_prog adj prog"
  shows "strict_prog adj (prog\<lparr>sp_insns := renamed prog (rewrite_all (copy_rewrites prog))\<rparr>)"
proof (rule strict_update [OF S])
  note ok = strict_progD(2) [OF S]
  let ?f = "rewrite_all (copy_rewrites prog)"
  show "length (renamed prog ?f) = length (sp_insns prog)" by (simp add: renamed_simps)
  fix x assume x: "x \<in> set (live_range prog)"
  show "same_control (sp_insns prog ! x) (renamed prog ?f ! x)
      \<and> def_dst (renamed prog ?f ! x) = def_dst (sp_insns prog ! x) \<and> is_phi (renamed prog ?f ! x) = is_phi (sp_insns prog ! x)
      \<and> (is_pseudo (sp_insns prog ! x) \<longrightarrow> is_pseudo (renamed prog ?f ! x))"
    by (simp add: renamed_simps(2) [OF ok x])
next
  note ok = strict_progD(2) [OF S]
  let ?f = "rewrite_all (copy_rewrites prog)"
  fix b x assume b: "visits adj prog b" "x \<in> set (block_range prog b)"
  then have r: "reach adj prog b" and x: "x \<in> set (live_range prog)" by (simp add: visits_def, rule visits_range)
  note at = strict_visit [OF strict_progD(3) [OF S] b]
  show "available adj prog v b x" if "\<not> is_phi (renamed prog ?f ! x)" "v \<in> set (insn_uses (renamed prog ?f ! x))" for v
    using that rewrite_all_available [OF S r] strict_uses [OF at] by (auto simp: renamed_simps(2) [OF ok x])
  show "inputs_strict adj prog b inputs" if i: "renamed prog ?f ! x = SPhi dst inputs" for dst inputs
  proof -
    have "is_phi (sp_insns prog ! x)" using i renamed_simps(2) [OF ok x, of ?f] rename_kind(2) [of ?f "sp_insns prog ! x"] by (simp add: is_phi_def)
    then obtain d0 inputs0 where i0: "sp_insns prog ! x = SPhi d0 inputs0" by (cases "sp_insns prog ! x") (auto simp: is_phi_def)
    then have eq: "inputs = map (\<lambda>(pred, v). (pred, ?f v)) inputs0" using i by (simp add: renamed_simps(2) [OF ok x])
    have I: "inputs_strict adj prog b inputs0" by (rule strict_phi [OF at i0])
    have "fst ` set inputs = fst ` set inputs0" by (force simp: eq)
    moreover have "(is_start_pred pred \<longrightarrow> entry_pseudo prog (?f v))
        \<and> (reach adj prog pred \<longrightarrow> available adj prog (?f v) pred (sb_end (sp_blocks prog ! pred)))" if "(pred, v) \<in> set inputs0" for pred v
      using I that rewrite_all_pseudo [OF ok] rewrite_all_available [OF S] by (auto simp: inputs_strict_def)
    ultimately show ?thesis using I by (auto simp: inputs_strict_def eq)
  qed
qed

lemma copy_sim:
  assumes S: "strict_prog adj prog"
  shows "simulates adj prog (prog\<lparr>sp_insns := renamed prog (rewrite_all (copy_rewrites prog))\<rparr>) TYPE('w)"
  unfolding simulates_def
proof (intro allI impI)
  fix fx :: "'w effects" and n w assume run: "run_ssa fx adj prog n w \<noteq> Some Stuck"
  note ok = strict_progD(2) [OF S]
  let ?f = "rewrite_all (copy_rewrites prog)"
  let ?P = "\<lambda>b x e. copies_hold adj prog b x e \<and> pseudos_hold fx prog e" let ?PE = "left_copies fx adj prog"
  note at = renamed_simps(2) [OF ok visits_range]
  show "run_ssa fx adj (prog\<lparr>sp_insns := renamed prog ?f\<rparr>) n w = run_ssa fx adj prog n w"
  proof (rule insns_sim [where P = ?P and PE = ?PE, OF ok])
    fix b x e e' w assume b: "visits adj prog b" "x \<in> set (block_range prog b)" and P: "?P b x e" and e: "env_le UNIV e e'"
    have r: "reach adj prog b" using b(1) by (simp add: visits_def)
    show "flow_le UNIV (eval_insn fx (sp_insns prog ! x) e w) (eval_insn fx (renamed prog ?f ! x) e' w)"
    proof (cases "is_phi (sp_insns prog ! x)")
      case True
      then show ?thesis unfolding at [OF b] using e by (cases "sp_insns prog ! x") (simp_all add: is_phi_def)
    next
      case False
      have "e' (?f v) = Some y" if "v \<in> set (insn_uses (sp_insns prog ! x))" "e v = Some y" for v y
        using rewrite_all_value [OF S r conjunct1 [OF P] order_refl] strict_uses [OF strict_visit [OF strict_progD(3) [OF S] b] False that(1)]
          that(2) env_leD [OF e UNIV_I] by blast
      then show ?thesis unfolding at [OF b] by (intro eval_insn_rename [OF e]) blast
    qed
  next
    fix b x e w e1 w1 assume b: "visits adj prog b" "x \<in> set (block_range prog b)" and P: "?P b x e"
      and E: "eval_insn fx (sp_insns prog ! x) e w = Cont e1 w1"
    show "?P b (Suc x) e1" using copies_step [OF S b _ _ E] pseudos_step [OF ok b _ E] P by blast
  next
    fix b x e assume b: "visits adj prog b" "x \<in> set (block_range prog b)" and P: "?P b x e" and c: "is_control (sp_insns prog ! x)"
    have "Suc x = sb_end (sp_blocks prog ! b)" "def_dst (sp_insns prog ! x) = None"
      using strict_visit [OF strict_progD(3) [OF S] b] c by (auto simp: strict_at_def is_control_def split: ssa_insn.splits)
    then have "copies_hold adj prog b (sb_end (sp_blocks prog ! b)) e"
      using P available_Suc [of adj prog _ b x] by (auto simp: copies_hold_def)
    then show "?PE b e" using P by (simp add: left_copies_def)
  next
    fix b x e assume "sb_end (sp_blocks prog ! b) \<le> x" and P: "?P b x e"
    then have "copies_hold adj prog b (sb_end (sp_blocks prog ! b)) e" using available_mono by (fastforce simp: copies_hold_def)
    then show "?PE b e" using P by (simp add: left_copies_def)
  next
    fix b x pred e e' ds assume b: "visits adj prog b" "x \<in> set (block_range prog b)" and pred: "came_from adj prog pred b"
      and P: "?PE pred e" and e: "env_le UNIV e e'" and ds: "those (phi_def pred e (sp_insns prog ! x)) = Some ds"
    show "those (phi_def pred e' (renamed prog ?f ! x)) = Some ds"
    proof (cases "sp_insns prog ! x")
      case (SPhi dst inputs)
      then obtain v y where v: "map_of inputs pred = Some v" "e v = Some y" "ds = [(dst, y)]"
        using ds by (auto simp: phi_def_def bind_eq_Some_conv split: option.splits)
      have "map_of (map (\<lambda>(pred, v). (pred, ?f v)) inputs) pred = Some (?f v)" using v(1) by (simp add: map_of_map)
      moreover have "e (?f v) = Some y"
      proof -
        have A: "if is_start_pred pred then entry_pseudo prog v else available adj prog v pred (sb_end (sp_blocks prog ! pred))"
          by (rule strict_inputs(2) [OF ok strict_phi [OF strict_visit [OF strict_progD(3) [OF S] b] SPhi] pred v(1)])
        show ?thesis
        proof (cases "is_start_pred pred")
          case True
          then show ?thesis using A v(2) rewrite_all_pseudo [OF ok] by simp
        next
          case False
          then have "reach adj prog pred" using pred by (simp add: came_from_def visits_def)
          then show ?thesis using rewrite_all_value [OF S _ _ order_refl, of pred "sb_end (sp_blocks prog ! pred)" e v] A False P v(2)
            by (simp add: left_copies_def)
        qed
      qed
      then have "e' (?f v) = Some y" using env_leD [OF e UNIV_I] by simp
      ultimately show ?thesis unfolding at [OF b] SPhi using v(3) by (simp add: phi_def_def)
    qed (use ds in \<open>simp_all add: at [OF b] phi_def_def\<close>)
  next
    fix b pred e defs assume "visits adj prog b" "came_from adj prog pred b" "?PE pred e" "phi_defs pred e (block_body prog b) = Some defs"
    then show "?P b (sb_start (sp_blocks prog ! b)) (assign defs e)" by (rule copies_enter [OF S])
  next
    assume live: "live_block prog (sp_entry prog)"
    have E: "sp_entry prog < length (sp_blocks prog)" using ok by (simp add: ssa_ok_def edges_ok_def)
    have "map (pseudo_def fx) (block_body (prog\<lparr>sp_insns := renamed prog ?f\<rparr>) (sp_entry prog)) = map (pseudo_def fx) (block_body prog (sp_entry prog))"
      using renamed_simps(2) [OF ok live_rangeI [OF E live]] by (auto simp: block_body_def)
    then have "entry_env fx (prog\<lparr>sp_insns := renamed prog ?f\<rparr>) = entry_env fx prog" by (simp add: entry_env_def)
    moreover have "pseudos_hold fx prog (entry_env fx prog)"
      using entry_env_iff [OF ok live] unfolding pseudos_hold_def defined_in_def by blast
    ultimately show "?PE start_pred (entry_env fx prog) \<and> env_le UNIV (entry_env fx prog) (entry_env fx (prog\<lparr>sp_insns := renamed prog ?f\<rparr>))"
      by (simp add: left_copies_def is_start_pred_def)
  qed (use run in \<open>simp_all add: renamed_simps(2) [OF ok]\<close>)
qed

lemma copy_table:
  assumes "ssa_ok adj prog" "table_ok t prog"
  shows "table_ok t (prog\<lparr>sp_insns := renamed prog f\<rparr>)"
proof -
  have "table_insn t i \<Longrightarrow> table_insn t (rename f i)" for i
    by (cases i) (auto simp: table_insn_def split: option.splits if_splits)
  then show ?thesis using assms(2) by (simp add: table_ok_def list_all_iff renamed_simps(2) [OF assms(1)])
qed

end
