(* ===== verification/SsaStrict.thy ===== *)
theory SsaStrict
  imports SsaCopy
begin

text \<open>
  Every pass keeps a strict program strict: folding replaces a use of values by a constant, the
  sweep keeps the definition of whatever a kept instruction reads, and pruning only forgets inputs
  and blocks that no run reaches.
\<close>

section \<open>Folding keeps strictness\<close>

fun is_binop :: "ssa_insn \<Rightarrow> bool" where
  "is_binop (SBinOp d w op lhs rhs) = True"
| "is_binop i = False"

definition binops :: "ssa_program \<Rightarrow> nat" where
  "binops prog = length (filter is_binop (live_insns prog))"

lemma fold_value_binop: "fold_value t i = Some (dst, k) \<Longrightarrow> is_binop i \<and> def_dst i = Some dst"
  by (cases i) (auto simp: fold_value_def)

lemma fold_step_strict:
  assumes S: "strict_prog adj prog" and pos: "pos \<in> set (live_range prog)" and f: "fold_value t (sp_insns prog ! pos) = Some (dst, k)"
  shows "strict_prog adj (prog\<lparr>sp_insns := (sp_insns prog)[pos := SConst dst k]\<rparr>)"
proof (rule strict_update [OF S])
  note ok = strict_progD(2) [OF S]
  let ?is = "(sp_insns prog)[pos := SConst dst k]"
  have at: "?is ! x = (if x = pos then SConst dst k else sp_insns prog ! x)" if "x \<in> set (live_range prog)" for x
    using live_range_bound [OF ok that] by (simp add: nth_list_update)
  have i: "is_binop (sp_insns prog ! pos)" "def_dst (sp_insns prog ! pos) = Some dst" using fold_value_binop [OF f] by simp_all
  show "same_control (sp_insns prog ! x) (?is ! x) \<and> def_dst (?is ! x) = def_dst (sp_insns prog ! x) \<and> is_phi (?is ! x) = is_phi (sp_insns prog ! x)
      \<and> (is_pseudo (sp_insns prog ! x) \<longrightarrow> is_pseudo (?is ! x))" if "x \<in> set (live_range prog)" for x
    using i unfolding at [OF that] by (cases "sp_insns prog ! pos") (auto simp: same_control_def is_control_def dead_taken_def is_phi_def is_pseudo_def)
  show "available adj prog v b x" if b: "visits adj prog b" "x \<in> set (block_range prog b)" and v: "\<not> is_phi (?is ! x)" "v \<in> set (insn_uses (?is ! x))" for b x v
    using v strict_uses [OF strict_visit [OF strict_progD(3) [OF S] b]] unfolding at [OF visits_range [OF b]] by (auto split: if_splits)
  show "inputs_strict adj prog b inputs" if b: "visits adj prog b" "x \<in> set (block_range prog b)" and v: "?is ! x = SPhi d inputs" for b x d inputs
    using v strict_phi [OF strict_visit [OF strict_progD(3) [OF S] b]] unfolding at [OF visits_range [OF b]] by (auto split: if_splits)
qed simp

lemma filter_update_less:
  assumes "i < length xs" "p (xs ! i)" "\<not> p y"
  shows "length (filter p (xs[i := y])) < length (filter p xs)"
  using assms
proof (induction xs arbitrary: i)
  case (Cons x xs)
  then show ?case by (cases i) auto
qed simp

lemma fold_step_binops:
  assumes ok: "ssa_ok adj prog" and pos: "pos \<in> set (live_range prog)" and f: "fold_value t (sp_insns prog ! pos) = Some (dst, k)"
  shows "binops (prog\<lparr>sp_insns := (sp_insns prog)[pos := SConst dst k]\<rparr>) < binops prog"
proof -
  obtain i where i: "i < length (live_range prog)" "live_range prog ! i = pos" using pos by (metis in_set_conv_nth)
  have "live_insns (prog\<lparr>sp_insns := (sp_insns prog)[pos := SConst dst k]\<rparr>) = (live_insns prog)[i := SConst dst k]"
  proof (rule nth_equalityI)
    fix j assume "j < length (live_insns (prog\<lparr>sp_insns := (sp_insns prog)[pos := SConst dst k]\<rparr>))"
    then have j: "j < length (live_range prog)" by (simp add: live_insns_def)
    have "live_range prog ! j = pos \<longleftrightarrow> j = i" using live_range_distinct [OF ok] i j by (metis nth_eq_iff_index_eq)
    then show "live_insns (prog\<lparr>sp_insns := (sp_insns prog)[pos := SConst dst k]\<rparr>) ! j = (live_insns prog)[i := SConst dst k] ! j"
      using i j live_range_bound [OF ok pos] by (cases "j = i") (simp_all add: live_insns_def)
  qed (simp add: live_insns_def)
  then show ?thesis using filter_update_less [of i "live_insns prog" is_binop "SConst dst k"] fold_value_binop [OF f] i
    by (simp add: binops_def live_insns_def)
qed

lemma fold_all_strict:
  assumes "strict_prog adj prog" "set ps \<subseteq> set (live_range prog)" "fold fold_at ps (sp_insns prog, t, c) = (insns, t', c')"
  shows "strict_prog adj (prog\<lparr>sp_insns := insns\<rparr>)
    \<and> (if c' \<and> \<not> c then binops (prog\<lparr>sp_insns := insns\<rparr>) < binops prog
       else binops (prog\<lparr>sp_insns := insns\<rparr>) \<le> binops prog \<and> (c' \<or> insns = sp_insns prog))"
  using assms
proof (induction ps arbitrary: prog t c)
  case Nil
  then have "insns = sp_insns prog" "c' = c" by simp_all
  then show ?case using Nil by simp
next
  case (Cons p ps)
  show ?case
  proof (cases "fold_value t (sp_insns prog ! p)")
    case None
    then have "fold_at p (sp_insns prog, t, c) = (sp_insns prog, t, c)" by (simp add: fold_at_def)
    then have "fold fold_at ps (sp_insns prog, t, c) = (insns, t', c')" using Cons.prems(3) by simp
    then show ?thesis by (rule Cons.IH [OF Cons.prems(1), rotated]) (use Cons.prems(2) in simp)
  next
    case (Some dk)
    obtain dst k where dk: "dk = (dst, k)" by force
    let ?p = "prog\<lparr>sp_insns := (sp_insns prog)[p := SConst dst k]\<rparr>"
    have p: "p \<in> set (live_range prog)" using Cons.prems(2) by simp
    have "fold_at p (sp_insns prog, t, c) = (sp_insns ?p, consts_record dst k t, True)"
      using Some dk by (simp add: fold_at_def)
    then have F: "fold fold_at ps (sp_insns ?p, consts_record dst k t, True) = (insns, t', c')" using Cons.prems(3) by simp
    have "c'"
    proof -
      have "snd (snd (fold fold_at ps (is, t, True)))" for "is" t
        by (induction ps arbitrary: "is" t) (auto simp: fold_at_def split: option.split)
      from this [of "sp_insns ?p" "consts_record dst k t"] show ?thesis unfolding F by simp
    qed
    have "strict_prog adj ?p" by (rule fold_step_strict [OF Cons.prems(1) p Some [unfolded dk]])
    from Cons.IH [OF this _ F] Cons.prems(2) have "strict_prog adj (prog\<lparr>sp_insns := insns\<rparr>)"
      "binops (prog\<lparr>sp_insns := insns\<rparr>) \<le> binops ?p" by (auto split: if_splits)
    moreover have "binops ?p < binops prog" by (rule fold_step_binops [OF strict_progD(2) [OF Cons.prems(1)] p Some [unfolded dk]])
    ultimately show ?thesis using \<open>c'\<close> by simp
  qed
qed

lemma constant_fold_strict:
  assumes "strict_prog adj prog" "constant_fold prog t = (prog', t', c)"
  shows "strict_prog adj prog' \<and> binops prog' \<le> binops prog \<and> (if c then binops prog' < binops prog else prog' = prog)"
proof -
  obtain insns where f: "fold fold_at (live_range prog) (sp_insns prog, t, False) = (insns, t', c)" "prog' = prog\<lparr>sp_insns := insns\<rparr>"
    using assms(2) by (auto simp: constant_fold_def split: prod.splits)
  from fold_all_strict [OF assms(1) order_refl f(1)] show ?thesis unfolding f(2) by (cases c) auto
qed


section \<open>Sweeping keeps strictness\<close>

text \<open>The place of a kept instruction after the sweep.\<close>

definition place :: "ssa_program \<Rightarrow> bool list \<Rightarrow> nat \<Rightarrow> nat \<Rightarrow> nat" where
  "place prog marked b x = length (concat (map (block_kept prog marked) [0..<b]))
     + length (filter ((!) marked) [sb_start (sp_blocks prog ! b)..<x])"

lemma filter_upt_split:
  "s \<le> x \<Longrightarrow> x < t \<Longrightarrow> filter p [s..<t] = filter p [s..<x] @ filter p [x] @ filter p [Suc x..<t]"
  by (metis (no_types) append_Cons append_Nil filter_append le_add_diff_inverse less_imp_le_nat upt_add_eq_append upt_conv_Cons)

lemma filter_upt_nth:
  assumes "s \<le> x" "x < t" "p x"
  shows "length (filter p [s..<x]) < length (filter p [s..<t])" "filter p [s..<t] ! length (filter p [s..<x]) = x"
  using filter_upt_split [OF assms(1,2), of p] assms(3) by (simp_all add: nth_append)

lemma filter_upt_index:
  assumes "i < length (filter p [s..<t])"
  obtains x where "s \<le> x" "x < t" "p x" "i = length (filter p [s..<x])"
proof -
  let ?x = "filter p [s..<t] ! i"
  have "?x \<in> set (filter p [s..<t])" using assms by (rule nth_mem)
  then have x: "s \<le> ?x" "?x < t" "p ?x" by auto
  have "distinct (filter p [s..<t])" by simp
  then have "i = length (filter p [s..<?x])" using filter_upt_nth [of s ?x t p] x assms by (metis nth_eq_iff_index_eq)
  with x show thesis by (rule that)
qed

lemma filter_upt_mono: "x \<le> y \<Longrightarrow> length (filter p [s..<x]) \<le> length (filter p [s..<y])"
proof (cases "s \<le> x")
  case True
  then show "x \<le> y \<Longrightarrow> ?thesis" by (metis filter_append le_add1 length_append le_add_diff_inverse upt_add_eq_append)
qed simp

lemma place_less:
  assumes "x < y" "sb_start (sp_blocks prog ! b) \<le> x" "marked ! x"
  shows "place prog marked b x < place prog marked b y"
  using filter_upt_nth(1) [OF assms(2,1), of "(!) marked"] assms(3) by (simp add: place_def)

lemma place_mono: "x \<le> y \<Longrightarrow> place prog marked b x \<le> place prog marked b y"
  by (simp add: place_def filter_upt_mono)

lemma sweep_range:
  assumes "b < length (sp_blocks prog)" "live_block prog b"
  shows "x' \<in> set (block_range (sweep prog marked) b) \<longleftrightarrow> (\<exists>x \<in> set (block_range prog b). marked ! x \<and> x' = place prog marked b x)"
    (is "?l \<longleftrightarrow> ?r")
proof
  let ?S = "length (concat (map (block_kept prog marked) [0..<b]))"
  have len: "length (block_kept prog marked b) = length (filter ((!) marked) (block_range prog b))" using assms(2) by (simp add: block_kept_def)
  {
    assume ?l
    then have "?S \<le> x'" "x' - ?S < length (filter ((!) marked) (block_range prog b))"
      using sweep_block(2) [OF assms(1), of marked] by (auto simp: len)
    then obtain x where "sb_start (sp_blocks prog ! b) \<le> x" "x < sb_end (sp_blocks prog ! b)" "marked ! x"
      "x' - ?S = length (filter ((!) marked) [sb_start (sp_blocks prog ! b)..<x])"
      unfolding block_range_def using filter_upt_index by blast
    then show ?r using \<open>?S \<le> x'\<close> by (auto simp: place_def block_range_bounds intro!: bexI [of _ x])
  }
  assume ?r
  then obtain x where x: "x \<in> set (block_range prog b)" "marked ! x" "x' = place prog marked b x" by blast
  then have "length (filter ((!) marked) [sb_start (sp_blocks prog ! b)..<x]) < length (filter ((!) marked) (block_range prog b))"
    unfolding block_range_def by (intro filter_upt_nth(1)) (auto simp: block_range_bounds)
  then show ?l using x(3) sweep_block(2) [OF assms(1), of marked] by (simp add: place_def len)
qed

lemma sweep_insn:
  assumes "b < length (sp_blocks prog)" "live_block prog b" "x \<in> set (block_range prog b)" "marked ! x"
  shows "sp_insns (sweep prog marked) ! place prog marked b x = sp_insns prog ! x"
proof -
  let ?S = "length (concat (map (block_kept prog marked) [0..<b]))"
  let ?i = "length (filter ((!) marked) [sb_start (sp_blocks prog ! b)..<x])"
  have x: "sb_start (sp_blocks prog ! b) \<le> x" "x < sb_end (sp_blocks prog ! b)" using assms(3) by (simp_all add: block_range_bounds)
  note N = filter_upt_nth [OF x, of "(!) marked", OF assms(4)]
  have len: "length (block_kept prog marked b) = length (filter ((!) marked) [sb_start (sp_blocks prog ! b)..<sb_end (sp_blocks prog ! b)])"
    using assms(2) by (simp add: block_kept_def block_range_def)
  have "block_body (sweep prog marked) b ! ?i = sp_insns (sweep prog marked) ! (?S + ?i)"
    using N(1) by (simp add: block_body_def sweep_block(2) [OF assms(1)] len)
  moreover have "block_body (sweep prog marked) b ! ?i = sp_insns prog ! x"
    using N sweep_block(3) [OF assms(1), of marked] assms(2) by (simp add: block_kept_def block_range_def)
  ultimately show ?thesis by (simp add: place_def)
qed

lemma sweep_end:
  assumes "b < length (sp_blocks prog)" "live_block prog b"
  shows "sb_end (sp_blocks (sweep prog marked) ! b) = place prog marked b (sb_end (sp_blocks prog ! b))"
proof -
  have nth: "sp_blocks (sweep prog marked) ! b =
     (let s = length (concat (map (block_kept prog marked) [0..<b]))
      in \<lparr>sb_start = s, sb_end = s + length (block_kept prog marked b), sb_live = live_block prog b\<rparr>)"
    using sweep_blocks_nth [of b "[0..<length (sp_blocks prog)]" prog marked 0] assms(1) by (simp add: sweep_def Let_def)
  then show ?thesis using assms(2) by (simp add: Let_def place_def block_kept_def block_range_def)
qed


definition swept :: "ssa_program \<Rightarrow> bool list \<Rightarrow> ssa_program" where
  "swept prog marked = rebuild_def_sites (sweep prog marked)"

lemma swept_graph:
  assumes S: "strict_prog adj prog" and m: "marks_closed prog marked"
  shows "reach adj (swept prog marked) b = reach adj prog b" "block_dominates adj (swept prog marked) a b = block_dominates adj prog a b"
    and "reach adj prog b \<Longrightarrow> live_successors adj (swept prog marked) b = live_successors adj prog b"
proof -
  have succs: "live_successors adj (swept prog marked) b = live_successors adj prog b" if "reach adj prog b" for b
    using sweep_successors [OF m] strict_live [OF strict_progD [OF S] that] by (simp add: swept_def visits_def)
  show "reach adj prog b \<Longrightarrow> live_successors adj (swept prog marked) b = live_successors adj prog b" by (rule succs)
  show "reach adj (swept prog marked) b = reach adj prog b" "block_dominates adj (swept prog marked) a b = block_dominates adj prog a b"
    using same_graph [of "swept prog marked" prog adj, OF _ succs] by (simp_all add: swept_def)
qed

lemma swept_defined:
  "defined_in (swept prog marked) v b d' \<longleftrightarrow> (\<exists>d. defined_in prog v b d \<and> marked ! d \<and> d' = place prog marked b d)"
proof -
  have "defined_in (swept prog marked) v b d' \<longleftrightarrow> b < length (sp_blocks prog) \<and> live_block prog b
      \<and> (\<exists>d \<in> set (block_range prog b). marked ! d \<and> d' = place prog marked b d) \<and> def_dst (sp_insns (sweep prog marked) ! d') = Some v"
    using sweep_range [of b prog d' marked] by (auto simp: defined_in_def swept_def sweep_block(1))
  then show ?thesis using sweep_insn [of b prog _ marked] by (auto simp: defined_in_def)
qed

lemma swept_insn: "defined_in prog v b d \<Longrightarrow> marked ! d \<Longrightarrow> sp_insns (swept prog marked) ! place prog marked b d = sp_insns prog ! d"
  by (simp add: swept_def sweep_insn defined_in_def)

lemma swept_pseudo: "entry_pseudo (swept prog marked) v \<longleftrightarrow> (\<exists>d. defined_in prog v (sp_entry prog) d \<and> marked ! d \<and> is_pseudo (sp_insns prog ! d))"
proof -
  have "sp_entry (swept prog marked) = sp_entry prog" by (simp add: swept_def)
  then show ?thesis using swept_insn [of prog v "sp_entry prog" _ marked] by (auto simp: entry_pseudo_def swept_defined)
qed

lemma swept_pseudo_kept: "entry_pseudo prog v \<Longrightarrow> (\<And>b d. defined_in prog v b d \<Longrightarrow> marked ! d) \<Longrightarrow> entry_pseudo (swept prog marked) v"
  unfolding swept_pseudo by (auto simp: entry_pseudo_def)

text \<open>A value that a kept instruction reads keeps its definition, and stays available.\<close>

lemma used_marked:
  assumes ok: "ssa_ok adj prog" and m: "marks_closed prog marked" and a: "a \<in> set (live_range prog)" "marked ! a"
    and v: "v \<in> set (insn_uses (sp_insns prog ! a))" and d: "defined_in prog v b d"
  shows "marked ! d"
  using unneeded [OF ok m, of d v] a v d by (auto simp: needed_def defined_in_def intro: live_rangeI)

lemma swept_available:
  assumes S: "strict_prog adj prog" and m: "marks_closed prog marked"
    and kept: "\<And>b d. defined_in prog v b d \<Longrightarrow> marked ! d" and av: "available adj prog v b x"
  shows "available adj (swept prog marked) v b (place prog marked b x)"
  using av unfolding available_def
proof (elim disjE exE conjE)
  assume "entry_pseudo prog v"
  then show "entry_pseudo (swept prog marked) v \<or> (\<exists>b' d. defined_in (swept prog marked) v b' d
      \<and> (if b' = b then d < place prog marked b x \<or> is_phi (sp_insns (swept prog marked) ! d) else block_dominates adj (swept prog marked) b' b))"
    using swept_pseudo_kept kept by blast
next
  fix b' d assume d: "defined_in prog v b' d" and h: "if b' = b then d < x \<or> is_phi (sp_insns prog ! d) else block_dominates adj prog b' b"
  note k = kept [OF d]
  have "defined_in (swept prog marked) v b' (place prog marked b' d)" using d k by (auto simp: swept_defined)
  moreover have "if b' = b then place prog marked b' d < place prog marked b x \<or> is_phi (sp_insns (swept prog marked) ! place prog marked b' d)
      else block_dominates adj (swept prog marked) b' b"
    unfolding swept_insn [OF d k] swept_graph(2) [OF S m]
    using h place_less [OF _ _ k] d by (auto simp: defined_in_def block_range_bounds)
  ultimately show "entry_pseudo (swept prog marked) v \<or> (\<exists>b' d. defined_in (swept prog marked) v b' d
      \<and> (if b' = b then d < place prog marked b x \<or> is_phi (sp_insns (swept prog marked) ! d) else block_dominates adj (swept prog marked) b' b))"
    by blast
qed

lemma swept_strict:
  assumes S: "strict_prog adj prog" and m: "marks_closed prog marked"
  shows "strict_prog adj (swept prog marked)"
proof -
  let ?q = "swept prog marked"
  note ok = strict_progD(2) [OF S]
  note G = swept_graph [OF S m]
  have visit: "visits adj prog b" if "reach adj prog b" for b by (rule strict_live [OF strict_progD [OF S] that])
  have "strict_at adj ?q b x'" if b: "visits adj prog b" and x': "x' \<in> set (block_range ?q b)" for b x'
  proof -
    have bl: "b < length (sp_blocks prog)" "live_block prog b" using b by (simp_all add: visits_def)
    obtain x where x: "x \<in> set (block_range prog b)" "marked ! x" "x' = place prog marked b x"
      using x' sweep_range [OF bl, of x' marked] by (auto simp: swept_def)
    have i: "sp_insns ?q ! x' = sp_insns prog ! x" using sweep_insn [OF bl x(1,2)] by (simp add: swept_def x(3))
    note at = strict_visit [OF strict_progD(3) [OF S] b x(1)]
    note live = visits_range [OF b x(1)]
    have kept: "v \<in> set (insn_uses (sp_insns prog ! x)) \<Longrightarrow> defined_in prog v b' d \<Longrightarrow> marked ! d" for v b' d
      using used_marked [OF ok m live x(2)] by blast
    have ctl: "is_control (sp_insns prog ! x) \<Longrightarrow> Suc x' = sb_end (sp_blocks ?q ! b)"
    proof -
      assume "is_control (sp_insns prog ! x)"
      then have e: "Suc x = sb_end (sp_blocks prog ! b)" using at by (simp add: strict_at_def)
      have "filter ((!) marked) [sb_start (sp_blocks prog ! b)..<Suc x] = filter ((!) marked) [sb_start (sp_blocks prog ! b)..<x] @ [x]"
        using x(1,2) by (simp add: block_range_bounds)
      then show ?thesis using sweep_end [OF bl, of marked] by (simp add: swept_def x(3) place_def e [symmetric])
    qed
    show ?thesis
    proof (cases "is_phi (sp_insns prog ! x)")
      case False
      have "available adj ?q v b x'" if "v \<in> set (insn_uses (sp_insns prog ! x))" for v
        unfolding x(3) by (rule swept_available [OF S m kept [OF that] strict_uses [OF at False that]])
      then show ?thesis using ctl False unfolding strict_at_def i by (cases "sp_insns prog ! x") (auto simp: is_phi_def)
    next
      case True
      then obtain dst inputs where p: "sp_insns prog ! x = SPhi dst inputs" by (cases "sp_insns prog ! x") (auto simp: is_phi_def)
      have I: "inputs_strict adj prog b inputs" by (rule strict_phi [OF at p])
      have "(is_start_pred pred \<longrightarrow> entry_pseudo ?q v) \<and> (reach adj prog pred \<longrightarrow> available adj ?q v pred (sb_end (sp_blocks ?q ! pred)))"
        if v: "(pred, v) \<in> set inputs" for pred v
      proof -
        have "v \<in> set (insn_uses (sp_insns prog ! x))" using v p by force
        note k = kept [OF this]
        have "is_start_pred pred \<longrightarrow> entry_pseudo prog v" "reach adj prog pred \<longrightarrow> available adj prog v pred (sb_end (sp_blocks prog ! pred))"
          using I v by (auto simp: inputs_strict_def)
        moreover have "reach adj prog pred \<Longrightarrow> sb_end (sp_blocks ?q ! pred) = place prog marked pred (sb_end (sp_blocks prog ! pred))"
          using sweep_end [of pred prog marked] visit [of pred] by (simp add: swept_def visits_def)
        ultimately show ?thesis using swept_available [OF S m k] swept_pseudo_kept [OF _ k] by simp
      qed
      moreover have "sp_entry ?q = sp_entry prog" by (simp add: swept_def)
      ultimately have "inputs_strict adj ?q b inputs" using I G(3) by (auto simp: inputs_strict_def G(1))
      then show ?thesis using ctl p by (simp add: strict_at_def i is_control_def)
    qed
  qed
  then have "strict_ssa adj ?q"
    using visit by (simp add: strict_ssa_def G(1)) (simp add: swept_def visits_def sweep_block(1))
  moreover have "ssa_ok adj ?q" using sweep_ok [OF ok m] by (simp add: swept_def)
  ultimately show ?thesis using strict_progD(1) [OF S] by (simp add: strict_prog_def)
qed



section \<open>Pruning keeps strictness\<close>

definition pruned :: "ssa_program \<Rightarrow> bool list \<Rightarrow> ssa_program" where
  "pruned prog r = rebuild_def_sites (prune_all (kill_blocks prog r))"

definition reach_marks :: "adjacency \<Rightarrow> ssa_program \<Rightarrow> bool list \<Rightarrow> bool" where
  "reach_marks adj prog r \<longleftrightarrow> (\<forall>b < length (sp_blocks prog). r ! b \<longleftrightarrow> reach adj prog b)"

lemma pruned_simps [simp]: "length (sp_blocks (pruned prog r)) = length (sp_blocks prog)" "sp_entry (pruned prog r) = sp_entry prog"
  by (simp_all add: pruned_def)

lemma pruned_block:
  assumes "b < length (sp_blocks prog)"
  shows "block_range (pruned prog r) b = block_range prog b" "live_block (pruned prog r) b \<longleftrightarrow> live_block prog b \<and> r ! b"
    "sb_end (sp_blocks (pruned prog r) ! b) = sb_end (sp_blocks prog ! b)"
  using assms by (simp_all add: pruned_def kill_block(1,2) kill_blocks_nth)

lemma prune_phi_kind [simp]: "is_phi (prune_phi p i) = is_phi i" "is_pseudo (prune_phi p i) = is_pseudo i" "\<not> is_phi i \<Longrightarrow> prune_phi p i = i"
  "is_binop (prune_phi p i) = is_binop i"
  by (cases i; simp add: prune_phi_def is_phi_def is_pseudo_def)+

lemma pruned_insn:
  assumes "ssa_ok adj prog" "b < length (sp_blocks prog)" "live_block prog b" "r ! b" "x \<in> set (block_range prog b)"
  shows "sp_insns (pruned prog r) ! x = prune_phi (kill_blocks prog r) (sp_insns prog ! x)"
proof -
  have "x \<in> set (live_range (kill_blocks prog r))"
    using assms(2-5) by (intro live_rangeI [of b]) (simp_all add: kill_block)
  then show ?thesis using prune_nth [OF assms(1) live_rangeI [OF assms(2,3,5)], of r] by (simp add: pruned_def)
qed

lemma pruned_defined:
  assumes "ssa_ok adj prog"
  shows "defined_in (pruned prog r) v b d \<longleftrightarrow> defined_in prog v b d \<and> r ! b"
  using pruned_insn [OF assms, of b r d] by (auto simp: defined_in_def pruned_block prune_phi_cases)

lemma pruned_graph:
  assumes S: "strict_prog adj prog"
  shows "reach adj (pruned prog r) b = reach adj prog b" "block_dominates adj (pruned prog r) a b = block_dominates adj prog a b"
    and "reach adj prog b \<Longrightarrow> live_successors adj (pruned prog r) b = live_successors adj prog b"
proof -
  have succs: "live_successors adj (pruned prog r) b = live_successors adj prog b" if "reach adj prog b" for b
    using prune_terminator(2) [OF strict_progD(2) [OF S]] strict_live [OF strict_progD [OF S] that] by (simp add: pruned_def visits_def)
  show "reach adj prog b \<Longrightarrow> live_successors adj (pruned prog r) b = live_successors adj prog b" by (rule succs)
  show "reach adj (pruned prog r) b = reach adj prog b" "block_dominates adj (pruned prog r) a b = block_dominates adj prog a b"
    using same_graph [of "pruned prog r" prog adj, OF _ succs] by simp_all
qed

lemma pruned_kind:
  assumes "ssa_ok adj prog" "defined_in prog v b d" "r ! b"
  shows "is_phi (sp_insns (pruned prog r) ! d) = is_phi (sp_insns prog ! d)" "is_pseudo (sp_insns (pruned prog r) ! d) = is_pseudo (sp_insns prog ! d)"
  using pruned_insn [OF assms(1) _ _ assms(3), of d] assms(2) by (simp_all add: defined_in_def)

lemma entry_marked: "ssa_ok adj prog \<Longrightarrow> reach_marks adj prog r \<Longrightarrow> r ! sp_entry prog"
  by (simp add: reach_marks_def ssa_ok_def edges_ok_def) (simp add: reach_def)

lemma pruned_pseudo:
  assumes "ssa_ok adj prog" "reach_marks adj prog r"
  shows "entry_pseudo (pruned prog r) v = entry_pseudo prog v"
  using pruned_defined [OF assms(1)] entry_marked [OF assms] pruned_kind(2) [OF assms(1)] by (auto simp: entry_pseudo_def)

lemma pruned_available:
  assumes S: "strict_prog adj prog" and r: "reach_marks adj prog r" and b: "reach adj prog b" and av: "available adj prog v b x"
  shows "available adj (pruned prog r) v b x"
proof (cases "entry_pseudo prog v")
  case True
  then show ?thesis using pruned_pseudo [OF strict_progD(2) [OF S] r] by (simp add: available_def)
next
  case False
  note ok = strict_progD(2) [OF S]
  obtain b' d where d: "defined_in prog v b' d" and h: "if b' = b then d < x \<or> is_phi (sp_insns prog ! d) else block_dominates adj prog b' b"
    using av False unfolding available_def by blast
  then have "block_dominates adj prog b' b" by (auto split: if_splits)
  then have k: "r ! b'" using dominator_reach [OF b] r d by (simp add: reach_marks_def defined_in_def)
  have "if b' = b then d < x \<or> is_phi (sp_insns (pruned prog r) ! d) else block_dominates adj (pruned prog r) b' b"
    using h by (simp add: pruned_kind [OF ok d k] pruned_graph(2) [OF S])
  moreover have "defined_in (pruned prog r) v b' d" using d k by (simp add: pruned_defined [OF ok])
  ultimately show ?thesis unfolding available_def by blast
qed

lemma pruned_strict:
  assumes S: "strict_prog adj prog" and r: "reach_marks adj prog r"
  shows "strict_prog adj (pruned prog r)"
proof -
  let ?q = "pruned prog r" let ?k = "kill_blocks prog r"
  note ok = strict_progD(2) [OF S]
  note G = pruned_graph [OF S, where r = r]
  have visit: "visits adj prog b" if "reach adj prog b" for b by (rule strict_live [OF strict_progD [OF S] that])
  have marked: "r ! b \<and> live_block ?k b" if "reach adj prog b" for b
    using visit [OF that] r that by (simp add: visits_def reach_marks_def kill_block(1))
  have "strict_at adj ?q b x" if b: "visits adj prog b" and x: "x \<in> set (block_range prog b)" for b x
  proof -
    have bl: "b < length (sp_blocks prog)" "live_block prog b" "reach adj prog b" using b by (simp_all add: visits_def)
    note i = pruned_insn [OF ok bl(1,2) conjunct1 [OF marked [OF bl(3)]] x]
    note at = strict_visit [OF strict_progD(3) [OF S] b x]
    have ctl: "is_control (sp_insns ?q ! x) \<Longrightarrow> Suc x = sb_end (sp_blocks ?q ! b)"
      using at by (simp add: i prune_phi_cases strict_at_def pruned_block(3) [OF bl(1)])
    show ?thesis
    proof (cases "is_phi (sp_insns prog ! x)")
      case False
      have "\<forall>v \<in> set (insn_uses (sp_insns prog ! x)). available adj ?q v b x"
        using pruned_available [OF S r bl(3)] strict_uses [OF at False] by blast
      then show ?thesis using ctl False unfolding strict_at_def i by (cases "sp_insns prog ! x") (auto simp: is_phi_def prune_phi_def)
    next
      case True
      then obtain dst inputs where p: "sp_insns prog ! x = SPhi dst inputs" by (cases "sp_insns prog ! x") (auto simp: is_phi_def)
      let ?in = "filter (\<lambda>(pred, v). is_start_pred pred \<or> live_block ?k pred) inputs"
      have I: "inputs_strict adj prog b inputs" by (rule strict_phi [OF at p])
      have "(is_start_pred pred \<longrightarrow> entry_pseudo ?q v) \<and> (reach adj prog pred \<longrightarrow> available adj ?q v pred (sb_end (sp_blocks ?q ! pred)))"
        if "(pred, v) \<in> set inputs" for pred v
        using I that pruned_available [OF S r] pruned_pseudo [OF ok r] visit pruned_block(3) [of pred prog r]
        by (auto simp: inputs_strict_def visits_def)
      moreover have "pred \<in> fst ` set ?in" if "pred \<in> fst ` set inputs" "is_start_pred pred \<or> reach adj prog pred" for pred
        using that marked by force
      moreover have "is_start_pred start_pred" by (simp add: is_start_pred_def)
      ultimately have "inputs_strict adj ?q b ?in" using I G(3) by (auto simp: inputs_strict_def G(1))
      moreover have "sp_insns ?q ! x = SPhi dst ?in" by (simp add: i p prune_phi_def)
      ultimately show ?thesis by (simp add: strict_at_def is_control_def)
    qed
  qed
  then have "strict_ssa adj ?q"
    using visit marked by (simp add: strict_ssa_def G(1)) (simp add: pruned_block visits_def)
  moreover have "ssa_ok adj ?q" using prune_ok [OF ok] by (simp add: pruned_def)
  ultimately show ?thesis using strict_progD(1) [OF S] by (simp add: strict_prog_def)
qed

end
