(* ===== verification/SsaDriver.thy ===== *)
theory SsaDriver
  imports SsaStrict
begin

text \<open>
  The driver: every round returns, and a round that changes something makes a measure smaller, so
  the loop ends with a program whose runs are the runs of the first one.
\<close>

section \<open>The order of definitions\<close>

text \<open>\<open>u\<close> is defined before \<open>v\<close>: the strict order that dominance gives.\<close>

definition before :: "adjacency \<Rightarrow> ssa_program \<Rightarrow> ssa_value \<Rightarrow> ssa_value \<Rightarrow> bool" where
  "before adj prog u v \<longleftrightarrow> \<not> entry_pseudo prog v
     \<and> (\<exists>b d. defined_in prog v b d \<and> reach adj prog b \<and> source_before adj prog u b d)"

lemma beforeE:
  assumes "before adj prog u v" "ssa_ok adj prog" "defined_in prog v b d"
  shows "\<not> entry_pseudo prog v" "reach adj prog b" "source_before adj prog u b d"
proof -
  obtain b' d' where d: "\<not> entry_pseudo prog v" "defined_in prog v b' d'" "reach adj prog b'" "source_before adj prog u b' d'"
    using assms(1) by (auto simp: before_def)
  have "d' = d \<and> b' = b" by (rule defined_in_unique [OF assms(2) d(2) assms(3)])
  then show "\<not> entry_pseudo prog v" "reach adj prog b" "source_before adj prog u b d" using d by auto
qed

lemma before_irrefl:
  assumes ok: "ssa_ok adj prog"
  shows "\<not> before adj prog v v"
proof
  assume B: "before adj prog v v"
  then obtain b d where d: "defined_in prog v b d" by (auto simp: before_def)
  note E = beforeE [OF B ok d]
  have "if b = b then \<not> is_phi (sp_insns prog ! d) \<and> (d < d \<or> is_phi (sp_insns prog ! d)) else block_dominates adj prog b b"
    using E(1,3) defined_in_unique [OF ok d] unfolding source_before_def by blast
  then show False by simp
qed

lemma before_trans:
  assumes ok: "ssa_ok adj prog" and uv: "before adj prog u v" and vw: "before adj prog v w"
  shows "before adj prog u w"
proof -
  obtain b d where d: "defined_in prog w b d" using vw by (auto simp: before_def)
  note W = beforeE [OF vw ok d]
  obtain bv dv where v: "defined_in prog v bv dv" using uv by (auto simp: before_def)
  note V = beforeE [OF uv ok v]
  have HV: "if bv = b then \<not> is_phi (sp_insns prog ! d) \<and> (dv < d \<or> is_phi (sp_insns prog ! dv)) else block_dominates adj prog bv b"
    using W(3) V(1) defined_in_unique [OF ok v] unfolding source_before_def by blast
  have "source_before adj prog u b d"
  proof (cases "entry_pseudo prog u")
    case False
    then obtain bu du where u: "defined_in prog u bu du"
      and HU: "if bu = bv then \<not> is_phi (sp_insns prog ! dv) \<and> (du < dv \<or> is_phi (sp_insns prog ! du)) else block_dominates adj prog bu bv"
      using V(3) unfolding source_before_def by blast
    have "if bu = b then \<not> is_phi (sp_insns prog ! d) \<and> (du < d \<or> is_phi (sp_insns prog ! du)) else block_dominates adj prog bu b"
    proof (cases "bv = b")
      case True
      then show ?thesis using HV HU by (auto split: if_splits)
    next
      case False
      then have vb: "block_dominates adj prog bv b" using HV by simp
      have "block_dominates adj prog bu bv" using HU by (auto split: if_splits)
      then have ub: "block_dominates adj prog bu b" using vb dominates_trans by blast
      have "bu \<noteq> b"
      proof
        assume "bu = b"
        then have "b = bv" using dominates_antisym [OF _ vb W(2)] \<open>block_dominates adj prog bu bv\<close> by simp
        then show False using False by simp
      qed
      then show ?thesis using ub by simp
    qed
    then show ?thesis using u unfolding source_before_def by blast
  qed (simp add: source_before_def)
  then show ?thesis using W(1,2) d by (auto simp: before_def)
qed

definition height :: "adjacency \<Rightarrow> ssa_program \<Rightarrow> ssa_value \<Rightarrow> nat" where
  "height adj prog v = card {u. u < length (sp_def_sites prog) \<and> before adj prog u v}"

lemma height_less:
  assumes ok: "ssa_ok adj prog" and b: "before adj prog u v" and u: "u < length (sp_def_sites prog)"
  shows "height adj prog u < height adj prog v"
  unfolding height_def
proof (rule psubset_card_mono)
  show "{w. w < length (sp_def_sites prog) \<and> before adj prog w u} \<subset> {w. w < length (sp_def_sites prog) \<and> before adj prog w v}"
    using before_trans [OF ok _ b] before_irrefl [OF ok] b u by blast
qed simp

lemma height_le:
  assumes "length (sp_def_sites q) = length (sp_def_sites p)" "\<And>u. before adj q u v \<Longrightarrow> before adj p u v"
  shows "height adj q v \<le> height adj p v"
  unfolding height_def assms(1) by (rule card_mono) (use assms(2) in auto)

text \<open>A rewrite of a program all of whose live blocks are reachable goes down in this order.\<close>

definition all_reach :: "adjacency \<Rightarrow> ssa_program \<Rightarrow> bool" where
  "all_reach adj prog \<longleftrightarrow> (\<forall>b \<in> set (live_blocks prog). reach adj prog b)"

lemma defined_reach: "all_reach adj prog \<Longrightarrow> defined_in prog v b d \<Longrightarrow> reach adj prog b"
  by (auto simp: all_reach_def live_blocks_def defined_in_def)

lemma source_before_def_site:
  assumes "ssa_ok adj prog" "source_before adj prog to b d"
  shows "to < length (sp_def_sites prog)"
proof -
  obtain h dh where "defined_in prog to h dh" using assms(2) by (auto simp: source_before_def entry_pseudo_def)
  then show ?thesis using def_site [OF assms(1)] by (auto simp: defined_in_def intro: live_rangeI)
qed

lemma rewrite_descends:
  assumes S: "strict_prog adj prog" and all: "all_reach adj prog" and c: "(from, to) \<in> set (copy_rewrites prog)"
  shows "height adj prog to < height adj prog from"
proof -
  note ok = strict_progD(2) [OF S]
  obtain b d where d: "defined_in prog from b d" "(from, to) \<in> set (copy_rewrite prog (sp_insns prog ! d))"
    using copy_rewrites_source [OF c] .
  have r: "reach adj prog b" by (rule defined_reach [OF all d(1)])
  have s: "source_before adj prog to b d" by (rule source_of_copy [OF S r d])
  have "\<not> entry_pseudo prog from" using not_pseudo [OF ok d(1)] copy_rewrite_dst [OF d(2)] by simp
  then have "before adj prog to from" using d(1) r s by (auto simp: before_def)
  then show ?thesis by (rule height_less [OF ok _ source_before_def_site [OF ok s]])
qed


section \<open>The measure\<close>

definition phi_inputs :: "ssa_insn \<Rightarrow> nat" where
  "phi_inputs i = (case i of SPhi dst inputs \<Rightarrow> length inputs | _ \<Rightarrow> 0)"

definition insn_work :: "(ssa_value \<Rightarrow> nat) \<Rightarrow> ssa_insn \<Rightarrow> nat" where
  "insn_work h i = sum_list (map h (insn_uses i)) + phi_inputs i"

definition copy_work :: "adjacency \<Rightarrow> ssa_program \<Rightarrow> nat" where
  "copy_work adj prog = sum_list (map (insn_work (height adj prog)) (live_insns prog)) + length (live_blocks prog) + length (sp_insns prog)"

lemma sum_list_le: "(\<And>x. x \<in> set xs \<Longrightarrow> f x \<le> g x) \<Longrightarrow> sum_list (map f xs) \<le> sum_list (map g xs)" for f g :: "'a \<Rightarrow> nat"
  by (induction xs) (auto intro: add_mono)

lemma sum_list_less:
  fixes f g :: "'a \<Rightarrow> nat"
  assumes "\<And>x. x \<in> set xs \<Longrightarrow> f x \<le> g x" "y \<in> set xs" "f y < g y"
  shows "sum_list (map f xs) < sum_list (map g xs)"
  using assms
proof (induction xs)
  case (Cons x xs)
  have "sum_list (map f xs) \<le> sum_list (map g xs)" by (rule sum_list_le) (use Cons.prems(1) in simp)
  then show ?case using Cons by (cases "y = x") (auto intro: add_less_le_mono add_le_less_mono)
qed simp

lemma sum_list_filter: "sum_list (map f (filter p xs)) \<le> sum_list (map f xs)" for f :: "'a \<Rightarrow> nat"
  by (induction xs) auto

text \<open>Copy propagation.\<close>

lemma step_flag_descends:
  fixes h :: "ssa_value \<Rightarrow> nat"
  assumes h: "\<forall>(from, to) \<in> set rs. h to < h from"
  shows "sum_list (map h (insn_uses (rename (rewrite_all rs) i))) \<le> sum_list (map h (insn_uses i))
    \<and> (step_flag rs i \<longrightarrow> sum_list (map h (insn_uses (rename (rewrite_all rs) i))) < sum_list (map h (insn_uses i)))"
  using h
proof (induction rs arbitrary: i)
  case Nil
  then show ?case by (simp add: rewrite_all_def step_flag_def)
next
  case (Cons ft rs)
  obtain fr to where ft: "ft = (fr, to)" by force
  let ?g = "rewrite_value fr to" let ?i = "rewrite_uses fr to i"
  have one: "h (?g v) \<le> h v" for v using Cons.prems ft by (simp add: rewrite_value_def)
  have le: "sum_list (map h (insn_uses ?i)) \<le> sum_list (map h (insn_uses i))"
    using sum_list_le [of "insn_uses i" "\<lambda>v. h (?g v)" h] one by (simp add: rewrite_uses_rename comp_def)
  have less: "sum_list (map h (insn_uses ?i)) < sum_list (map h (insn_uses i))" if "fr \<in> set (insn_uses i)"
    using sum_list_less [of "insn_uses i" "\<lambda>v. h (?g v)" h fr] one that Cons.prems ft
    by (simp add: rewrite_uses_rename comp_def rewrite_value_def)
  have flag: "step_flag (ft # rs) i \<longleftrightarrow> fr \<in> set (insn_uses i) \<or> step_flag rs ?i"
    using rewrite_flag [of rs ?i "fr \<in> set (insn_uses i)"] by (simp add: step_flag_def ft rewrite_step_def)
  have "rename (rewrite_all (ft # rs)) i = rename (rewrite_all rs) ?i"
    by (simp add: rewrite_uses_rename ft rewrite_all_def [abs_def] comp_def)
  then show ?case using Cons.IH [of ?i] Cons.prems le less flag by auto
qed

lemma renamed_live_insns:
  "ssa_ok adj prog \<Longrightarrow> live_insns (prog\<lparr>sp_insns := renamed prog f\<rparr>) = map (rename f) (live_insns prog)"
  by (simp add: live_insns_def renamed_simps(2))

lemma renamed_height:
  assumes S: "strict_prog adj prog"
  shows "height adj (prog\<lparr>sp_insns := renamed prog f\<rparr>) v = height adj prog v"
proof -
  let ?q = "prog\<lparr>sp_insns := renamed prog f\<rparr>"
  note ok = strict_progD(2) [OF S]
  have at: "sp_insns ?q ! d = rename f (sp_insns prog ! d)" if "defined_in prog v b d" for v b d
    using renamed_simps(2) [OF ok live_rangeI, of b d f] that by (simp add: defined_in_def)
  have def: "defined_in ?q v b d \<longleftrightarrow> defined_in prog v b d" for v b d
    using renamed_simps(2) [OF ok live_rangeI, of b d f] by (auto simp: defined_in_def)
  have pseudo: "entry_pseudo ?q v = entry_pseudo prog v" for v using at by (auto simp: entry_pseudo_def def)
  have succs: "live_successors adj ?q b = live_successors adj prog b" if "reach adj prog b" for b
    by (rule live_successors_update)
      (use renamed_simps(2) [OF ok visits_range [OF strict_live [OF strict_progD [OF S] that]]] in simp)
  note G = same_graph [of ?q prog adj, OF _ succs, simplified]
  have "source_before adj ?q u b d \<longleftrightarrow> source_before adj prog u b d" if d: "defined_in prog v b d" for u v b d
  proof -
    have "(if h = b then \<not> is_phi (sp_insns ?q ! d) \<and> (dh < d \<or> is_phi (sp_insns ?q ! dh)) else block_dominates adj ?q h b)
        = (if h = b then \<not> is_phi (sp_insns prog ! d) \<and> (dh < d \<or> is_phi (sp_insns prog ! dh)) else block_dominates adj prog h b)"
      if "defined_in prog u h dh" for h dh
      unfolding at [OF d] at [OF that] G by simp
    then show ?thesis unfolding source_before_def pseudo def by blast
  qed
  then have "before adj ?q u v \<longleftrightarrow> before adj prog u v" for u v
    unfolding before_def pseudo def G(1) by meson
  then show ?thesis by (simp add: height_def)
qed

lemma rename_binop [simp]: "is_binop (rename f i) = is_binop i"
  by (cases i) simp_all

lemma phi_inputs_rename [simp]: "phi_inputs (rename f i) = phi_inputs i"
  by (cases i) (simp_all add: phi_inputs_def)

lemma copy_work:
  assumes S: "strict_prog adj prog" and all: "all_reach adj prog" and c: "copy_propagate prog = (prog', c)"
  shows "binops prog' = binops prog \<and> copy_work adj prog' \<le> copy_work adj prog \<and> (c \<longrightarrow> copy_work adj prog' < copy_work adj prog)"
proof -
  note ok = strict_progD(2) [OF S]
  let ?f = "rewrite_all (copy_rewrites prog)" let ?h = "height adj prog"
  have p': "prog' = prog\<lparr>sp_insns := renamed prog ?f\<rparr>" and flag: "c \<longleftrightarrow> (\<exists>x \<in> set (live_range prog). step_flag (copy_rewrites prog) (sp_insns prog ! x))"
    using c copy_propagate_eq [OF ok] by simp_all
  have D: "\<forall>(from, to) \<in> set (copy_rewrites prog). ?h to < ?h from" using rewrite_descends [OF S all] by auto
  have le: "insn_work ?h (rename ?f i) \<le> insn_work ?h i" and less: "step_flag (copy_rewrites prog) i \<Longrightarrow> insn_work ?h (rename ?f i) < insn_work ?h i" for i
    using step_flag_descends [OF D, of i] by (auto simp: insn_work_def)
  have "sum_list (map (\<lambda>i. insn_work ?h (rename ?f i)) (live_insns prog)) \<le> sum_list (map (insn_work ?h) (live_insns prog))"
    by (rule sum_list_le) (rule le)
  moreover have "sum_list (map (\<lambda>i. insn_work ?h (rename ?f i)) (live_insns prog)) < sum_list (map (insn_work ?h) (live_insns prog))" if cc: "c"
  proof -
    obtain x where "x \<in> set (live_range prog)" "step_flag (copy_rewrites prog) (sp_insns prog ! x)" using flag cc by blast
    then show ?thesis by (intro sum_list_less [of _ _ _ "sp_insns prog ! x"] le less) (simp_all add: live_insns_def)
  qed
  moreover have "binops prog' = binops prog" by (simp add: p' binops_def renamed_live_insns [OF ok] filter_map comp_def)
  moreover have "height adj prog' = ?h" unfolding p' by (rule ext) (rule renamed_height [OF S])
  ultimately show ?thesis
    by (simp add: copy_work_def) (simp add: p' renamed_live_insns [OF ok] comp_def renamed_simps(1))
qed


text \<open>Dead-code elimination.\<close>

lemma place_less_iff:
  assumes "sb_start (sp_blocks prog ! b) \<le> x" "marked ! x"
  shows "place prog marked b x < place prog marked b y \<longleftrightarrow> x < y"
  using place_less [of x y prog b marked] place_mono [of y x prog marked b] assms by (metis leD linorder_not_le)

lemma swept_before:
  assumes S: "strict_prog adj prog" and m: "marks_closed prog marked" and B: "before adj (swept prog marked) u v"
  shows "before adj prog u v"
proof -
  let ?q = "swept prog marked"
  note ok = strict_progD(2) [OF S] and G = swept_graph [OF S m]
  obtain b d' where q: "\<not> entry_pseudo ?q v" "defined_in ?q v b d'" "reach adj prog b" "source_before adj ?q u b d'"
    using B by (auto simp: before_def G(1))
  obtain d where d: "defined_in prog v b d" "marked ! d" "d' = place prog marked b d" using q(2) by (auto simp: swept_defined)
  have np: "\<not> entry_pseudo prog v"
  proof
    assume "entry_pseudo prog v"
    then obtain d0 where "defined_in prog v (sp_entry prog) d0" "is_pseudo (sp_insns prog ! d0)" by (auto simp: entry_pseudo_def)
    then have "entry_pseudo ?q v" using defined_in_unique [OF ok d(1)] d(2) by (auto simp: swept_pseudo)
    then show False using q(1) by simp
  qed
  have "source_before adj prog u b d"
  proof (cases "entry_pseudo ?q u")
    case True
    then have "entry_pseudo prog u" unfolding swept_pseudo by (auto simp: entry_pseudo_def)
    then show ?thesis by (simp add: source_before_def)
  next
    case False
    then obtain h dh' where h: "defined_in ?q u h dh'"
      "if h = b then \<not> is_phi (sp_insns ?q ! d') \<and> (dh' < d' \<or> is_phi (sp_insns ?q ! dh')) else block_dominates adj ?q h b"
      using q(4) unfolding source_before_def by blast
    obtain dh where dh: "defined_in prog u h dh" "marked ! dh" "dh' = place prog marked h dh" using h(1) by (auto simp: swept_defined)
    have "sb_start (sp_blocks prog ! h) \<le> dh" using dh(1) by (simp add: defined_in_def block_range_bounds)
    then have "if h = b then \<not> is_phi (sp_insns prog ! d) \<and> (dh < d \<or> is_phi (sp_insns prog ! dh)) else block_dominates adj prog h b"
      using h(2) place_less_iff [of prog h dh marked d] dh(2)
      unfolding d(3) dh(3) swept_insn [OF d(1,2)] swept_insn [OF dh(1,2)] G(2) by (auto split: if_splits)
    then show ?thesis using dh(1) unfolding source_before_def by blast
  qed
  then show ?thesis using np d(1) q(3) by (auto simp: before_def)
qed

lemma swept_live_insns: "live_insns (swept prog marked) = map ((!) (sp_insns prog)) (filter ((!) marked) (live_range prog))"
  by (simp add: swept_def sweep_live_insns [symmetric] live_insns_def)

lemma insn_work_mono: "(\<And>v. h v \<le> h' v) \<Longrightarrow> insn_work h i \<le> insn_work h' i"
  by (simp add: insn_work_def sum_list_le)

lemma swept_work:
  assumes S: "strict_prog adj prog" and m: "marks_closed prog marked"
    and less: "length (sp_insns (swept prog marked)) < length (sp_insns prog)"
  shows "binops (swept prog marked) \<le> binops prog \<and> copy_work adj (swept prog marked) < copy_work adj prog"
proof -
  let ?q = "swept prog marked"
  have h: "height adj ?q v \<le> height adj prog v" for v
    by (rule height_le) (use swept_before [OF S m] in \<open>simp_all add: swept_def\<close>)
  have "sum_list (map (insn_work (height adj ?q)) (live_insns ?q)) \<le> sum_list (map (insn_work (height adj prog)) (live_insns ?q))"
    by (rule sum_list_le) (rule insn_work_mono [OF h])
  also have "\<dots> \<le> sum_list (map (insn_work (height adj prog)) (live_insns prog))"
    unfolding swept_live_insns unfolding live_insns_def
    using sum_list_filter [of "\<lambda>x. insn_work (height adj prog) (sp_insns prog ! x)"] by (simp add: comp_def)
  finally have "copy_work adj ?q < copy_work adj prog"
    using less by (simp add: copy_work_def) (simp add: swept_def sweep_live_blocks)
  moreover have "binops ?q \<le> binops prog"
    unfolding binops_def swept_live_insns unfolding live_insns_def
    by (simp add: filter_map comp_def) (metis (no_types, lifting) filter_filter filter_cong length_filter_le conj_commute)
  ultimately show ?thesis by simp
qed


text \<open>Unreachable-block elimination.\<close>

lemma pruned_before:
  assumes S: "strict_prog adj prog" and r: "reach_marks adj prog r" and B: "before adj (pruned prog r) u v"
  shows "before adj prog u v"
proof -
  let ?q = "pruned prog r"
  note ok = strict_progD(2) [OF S] and G = pruned_graph [OF S, where r = r]
  obtain b d where d: "\<not> entry_pseudo prog v" "defined_in prog v b d" "r ! b" "reach adj prog b" "source_before adj ?q u b d"
    using B by (auto simp: before_def G(1) pruned_defined [OF ok] pruned_pseudo [OF ok r])
  have "source_before adj prog u b d"
  proof (cases "entry_pseudo prog u")
    case False
    then obtain h dh where h: "defined_in prog u h dh" "r ! h"
      "if h = b then \<not> is_phi (sp_insns ?q ! d) \<and> (dh < d \<or> is_phi (sp_insns ?q ! dh)) else block_dominates adj ?q h b"
      using d(5) unfolding source_before_def pruned_pseudo [OF ok r] pruned_defined [OF ok] by blast
    then have "if h = b then \<not> is_phi (sp_insns prog ! d) \<and> (dh < d \<or> is_phi (sp_insns prog ! dh)) else block_dominates adj prog h b"
      unfolding pruned_kind [OF ok d(2,3)] pruned_kind [OF ok h(1,2)] G(2) by simp
    then show ?thesis using h(1) unfolding source_before_def by blast
  qed (simp add: source_before_def)
  then show ?thesis using d by (auto simp: before_def)
qed

lemma prune_phi_work: "insn_work h (prune_phi p i) \<le> insn_work h i"
  "prune_phi p i \<noteq> i \<Longrightarrow> insn_work h (prune_phi p i) < insn_work h i"
proof -
  have le: "sum_list (map h (insn_uses (prune_phi p i))) \<le> sum_list (map h (insn_uses i)) \<and> phi_inputs (prune_phi p i) \<le> phi_inputs i
      \<and> (prune_phi p i \<noteq> i \<longrightarrow> phi_inputs (prune_phi p i) < phi_inputs i)"
  proof (cases i)
    case (SPhi dst inputs)
    have "filter q inputs \<noteq> inputs \<Longrightarrow> length (filter q inputs) < length inputs" for q
      by (metis filter_id_conv length_filter_less)
    then show ?thesis using sum_list_filter [of "h \<circ> snd" _ inputs] by (simp add: SPhi prune_phi_def phi_inputs_def comp_def)
  qed (simp_all add: prune_phi_def)
  then show "insn_work h (prune_phi p i) \<le> insn_work h i" "prune_phi p i \<noteq> i \<Longrightarrow> insn_work h (prune_phi p i) < insn_work h i"
    by (auto simp: insn_work_def)
qed

lemma pruned_live_insns:
  assumes ok: "ssa_ok adj prog"
  shows "live_insns (pruned prog r) = map (\<lambda>x. prune_phi (kill_blocks prog r) (sp_insns prog ! x)) (live_range (kill_blocks prog r))"
proof -
  have "sp_insns (prune_all (kill_blocks prog r)) ! x = prune_phi (kill_blocks prog r) (sp_insns prog ! x)"
    if "x \<in> set (live_range (kill_blocks prog r))" for x
    using prune_nth [OF ok, of x r] kill_range_subset [of prog r] that by auto
  then show ?thesis by (simp add: live_insns_def pruned_def)
qed

lemma kill_range_sublist: "sum_list (map f (live_range (kill_blocks prog r))) \<le> sum_list (map f (live_range prog))" for f :: "nat \<Rightarrow> nat"
proof -
  have "sum_list (map f (concat (map (block_range prog) (filter p bs)))) \<le> sum_list (map f (concat (map (block_range prog) bs)))" for p bs
    by (induction bs) auto
  then show ?thesis unfolding kill_live_range by (simp add: live_range_def)
qed

lemma pruned_work:
  assumes S: "strict_prog adj prog" and r: "reach_marks adj prog r"
    and c: "(\<exists>b \<in> set (live_blocks prog). \<not> r ! b)
      \<or> (\<exists>x \<in> set (live_range (kill_blocks prog r)). prune_phi (kill_blocks prog r) (sp_insns prog ! x) \<noteq> sp_insns prog ! x)"
  shows "binops (pruned prog r) \<le> binops prog \<and> copy_work adj (pruned prog r) < copy_work adj prog"
proof -
  let ?q = "pruned prog r" let ?k = "kill_blocks prog r" let ?h = "height adj prog"
  note ok = strict_progD(2) [OF S]
  have h: "height adj ?q v \<le> ?h v" for v
    by (rule height_le) (use pruned_before [OF S r] in \<open>simp_all add: pruned_def\<close>)
  let ?w = "\<lambda>x. insn_work ?h (prune_phi ?k (sp_insns prog ! x))" and ?v = "\<lambda>x. insn_work ?h (sp_insns prog ! x)"
  have "sum_list (map (insn_work (height adj ?q)) (live_insns ?q)) \<le> sum_list (map (insn_work ?h) (live_insns ?q))"
    by (rule sum_list_le) (rule insn_work_mono [OF h])
  also have "\<dots> = sum_list (map ?w (live_range ?k))" by (simp add: pruned_live_insns [OF ok] comp_def)
  finally have A: "sum_list (map (insn_work (height adj ?q)) (live_insns ?q)) \<le> sum_list (map ?w (live_range ?k))" .
  have B: "sum_list (map ?w (live_range ?k)) \<le> sum_list (map ?v (live_range ?k))" by (rule sum_list_le) (rule prune_phi_work)
  have C: "sum_list (map ?v (live_range ?k)) \<le> sum_list (map (insn_work ?h) (live_insns prog))"
    using kill_range_sublist [of ?v prog r] by (simp add: live_insns_def comp_def)
  have sizes: "live_blocks ?q = filter ((!) r) (live_blocks prog)" "length (sp_insns ?q) = length (sp_insns prog)"
    by (simp_all add: pruned_def kill_live_blocks)
  have "copy_work adj ?q < copy_work adj prog"
  proof (cases "\<exists>b \<in> set (live_blocks prog). \<not> r ! b")
    case True
    then obtain b where "b \<in> set (live_blocks prog)" "\<not> r ! b" by blast
    then have "length (filter ((!) r) (live_blocks prog)) < length (live_blocks prog)" by (rule length_filter_less)
    then show ?thesis using A B C by (simp add: copy_work_def sizes)
  next
    case False
    then obtain x where x: "x \<in> set (live_range ?k)" "prune_phi ?k (sp_insns prog ! x) \<noteq> sp_insns prog ! x" using c by blast
    have "sum_list (map ?w (live_range ?k)) < sum_list (map ?v (live_range ?k))"
      by (rule sum_list_less [OF _ x(1)]) (use prune_phi_work x(2) in blast)+
    then show ?thesis using A C length_filter_le [of "(!) r" "live_blocks prog"] unfolding copy_work_def sizes by linarith
  qed
  moreover have "binops ?q \<le> binops prog"
  proof -
    have len: "length (filter p ys) = sum_list (map (\<lambda>y. if p y then 1 else 0) ys)" for p :: "'a \<Rightarrow> bool" and ys
      by (induction ys) auto
    have "binops ?q = sum_list (map (\<lambda>x. if is_binop (sp_insns prog ! x) then 1 else 0) (live_range ?k))"
      by (simp add: binops_def pruned_live_insns [OF ok] len comp_def)
    also have "\<dots> \<le> sum_list (map (\<lambda>x. if is_binop (sp_insns prog ! x) then 1 else 0) (live_range prog))" by (rule kill_range_sublist)
    also have "\<dots> = binops prog" by (simp add: binops_def live_insns_def len comp_def)
    finally show ?thesis .
  qed
  ultimately show ?thesis by simp
qed



section \<open>Rounds\<close>

definition round_ok :: "adjacency \<Rightarrow> const_table \<Rightarrow> ssa_program \<Rightarrow> bool" where
  "round_ok adj t prog \<longleftrightarrow> strict_prog adj prog \<and> table_ok t prog"

lemma fold_all_reach:
  assumes S: "strict_prog adj prog" and c: "constant_fold prog t = (prog', t', c)" and all: "all_reach adj prog"
  shows "all_reach adj prog'"
proof -
  obtain insns where f: "fold fold_at (live_range prog) (sp_insns prog, t, False) = (insns, t', c)" "prog' = prog\<lparr>sp_insns := insns\<rparr>"
    using c by (auto simp: constant_fold_def split: prod.splits)
  have step: "same_control (is ! x) ((fst (fold_at p (is, t, c))) ! x) \<and> length (fst (fold_at p (is, t, c))) = length is"
    if "x < length is" for p "is" t c x
  proof (cases "fold_value t (is ! p)")
    case (Some dk)
    obtain dst k where dk: "dk = (dst, k)" by force
    have "same_control i (SConst dst k)" if "is_binop i" for i
      using that by (cases i) (simp_all add: same_control_def is_control_def dead_taken_def)
    moreover have "is_binop (is ! p)" using fold_value_binop Some dk by blast
    ultimately have "same_control (is ! x) (is[p := SConst dst k] ! x)" using that by (cases "x = p") auto
    then show ?thesis using Some dk by (simp add: fold_at_def)
  qed (simp add: fold_at_def)
  have "same_control (is ! x) (fst (fold fold_at ps (is, t, c)) ! x)" if "x < length is" for ps "is" t c x
    using that
  proof (induction ps arbitrary: "is" t c)
    case (Cons p ps)
    obtain is1 t1 c1 where one: "fold_at p (is, t, c) = (is1, t1, c1)" by (cases "fold_at p (is, t, c)") auto
    then have "same_control (is ! x) (is1 ! x)" "x < length is1" using step [OF Cons.prems, of p t c] Cons.prems by simp_all
    then show ?case using Cons.IH [of is1 t1 c1] one by (simp add: same_control_def)
  qed simp
  then have same: "same_control (sp_insns prog ! x) (insns ! x)" if "x \<in> set (live_range prog)" for x
    using live_range_bound [OF strict_progD(2) [OF S] that] f(1) by (metis fst_conv)
  have "live_successors adj prog' b = live_successors adj prog b" if "reach adj prog b" for b
    unfolding f(2) by (rule live_successors_update) (use same visits_range [OF strict_live [OF strict_progD [OF S] that]] in blast)
  from same_graph(1) [of prog' prog adj, OF _ this] f(2) all show ?thesis by (simp add: all_reach_def)
qed

lemma copy_all_reach:
  assumes S: "strict_prog adj prog" and all: "all_reach adj prog"
  shows "all_reach adj (prog\<lparr>sp_insns := renamed prog f\<rparr>)"
proof -
  note ok = strict_progD(2) [OF S]
  have "live_successors adj (prog\<lparr>sp_insns := renamed prog f\<rparr>) b = live_successors adj prog b" if "reach adj prog b" for b
    by (rule live_successors_update)
      (use renamed_simps(2) [OF ok visits_range [OF strict_live [OF strict_progD [OF S] that]]] in simp)
  from same_graph(1) [of "prog\<lparr>sp_insns := renamed prog f\<rparr>" prog adj, OF _ this] all show ?thesis by (simp add: all_reach_def)
qed

text \<open>What a round of the driver guarantees.\<close>

definition smaller :: "adjacency \<Rightarrow> ssa_program \<Rightarrow> ssa_program \<Rightarrow> bool" where
  "smaller adj q p \<longleftrightarrow> binops q < binops p \<or> binops q = binops p \<and> copy_work adj q < copy_work adj p"

definition no_larger :: "adjacency \<Rightarrow> ssa_program \<Rightarrow> ssa_program \<Rightarrow> bool" where
  "no_larger adj q p \<longleftrightarrow> smaller adj q p \<or> binops q = binops p \<and> copy_work adj q = copy_work adj p"

lemma smaller_trans: "no_larger adj q p \<Longrightarrow> no_larger adj r q \<Longrightarrow> no_larger adj r p \<and> (smaller adj q p \<or> smaller adj r q \<longrightarrow> smaller adj r p)"
  by (auto simp: no_larger_def smaller_def)

definition pass_ok :: "adjacency \<Rightarrow> 'w itself \<Rightarrow> ssa_program \<Rightarrow> ssa_program \<Rightarrow> const_table \<Rightarrow> bool \<Rightarrow> bool" where
  "pass_ok adj T p q t c \<longleftrightarrow> simulates adj p q T \<and> round_ok adj t q
     \<and> (all_reach adj p \<longrightarrow> all_reach adj q \<and> no_larger adj q p \<and> (c \<longrightarrow> smaller adj q p))"

lemma pass_ok_trans:
  "pass_ok adj T p q t c \<Longrightarrow> pass_ok adj T q r t' c' \<Longrightarrow> pass_ok adj T p r t' (c \<or> c')"
  unfolding pass_ok_def using simulates_trans smaller_trans by blast

lemma fold_pass:
  assumes R: "round_ok adj t prog" and c: "constant_fold prog t = (prog', t', c)"
  shows "pass_ok adj TYPE('w) prog prog' t' c"
proof -
  have S: "strict_prog adj prog" and T: "table_ok t prog" using R by (simp_all add: round_ok_def)
  have "fold_result adj TYPE('w) prog prog' t'" by (rule constant_fold_result [OF strict_progD(2) [OF S] T c])
  then show ?thesis using constant_fold_strict [OF S c] fold_all_reach [OF S c]
    by (auto simp: pass_ok_def fold_result_def round_ok_def no_larger_def smaller_def split: if_splits)
qed

lemma copy_pass:
  assumes R: "round_ok adj t prog" and c: "copy_propagate prog = (prog', c)"
  shows "pass_ok adj TYPE('w) prog prog' t c"
proof -
  have S: "strict_prog adj prog" and T: "table_ok t prog" using R by (simp_all add: round_ok_def)
  have p': "prog' = prog\<lparr>sp_insns := renamed prog (rewrite_all (copy_rewrites prog))\<rparr>"
    using c copy_propagate_eq [OF strict_progD(2) [OF S]] by simp
  have "no_larger adj prog' prog \<and> (c \<longrightarrow> smaller adj prog' prog)" if "all_reach adj prog"
    using copy_work [OF S that c] by (auto simp: no_larger_def smaller_def)
  moreover have "round_ok adj t prog'" unfolding p' round_ok_def
    using copy_strict [OF S] copy_table [OF strict_progD(2) [OF S] T] by blast
  ultimately show ?thesis using copy_sim [OF S] copy_all_reach [OF S] unfolding pass_ok_def p' by blast
qed

lemma dce_pass:
  assumes R: "round_ok adj t prog"
  shows "\<exists>prog' c. dead_code_eliminate prog = Some (prog', c) \<and> pass_ok adj TYPE('w) prog prog' t c"
proof -
  have S: "strict_prog adj prog" and T: "table_ok t prog" using R by (simp_all add: round_ok_def)
  obtain prog' c where d: "dead_code_eliminate prog = Some (prog', c)" "fold_result adj TYPE('w) prog prog' t"
    "if c then length (sp_insns prog') < length (sp_insns prog) \<and> (\<exists>marked. marks_closed prog marked \<and> prog' = rebuild_def_sites (sweep prog marked))
     else prog' = prog" using dce_result [OF strict_progD(2) [OF S] T] by blast
  have "pass_ok adj TYPE('w) prog prog' t c"
  proof (cases c)
    case True
    then obtain marked where m: "marks_closed prog marked" "prog' = swept prog marked" and less: "length (sp_insns prog') < length (sp_insns prog)"
      using d(3) by (auto simp: swept_def)
    have "binops prog' \<le> binops prog \<and> copy_work adj prog' < copy_work adj prog"
      using swept_work [OF S m(1)] less m(2) by simp
    moreover have "all_reach adj prog \<Longrightarrow> all_reach adj prog'"
      using swept_graph(1) [OF S m(1)] by (simp add: all_reach_def m(2)) (simp add: swept_def sweep_live_blocks)
    ultimately show ?thesis using d(2) swept_strict [OF S m(1)] m(2)
      by (auto simp: pass_ok_def fold_result_def round_ok_def no_larger_def smaller_def)
  next
    case False
    then show ?thesis using d R by (auto simp: pass_ok_def fold_result_def no_larger_def)
  qed
  then show ?thesis using d(1) by blast
qed

lemma unreachable_pass:
  assumes R: "round_ok adj t prog"
  shows "\<exists>prog' c. unreachable_block_eliminate adj prog = Some (prog', c) \<and> pass_ok adj TYPE('w) prog prog' t c \<and> all_reach adj prog'"
proof -
  have S: "strict_prog adj prog" and T: "table_ok t prog" using R by (simp_all add: round_ok_def)
  obtain r c where u: "\<forall>b < length (sp_blocks prog). r ! b \<longleftrightarrow> reach adj prog b"
    "unreachable_block_eliminate adj prog = Some (if c then pruned prog r else prog, c)"
    "fold_result adj TYPE('w) prog (if c then pruned prog r else prog) t"
    "c \<longleftrightarrow> (\<exists>b \<in> set (live_blocks prog). \<not> r ! b)
         \<or> (\<exists>x \<in> set (live_range (kill_blocks prog r)). prune_phi (kill_blocks prog r) (sp_insns prog ! x) \<noteq> sp_insns prog ! x)"
    using unreachable_result [OF strict_progD(1,2) [OF S] T] unfolding pruned_def by blast
  have r: "reach_marks adj prog r" using u(1) by (simp add: reach_marks_def)
  let ?q = "if c then pruned prog r else prog"
  have "all_reach adj ?q"
  proof (cases c)
    case True
    have "live_blocks (pruned prog r) = filter ((!) r) (live_blocks prog)" by (simp add: pruned_def kill_live_blocks)
    then show ?thesis using True u(1) pruned_graph(1) [OF S] by (auto simp: all_reach_def live_blocks_def)
  next
    case False
    then have "\<forall>b \<in> set (live_blocks prog). r ! b" using u(4) by blast
    then show ?thesis using False u(1) by (auto simp: all_reach_def live_blocks_def)
  qed
  moreover have "pass_ok adj TYPE('w) prog ?q t c"
  proof (cases c)
    case True
    then have "binops (pruned prog r) \<le> binops prog \<and> copy_work adj (pruned prog r) < copy_work adj prog"
      using pruned_work [OF S r] u(4) by blast
    then show ?thesis using True u(3) pruned_strict [OF S r] calculation
      by (auto simp: pass_ok_def fold_result_def round_ok_def no_larger_def smaller_def)
  next
    case False
    then show ?thesis using u(3) R by (auto simp: pass_ok_def fold_result_def no_larger_def)
  qed
  ultimately show ?thesis using u(2) by blast
qed

lemma round_result:
  assumes R: "round_ok adj t prog"
  shows "\<exists>prog' t' c. optimize_round adj prog t = Some (prog', t', c) \<and> pass_ok adj TYPE('w) prog prog' t' c \<and> all_reach adj prog'"
proof -
  obtain p1 t1 c1 where f: "constant_fold prog t = (p1, t1, c1)" by (cases "constant_fold prog t") auto
  note F = fold_pass [OF R f, where 'w = 'w]
  then have R1: "round_ok adj t1 p1" by (simp add: pass_ok_def)
  obtain p2 c2 where g: "copy_propagate p1 = (p2, c2)" by force
  note C = copy_pass [OF R1 g, where 'w = 'w]
  then have R2: "round_ok adj t1 p2" by (simp add: pass_ok_def)
  obtain p3 c3 where d: "dead_code_eliminate p2 = Some (p3, c3)" "pass_ok adj TYPE('w) p2 p3 t1 c3" using dce_pass [OF R2] by blast
  then have R3: "round_ok adj t1 p3" by (simp add: pass_ok_def)
  obtain p4 c4 where u: "unreachable_block_eliminate adj p3 = Some (p4, c4)" "pass_ok adj TYPE('w) p3 p4 t1 c4" "all_reach adj p4"
    using unreachable_pass [OF R3] by blast
  have "pass_ok adj TYPE('w) prog p4 t1 (((c1 \<or> c2) \<or> c3) \<or> c4)"
    by (rule pass_ok_trans [OF pass_ok_trans [OF pass_ok_trans [OF F C] d(2)] u(2)])
  moreover have "optimize_round adj prog t = Some (p4, t1, c1 \<or> c2 \<or> c3 \<or> c4)"
    using f g d(1) u(1) by (simp add: optimize_round_def Let_def)
  ultimately show ?thesis using u(3) by (auto simp: disj_assoc)
qed


section \<open>The loop\<close>

definition loop_result :: "adjacency \<Rightarrow> 'w itself \<Rightarrow> ssa_program \<Rightarrow> ssa_program \<Rightarrow> bool" where
  "loop_result adj T prog prog' \<longleftrightarrow> simulates adj prog prog' T \<and> strict_prog adj prog' \<and> all_reach adj prog'"

lemma smaller_wf: "wf {(q, p). smaller adj q p}"
proof -
  have "{(q, p). smaller adj q p} = inv_image ({(a, b). a < b} <*lex*> {(a, b). a < b}) (\<lambda>p. (binops p, copy_work adj p))"
    by (auto simp: smaller_def inv_image_def)
  moreover have "wf ({(a :: nat, b). a < b} <*lex*> {(a :: nat, b). a < b})"
    by (rule wf_lex_prod) (simp_all add: wf_less)
  ultimately show ?thesis by (simp only: wf_inv_image)
qed

lemma loop_from_reached:
  "round_ok adj t prog \<Longrightarrow> all_reach adj prog \<Longrightarrow> \<exists>prog'. optimize_loop adj prog t = Some prog' \<and> loop_result adj TYPE('w) prog prog'"
proof (induction prog arbitrary: t rule: wf_induct_rule [OF smaller_wf [of adj]])
  case (1 prog)
  obtain p t' c where r: "optimize_round adj prog t = Some (p, t', c)" "pass_ok adj TYPE('w) prog p t' c" "all_reach adj p"
    using round_result [OF 1(2)] by blast
  have p: "simulates adj prog p TYPE('w)" "round_ok adj t' p" "c \<Longrightarrow> smaller adj p prog" using r(2) 1(3) by (auto simp: pass_ok_def)
  show ?case
  proof (cases c)
    case True
    obtain q where q: "optimize_loop adj p t' = Some q" "loop_result adj TYPE('w) p q"
      using 1(1) [OF _ p(2) r(3)] p(3) [OF True] by blast
    then show ?thesis using r(1) True p(1) simulates_trans
      by (subst optimize_loop.simps) (auto simp: loop_result_def)
  next
    case False
    then show ?thesis using r p by (subst optimize_loop.simps) (auto simp: loop_result_def round_ok_def)
  qed
qed

lemma optimize_result:
  assumes R: "round_ok adj t prog"
  shows "\<exists>prog'. optimize_loop adj prog t = Some prog' \<and> loop_result adj TYPE('w) prog prog'"
proof -
  obtain p t' c where r: "optimize_round adj prog t = Some (p, t', c)" "pass_ok adj TYPE('w) prog p t' c" "all_reach adj p"
    using round_result [OF R] by blast
  have p: "simulates adj prog p TYPE('w)" "round_ok adj t' p" using r(2) by (auto simp: pass_ok_def)
  show ?thesis
  proof (cases c)
    case True
    obtain q where "optimize_loop adj p t' = Some q" "loop_result adj TYPE('w) p q" using loop_from_reached [OF p(2) r(3)] by blast
    then show ?thesis using r(1) True p(1) simulates_trans by (subst optimize_loop.simps) (auto simp: loop_result_def)
  next
    case False
    then show ?thesis using r p by (subst optimize_loop.simps) (auto simp: loop_result_def round_ok_def)
  qed
qed

end
