(* ===== verification/SsaProps.thy ===== *)
theory SsaProps
  imports SsaDriver
begin

text \<open>
  What the optimizer guarantees, on a concrete loop: the properties of the SSA passes.
\<close>

section \<open>The optimizer\<close>

declare One_nat_def [simp del]

text \<open>A countdown: three blocks, a loop-carried phi, and a copy that both its uses can skip.\<close>

definition countdown :: ssa_program where
  "countdown = \<lparr>
     sp_blocks = [\<lparr>sb_start = 0, sb_end = 4, sb_live = True\<rparr>, \<lparr>sb_start = 4, sb_end = 8, sb_live = True\<rparr>,
       \<lparr>sb_start = 8, sb_end = 9, sb_live = True\<rparr>],
     sp_edges = [(0, 1, Fallthrough), (1, 1, BranchTrue), (1, 2, BranchFalse)],
     sp_insns = [SConst 0 0, SFramePtr 1, SEntryCtx 2, SLoad (Some 3) SzW 2 0,
       SPhi 4 [(0, 3), (1, 5)], SBinOp 5 B64 Sub (SVal 4) (SImm 1), SCopy 6 5,
       SBr B64 Gt (SVal 6) (SImm 0) (Some 1) (Some 2), SsaExit 6],
     sp_entry = 0,
     sp_def_sites = [Some 0, Some 1, Some 2, Some 3, Some 4, Some 5, Some 6]\<rparr>"

definition out_edges :: adjacency where
  "out_edges edges n = filter (\<lambda>(source, target, kind). source = n) edges"

lemma out_edges_sound: "adj_sound out_edges"
  by (auto simp: adj_sound_def out_edges_def)

lemma countdown_blocks:
  "length (sp_blocks countdown) = 3" "sp_entry countdown = 0"
  "block_range countdown 0 = [0, 1, 2, 3]" "block_range countdown 1 = [4, 5, 6, 7]" "block_range countdown 2 = [8]"
  "live_block countdown 0" "live_block countdown 1" "live_block countdown 2"
  by (simp_all add: countdown_def block_range_def live_block_def upt_rec)

lemma countdown_insns:
  "sp_insns countdown ! 0 = SConst 0 0" "sp_insns countdown ! 1 = SFramePtr 1" "sp_insns countdown ! 2 = SEntryCtx 2"
  "sp_insns countdown ! 3 = SLoad (Some 3) SzW 2 0" "sp_insns countdown ! 4 = SPhi 4 [(0, 3), (1, 5)]"
  "sp_insns countdown ! 5 = SBinOp 5 B64 Sub (SVal 4) (SImm 1)" "sp_insns countdown ! 6 = SCopy 6 5"
  "sp_insns countdown ! 7 = SBr B64 Gt (SVal 6) (SImm 0) (Some 1) (Some 2)" "sp_insns countdown ! 8 = SsaExit 6"
  by (simp_all add: countdown_def)

lemma countdown_successors:
  "live_successors out_edges countdown 0 = [1]" "live_successors out_edges countdown 1 = [1, 2]"
  "live_successors out_edges countdown 2 = []" "n \<ge> 3 \<Longrightarrow> live_successors out_edges countdown n = []"
proof -
  have t: "terminator countdown 0 = None" "\<not> dead_taken (terminator countdown 1)"
    by (simp_all add: terminator_def block_body_def countdown_blocks countdown_insns is_control_def dead_taken_def)
  have e: "sp_edges countdown = [(0, 1, Fallthrough), (1, 1, BranchTrue), (1, 2, BranchFalse)]" by (simp add: countdown_def)
  show "live_successors out_edges countdown 0 = [1]" "live_successors out_edges countdown 1 = [1, 2]"
    "live_successors out_edges countdown 2 = []" "n \<ge> 3 \<Longrightarrow> live_successors out_edges countdown n = []"
    using t by (simp_all add: live_successors_def e out_edges_def dead_taken_def)
qed

lemma countdown_ok: "ssa_ok out_edges countdown"
proof -
  have up: "[0..<3] = [0, 1, 2::nat]" "[0..<9] = [0, 1, 2, 3, 4, 5, 6, 7, 8::nat]" by (simp_all add: upt_rec)
  have live: "live_blocks countdown = [0, 1, 2]" by (simp add: live_blocks_def countdown_blocks up)
  have sites: "sp_def_sites countdown = [Some 0, Some 1, Some 2, Some 3, Some 4, Some 5, Some 6]" by (simp add: countdown_def)
  have "layout_ok countdown" by (simp add: layout_ok_def countdown_blocks up) (simp add: countdown_def up)
  moreover have "defs_ok countdown"
    by (simp add: defs_ok_def live_range_def live countdown_blocks def_recorded_def countdown_insns sites)
  moreover have "edges_ok countdown" by (simp add: edges_ok_def countdown_blocks start_pred_def) (simp add: countdown_def)
  moreover have "list_all (targets_at out_edges countdown) (live_blocks countdown)"
    by (simp add: live targets_at_def terminator_def block_body_def countdown_blocks countdown_insns countdown_successors is_control_def)
  ultimately show ?thesis by (simp add: ssa_ok_def)
qed


lemma countdown_reach: "reach out_edges countdown b \<Longrightarrow> b < 3"
  unfolding reach_def
proof (induction rule: rtrancl_induct)
  case (step y z)
  then have "y = 0 \<or> y = 1 \<or> y = 2" by auto
  then show ?case using step.hyps(2) by (auto simp: succ_rel_def countdown_successors)
qed (simp add: countdown_blocks)

lemma countdown_dominates: "block_dominates out_edges countdown 0 b" "block_dominates out_edges countdown 1 2"
proof -
  show "block_dominates out_edges countdown 0 b" by (simp add: block_dominates_def countdown_blocks)
  have only: "b = 0" if "(0, b) \<in> (avoiding out_edges countdown 1)\<^sup>*" for b
    using that by (induction rule: rtrancl_induct) (auto simp: avoiding_def countdown_successors)
  show "block_dominates out_edges countdown 1 2" using only [of 2] by (auto simp: block_dominates_def countdown_blocks)
qed

lemma countdown_defined: "defined_in countdown v b d \<longleftrightarrow>
    b = 0 \<and> d \<in> {0, 1, 2, 3} \<and> v = d \<or> b = 1 \<and> d \<in> {4, 5, 6} \<and> v = d"
proof -
  have dst: "def_dst (sp_insns countdown ! 0) = Some 0" "def_dst (sp_insns countdown ! 1) = Some 1" "def_dst (sp_insns countdown ! 2) = Some 2"
    "def_dst (sp_insns countdown ! 3) = Some 3" "def_dst (sp_insns countdown ! 4) = Some 4" "def_dst (sp_insns countdown ! 5) = Some 5"
    "def_dst (sp_insns countdown ! 6) = Some 6" "def_dst (sp_insns countdown ! 7) = None" "def_dst (sp_insns countdown ! 8) = None"
    by (simp_all add: countdown_insns)
  consider "b = 0" | "b = 1" | "b = 2" | "b \<ge> 3" by linarith
  then show ?thesis by cases (auto simp: defined_in_def countdown_blocks dst)
qed

lemma countdown_available:
  assumes "h = (if v < 4 then 0 else 1)" "v < 7" "if h = b then v < x \<or> v = 4 else block_dominates out_edges countdown h b"
  shows "available out_edges countdown v b x"
proof -
  have "v = 0 \<or> v = 1 \<or> v = 2 \<or> v = 3 \<or> v = 4 \<or> v = 5 \<or> v = 6" using assms(2) by linarith
  then have "defined_in countdown v h v" using assms(1) by (auto simp: countdown_defined)
  moreover have "if h = b then v < x \<or> is_phi (sp_insns countdown ! v) else block_dominates out_edges countdown h b"
    using assms(3) by (auto simp: countdown_insns is_phi_def split: if_splits)
  ultimately show ?thesis unfolding available_def by blast
qed

lemma countdown_strict: "strict_ssa out_edges countdown"
proof -
  have av: "available out_edges countdown 2 0 3" "available out_edges countdown 3 0 4" "available out_edges countdown 4 1 5"
    "available out_edges countdown 5 1 6" "available out_edges countdown 5 1 8" "available out_edges countdown 6 1 7"
    "available out_edges countdown 6 2 8"
    using countdown_dominates by (auto intro!: countdown_available)
  have ends: "sb_end (sp_blocks countdown ! 0) = 4" "sb_end (sp_blocks countdown ! 1) = 8" "sb_end (sp_blocks countdown ! 2) = 9"
    by (simp_all add: countdown_def)
  have preds: "pred = 0 \<or> pred = 1" if "reach out_edges countdown pred" "1 \<in> set (live_successors out_edges countdown pred)" for pred
  proof -
    have "pred = 0 \<or> pred = 1 \<or> pred = 2" using countdown_reach [OF that(1)] by auto
    then show ?thesis using that(2) by (auto simp: countdown_successors)
  qed
  have "inputs_strict out_edges countdown 1 [(0, 3), (1, 5)]"
    using av preds by (fastforce simp: inputs_strict_def ends is_start_pred_def start_pred_def countdown_blocks)
  then have "strict_at out_edges countdown b x" if b: "b < 3" "x \<in> set (block_range countdown b)" for b x
  proof -
    have "b = 0 \<or> b = 1 \<or> b = 2" using b(1) by auto
    then show ?thesis using b(2) av \<open>inputs_strict out_edges countdown 1 [(0, 3), (1, 5)]\<close>
      by (auto simp: countdown_blocks strict_at_def countdown_insns is_control_def ends operand_uses_def)
  qed
  moreover have "live_block countdown b" if "b < 3" for b
  proof -
    have "b = 0 \<or> b = 1 \<or> b = 2" using that by auto
    then show ?thesis using countdown_blocks by auto
  qed
  ultimately show ?thesis by (simp add: strict_ssa_def countdown_blocks)
qed

lemma countdown_live: "all_live countdown"
  by (simp add: all_live_def countdown_def)




text \<open>
  C7: the optimizer is correct: on every strict program whose blocks are live, \<open>optimize\<close> reaches
  its fixed point after finitely many rounds, and the result is a strict program with exactly the runs of
  the original, whatever memory, helpers and initial registers do.
\<close>

theorem optimize_correct:
  assumes "adj_sound adj" "ssa_ok adj prog" "strict_ssa adj prog" "all_live prog"
  shows "\<exists>prog'. optimize adj prog = Some prog' \<and> ssa_ok adj prog' \<and> strict_ssa adj prog'
    \<and> (\<forall>(fx :: 'w effects) n w. run_ssa fx adj prog' n w = run_ssa fx adj prog n w)"
proof -
  have "round_ok adj (consts_build prog) prog"
    using assms consts_build_ok by (simp add: round_ok_def strict_prog_def)
  then obtain prog' where "optimize adj prog = Some prog'" "loop_result adj TYPE('w) prog prog'"
    using optimize_result unfolding optimize_def by blast
  moreover from this(2) have "\<forall>(fx :: 'w effects) n w. run_ssa fx adj prog' n w = run_ssa fx adj prog n w"
    by (simp add: loop_result_def simulates_def strict_never_stuck [OF assms(1-3)])
  ultimately show ?thesis by (auto simp: loop_result_def strict_prog_def)
qed

theorem optimize_correct_witness:
  "\<exists>prog'. optimize out_edges countdown = Some prog' \<and> (\<forall>(fx :: nat effects) n w. run_ssa fx out_edges prog' n w = run_ssa fx out_edges countdown n w)"
  using optimize_correct [OF out_edges_sound countdown_ok countdown_strict countdown_live, where 'w = nat] by blast

text \<open>
  C24: dead-code elimination needs no dominance: on any well-formed program it returns, drops only
  instructions whose value nobody observes, and keeps every run that does not get stuck; a pass that
  reports a change has removed an instruction.
\<close>

theorem dead_code_eliminate_correct:
  assumes "ssa_ok adj prog"
  shows "\<exists>prog' changed. dead_code_eliminate prog = Some (prog', changed) \<and> ssa_ok adj prog'
    \<and> (if changed then length (sp_insns prog') < length (sp_insns prog) else prog' = prog)
    \<and> (\<forall>(fx :: 'w effects) n w. run_ssa fx adj prog n w \<noteq> Some Stuck \<longrightarrow> run_ssa fx adj prog' n w = run_ssa fx adj prog n w)"
proof -
  have "table_ok [] prog" by (simp add: table_ok_def table_insn_def list_all_iff split: option.split)
  from dce_result [OF assms this, where 'w = 'w] obtain prog' c where d: "dead_code_eliminate prog = Some (prog', c)"
    "fold_result adj TYPE('w) prog prog' []" "if c then length (sp_insns prog') < length (sp_insns prog) else prog' = prog"
    by (metis (no_types, lifting))
  then show ?thesis unfolding fold_result_def simulates_def by blast
qed

theorem dead_code_eliminate_correct_witness:
  "\<exists>prog' changed. dead_code_eliminate countdown = Some (prog', changed)
    \<and> (\<forall>(fx :: nat effects) n w. run_ssa fx out_edges countdown n w \<noteq> Some Stuck \<longrightarrow> run_ssa fx out_edges prog' n w = run_ssa fx out_edges countdown n w)"
  using dead_code_eliminate_correct [OF countdown_ok, where 'w = nat] by blast

end
