(* ===== verification/Spec2Isabelle.thy ===== *)
theory Spec2Isabelle
  imports Prelude Isa Codec Cfg Memory Maps Exec Vm Xdp VRange VState VTransfer VSound VStep VEntry VWork VFix Bound VCore
    Ssa SsaOpt SsaSem SsaPass SsaFold SsaDce SsaReach SsaDom SsaCopy SsaStrict SsaDriver SsaProps
begin

text \<open>
  A verification development of ebpf-lab, an eBPF laboratory in Rust: instruction codec,
  control-flow graph, interpreter, verifier and SSA optimizer.

  The program.  Bytes are decoded to instructions (\<open>ebpf-isa\<close>); \<open>ebpf-cfg\<close> splits them into basic
  blocks joined by control transfers; \<open>ebpf-vm\<close> loads them into a pre-resolved form and interprets
  it over a guest memory, map stores and helpers; \<open>ebpf-verifier\<close> explores the graph with an abstract
  state and bounds its loops, to promise that the interpreter will not fault; \<open>ebpf-ssa\<close> optimizes
  the program in SSA form.  The properties are claims about these parts and about how they
  fit: the verifier against the interpreter, the interpreter's jumps against the graph, the decoder
  against the encoder, the optimizer against the meaning of SSA.

  Which theory models what (paths under \<open>src/crates/\<close>).
    \<^item> \<open>Prelude\<close>: Rust integers, \<open>Result\<close>, byte codecs, checked and saturating arithmetic.
    \<^item> \<open>Isa\<close>: \<open>ebpf-isa/src/insn.rs\<close>, \<open>opcode.rs\<close>.  \<open>Codec\<close>: \<open>decode.rs\<close>, \<open>encode.rs\<close>; the two are
      inverse on the encoder's image, and refusals are characterised.
    \<^item> \<open>Cfg\<close>: \<open>ebpf-cfg/src/lib.rs\<close>.  The blocks partition the program, the edges are exactly its
      control transfers, and \<open>rpo\<close> covers what execution can reach.
    \<^item> \<open>Memory\<close>, \<open>Maps\<close>, \<open>Exec\<close>, \<open>Vm\<close>, \<open>Xdp\<close>: \<open>memory.rs\<close>, \<open>maps.rs\<close>, \<open>exec.rs\<close>, \<open>lib.rs\<close> and \<open>xdp.rs\<close>
      of \<open>ebpf-vm/src\<close>.  The machine is the record \<open>vm\<close>; \<open>step\<close> is one instruction, \<open>run\<close> the bounded
      run.  The lemmas read memory as an abstract byte memory, a store as a map, and keep \<open>vm_inv\<close>.
    \<^item> \<open>VRange\<close>, \<open>VState\<close>, \<open>VTransfer\<close>: \<open>state.rs\<close>, \<open>refine.rs\<close> and the transfer functions of
      \<open>verify.rs\<close> in \<open>ebpf-verifier/src\<close>.  \<open>VSound\<close>, \<open>VStep\<close>, \<open>VEntry\<close> prove one accepted step sound.
    \<^item> \<open>VWork\<close>, \<open>VFix\<close>, \<open>VCore\<close>: the worklist and the entry points of \<open>verify.rs\<close>: termination, the
      fixpoint, and what acceptance means.  \<open>Bound\<close>: \<open>bound.rs\<close>, the trip counts and the budget.
    \<^item> \<open>Ssa\<close>, \<open>SsaOpt\<close>: \<open>ebpf-ssa/src/lib.rs\<close> and \<open>opt.rs\<close>.  \<open>SsaSem\<close> gives SSA a meaning (the
      repository has none: it never executes SSA); \<open>SsaPass\<close> reduces a pass to a simulation; \<open>SsaFold\<close>,
      \<open>SsaCopy\<close>, \<open>SsaDce\<close>, \<open>SsaReach\<close> prove the four passes, \<open>SsaDom\<close> and \<open>SsaStrict\<close> that uses stay
      dominated by definitions, \<open>SsaDriver\<close> that the rounds end, \<open>SsaProps\<close> the resulting properties.

  Correspondence.  A struct is a record, an enum a datatype, a \<open>Result\<close> a sum with \<open>Inl\<close> for \<open>Err\<close>.
  Register values and wire fields are words of their width; indices, slots and ids, which the code
  converts with checks, are naturals; interval bounds are integers with the \<open>i64\<close> range written out.  A
  function that mutates its argument returns the new value; an \<open>unreachable!\<close> is a value of its own
  (\<open>None\<close>, or \<open>Panic\<close> for the machine), shown unreachable rather than assumed so.

  Interfaces.  \<open>kv_store\<close> and \<open>exact_kv\<close> state what the machine relies on of a map store and are
  interpreted on the three stores; \<open>lookup_table\<close> is the contract of the helper registry;
  \<open>abs_domain\<close> is what the worklist needs of a domain, interpreted on ranges and on whole states.

  Parameters.  The petgraph crate is not part of the repository.  Its depth-first post-order, the
  views of incoming and outgoing edges, \<open>is_cyclic_directed\<close> and the dominator tree are arguments, with
  their documented behaviour as named hypotheses (\<open>adj_sound\<close>, \<open>petgraph_ok\<close> and their like), each
  shown to hold for a concrete function in a witness.  A helper that the embedding program registers
  is an argument of \<open>step\<close>; \<open>custom_ok\<close> is what it must preserve.

  Loops.  A loop that might not end is a \<open>partial_function\<close>, and that it returns is a theorem: the
  worklist (the height of the states bounds every re-join), the body walk of \<open>Bound\<close>, the marking and
  reachability walks and the driver of the optimizer (a measure of copies still to be rewritten, weighted
  by dominance).  The interpreter's own step budget is its argument \<open>max_steps\<close>; a run is a value
  for every budget and larger budgets only refine \<open>StepLimit\<close>.

  Side conditions.  Some transfer functions of the verifier are unsound as written: \<open>sound_at\<close> is a
  computable test on an abstract state and an instruction which excludes them, and \<open>relies_on_sound\<close> asks
  for it at the states of the fixpoint.  The exclusions are not for convenience: each has a theorem
  that exhibits the failure (\<open>range_ops_unsound\<close>, \<open>refine_unsigned_unsound\<close>,
  \<open>uninit_destination_accepted\<close>, \<open>unknown_map_key_unchecked\<close>, \<open>trip_counts_too_small\<close>,
  \<open>runaway_loop_accepted\<close>, \<open>missing_exit_accepted\<close>).

  Not modelled.  \<open>Display\<close>, serde and tracing code; the verifier's collected trace (\<open>trace.rs\<close>); the
  disassembler and the command line, which print; the ELF loader (\<open>ebpf-elf\<close>), whose parsing rests on
  the object crate; SSA construction, register allocation and lowering (\<open>construct.rs\<close>,
  \<open>alloc.rs\<close>, \<open>lower.rs\<close>) beyond the terminators and successors that the optimizer shares.
\<close>

end
